(* ===== verification/Prelude.thy ===== *)
theory Prelude
  imports Main "HOL-Library.Word" "HOL-Library.Monad_Syntax"
begin

text \<open>
  Shared vocabulary of the development.

  A C function that may leave defined behaviour (an access outside an allocated block, a
  dereference of \<open>NULL\<close>, a failed \<open>assert\<close>) or that may fail to return is modelled
  in the option monad: \<^term>\<open>None\<close> is that outcome, and a theorem that a function is safe says
  that it returns \<^term>\<open>Some\<close>. Memory blocks are lists of bytes or of cells, read and
  written through the checked accessors below. The host is the little-endian one with 64-bit
  \<open>long\<close> that the sources are configured for (\<open>src/redis-stable/src/config.h\<close>); the
  \<open>*ifbe\<close> byte swaps are therefore identities where they occur.
\<close>

named_theorems mem_simps \<open>checked memory accesses that succeed\<close>

section \<open>Machine types\<close>

type_synonym byte = "8 word"
type_synonym u16 = "16 word"
type_synonym u32 = "32 word"
type_synonym u64 = "64 word"

definition int16 :: "int \<Rightarrow> bool" where
  "int16 v \<longleftrightarrow> - (2 ^ 15) \<le> v \<and> v < 2 ^ 15"

definition int32 :: "int \<Rightarrow> bool" where
  "int32 v \<longleftrightarrow> - (2 ^ 31) \<le> v \<and> v < 2 ^ 31"

definition int64 :: "int \<Rightarrow> bool" where
  "int64 v \<longleftrightarrow> - (2 ^ 63) \<le> v \<and> v < 2 ^ 63"

text \<open>Conversion of an integer to a C \<open>int\<close>: the two's complement value of its low 32 bits.\<close>

definition to_int32 :: "int \<Rightarrow> int" where
  "to_int32 v = signed_take_bit 31 v"

definition to_int64 :: "int \<Rightarrow> int" where
  "to_int64 v = signed_take_bit 63 v"

section \<open>Cells: arrays with checked access\<close>

definition cell_get :: "'a list \<Rightarrow> nat \<Rightarrow> 'a option" where
  "cell_get xs i = (if i < length xs then Some (xs ! i) else None)"

definition cell_set :: "'a list \<Rightarrow> nat \<Rightarrow> 'a \<Rightarrow> 'a list option" where
  "cell_set xs i v = (if i < length xs then Some (xs[i := v]) else None)"

section \<open>Bytes: little-endian encoding, blocks, \<open>memmove\<close>, \<open>realloc\<close>\<close>

primrec bytes_of_int :: "nat \<Rightarrow> int \<Rightarrow> byte list" where
  "bytes_of_int 0 v = []"
| "bytes_of_int (Suc n) v = word_of_int v # bytes_of_int n (v div 256)"

primrec uint_of_bytes :: "byte list \<Rightarrow> int" where
  "uint_of_bytes [] = 0"
| "uint_of_bytes (b # bs) = uint b + 256 * uint_of_bytes bs"

definition sint_of_bytes :: "byte list \<Rightarrow> int" where
  "sint_of_bytes bs =
     (let u = uint_of_bytes bs; n = 8 * length bs
      in if u < 2 ^ (n - 1) then u else u - 2 ^ n)"

definition block :: "'a list \<Rightarrow> nat \<Rightarrow> nat \<Rightarrow> 'a list" where
  "block m off n = take n (drop off m)"

definition mem_read :: "byte list \<Rightarrow> nat \<Rightarrow> nat \<Rightarrow> byte list option" where
  "mem_read m off w = (if off + w \<le> length m then Some (block m off w) else None)"

definition mem_write :: "byte list \<Rightarrow> nat \<Rightarrow> byte list \<Rightarrow> byte list option" where
  "mem_write m off bs =
     (if off + length bs \<le> length m
      then Some (take off m @ bs @ drop (off + length bs) m) else None)"

text \<open>\<open>memmove(base + dst, base + src, n)\<close> inside one block: the source is read before
  anything is written.\<close>

definition mem_move :: "byte list \<Rightarrow> nat \<Rightarrow> nat \<Rightarrow> nat \<Rightarrow> byte list option" where
  "mem_move m dst src n = do { bs \<leftarrow> mem_read m src n; mem_write m dst bs }"

text \<open>\<open>zrealloc(m, n)\<close>: the common prefix survives. Bytes past it are whatever the allocator
  left there, which the argument \<open>junk\<close> stands for.\<close>

definition mem_realloc :: "(nat \<Rightarrow> byte) \<Rightarrow> byte list \<Rightarrow> nat \<Rightarrow> byte list" where
  "mem_realloc junk m n = take n m @ map junk [length m..<n]"

section \<open>Lemmas on machine types\<close>

lemma to_int32_id: "int32 v \<Longrightarrow> to_int32 v = v"
  unfolding int32_def to_int32_def by (simp add: signed_take_bit_int_eq_self)

lemma to_int64_id: "int64 v \<Longrightarrow> to_int64 v = v"
  unfolding int64_def to_int64_def by (simp add: signed_take_bit_int_eq_self)

lemma int32_to_int32: "int32 (to_int32 v)"
  using signed_take_bit_int_greater_eq_minus_exp [of 31 v] signed_take_bit_int_less_exp [of 31 v]
  by (simp add: int32_def to_int32_def)

lemma int64_to_int64: "int64 (to_int64 v)"
  using signed_take_bit_int_greater_eq_minus_exp [of 63 v] signed_take_bit_int_less_exp [of 63 v]
  by (simp add: int64_def to_int64_def)

lemma sint_small32:
  fixes x :: u32
  assumes "unat x < 2 ^ 31"
  shows "sint x = int (unat x)"
proof -
  have u: "uint x = int (unat x)" by (rule uint_nat)
  have "int (unat x) < int (2 ^ 31)" using assms by (simp only: of_nat_less_iff)
  with u have b2: "uint x < 2 ^ 31" by auto
  have b1: "- (2 ^ 31) \<le> uint x" by (rule order_trans [OF _ uint_ge_0]) simp
  have "sint x = signed_take_bit 31 (uint x)" by (simp add: sint_uint)
  also have "\<dots> = uint x"
    using b1 b2 by (rule signed_take_bit_int_eq_self)
  also note u
  finally show ?thesis .
qed

section \<open>Lemmas on cells\<close>

lemma cell_get_Some [mem_simps]: "i < length xs \<Longrightarrow> cell_get xs i = Some (xs ! i)"
  by (simp add: cell_get_def)

lemma cell_set_Some [mem_simps]: "i < length xs \<Longrightarrow> cell_set xs i v = Some (xs[i := v])"
  by (simp add: cell_set_def)

section \<open>Lemmas on bytes\<close>

lemma length_bytes_of_int [simp]: "length (bytes_of_int n v) = n"
  by (induction n arbitrary: v) auto

lemma uint_of_bytes_bounds:
  "0 \<le> uint_of_bytes bs \<and> uint_of_bytes bs < 256 ^ length bs"
proof (induction bs)
  case (Cons b bs)
  have "0 \<le> uint b" "uint b < 256" using uint_lt2p [of b] by auto
  with Cons.IH show ?case by simp
qed simp

lemma uint_of_bytes_of_int: "uint_of_bytes (bytes_of_int n v) = v mod 256 ^ n"
proof (induction n arbitrary: v)
  case (Suc n)
  have "uint (word_of_int v :: byte) = v mod 256"
    by (simp add: uint_word_of_int)
  moreover have "v mod 256 + 256 * (v div 256 mod 256 ^ n) = v mod (256 * 256 ^ n)"
    by (simp add: mod_mult2_eq' zmod_zmult2_eq)
  ultimately show ?case using Suc.IH by simp
qed simp

lemma pow256: "(256::int) ^ n = 2 ^ (8 * n)"
  by (simp add: power_mult)

lemma sint_of_bytes_of_int:
  assumes "0 < n" "- (2 ^ (8 * n - 1)) \<le> v" "v < 2 ^ (8 * n - 1)"
  shows "sint_of_bytes (bytes_of_int n v) = v"
proof -
  have e: "(2::int) ^ (8 * n) = 2 * 2 ^ (8 * n - 1)"
    using assms(1) by (metis mult_pos_pos power_minus_mult mult.commute zero_less_numeral)
  show ?thesis
  proof (cases "0 \<le> v")
    case True
    then have "v mod 2 ^ (8 * n) = v" using assms e by simp
    then show ?thesis using assms
      by (simp add: sint_of_bytes_def uint_of_bytes_of_int pow256)
  next
    case False
    then have "v mod 2 ^ (8 * n) = v + 2 ^ (8 * n)"
      using assms e by (smt (verit) mod_add_self2 mod_pos_pos_trivial)
    then show ?thesis using assms False e
      by (simp add: sint_of_bytes_def uint_of_bytes_of_int pow256)
  qed
qed

lemma sint_of_bytes_bounds:
  assumes "bs \<noteq> []"
  shows "- (2 ^ (8 * length bs - 1)) \<le> sint_of_bytes bs \<and> sint_of_bytes bs < 2 ^ (8 * length bs - 1)"
proof -
  have "0 < length bs" using assms by simp
  then have e: "(2::int) ^ (8 * length bs) = 2 * 2 ^ (8 * length bs - 1)"
    by (metis mult_pos_pos power_minus_mult mult.commute zero_less_numeral)
  show ?thesis using uint_of_bytes_bounds [of bs] e
    by (auto simp: sint_of_bytes_def Let_def pow256)
qed

lemma length_block [simp]: "off + n \<le> length m \<Longrightarrow> length (block m off n) = n"
  by (simp add: block_def)

lemma nth_block [simp]: "i < n \<Longrightarrow> off + n \<le> length m \<Longrightarrow> block m off n ! i = m ! (off + i)"
  by (simp add: block_def)

lemma mem_write_Some [mem_simps]:
  "off + length bs \<le> length m \<Longrightarrow>
   mem_write m off bs = Some (take off m @ bs @ drop (off + length bs) m)"
  by (simp add: mem_write_def)

lemma mem_read_Some [mem_simps]: "off + n \<le> length m \<Longrightarrow> mem_read m off n = Some (block m off n)"
  by (simp add: mem_read_def)

lemma block_write_disj:
  assumes "off + length bs \<le> length m" "o' + n \<le> length m"
    and "o' + n \<le> off \<or> off + length bs \<le> o'"
  shows "block (take off m @ bs @ drop (off + length bs) m) o' n = block m o' n"
  using assms by (auto intro!: nth_equalityI simp: nth_append)

lemma block_write_in:
  assumes "off + length bs \<le> length m" "off \<le> o'" "o' + n \<le> off + length bs"
  shows "block (take off m @ bs @ drop (off + length bs) m) o' n = block bs (o' - off) n"
  using assms by (auto intro!: nth_equalityI simp: nth_append)

lemma block_write_same:
  assumes "off + length bs \<le> length m"
  shows "block (take off m @ bs @ drop (off + length bs) m) off (length bs) = bs"
  using block_write_in [OF assms, of off "length bs"] by (simp add: block_def)

lemma block_block: "i + k \<le> n \<Longrightarrow> block (block m off n) i k = block m (off + i) k"
  by (simp add: block_def drop_take min_def add.commute)

lemma length_mem_write: "mem_write m off bs = Some m' \<Longrightarrow> length m' = length m"
  by (auto simp: mem_write_def split: if_splits)

lemma length_mem_realloc [simp]: "length (mem_realloc junk m n) = n"
  by (simp add: mem_realloc_def)

lemma block_mem_realloc:
  "off + k \<le> n \<Longrightarrow> off + k \<le> length m \<Longrightarrow> block (mem_realloc junk m n) off k = block m off k"
  by (auto intro!: nth_equalityI simp: mem_realloc_def nth_append)

lemma take_mem_realloc: "k \<le> n \<Longrightarrow> k \<le> length m \<Longrightarrow> take k (mem_realloc junk m n) = take k m"
  by (simp add: mem_realloc_def)

end
