(* ===== verification/Intset.thy ===== *)
theory Intset
  imports Prelude
begin

text \<open>
  The integer set of \<open>src/redis-stable/src/intset.c\<close>: a sorted array of 2, 4 or 8 byte
  integers in one memory block, widened when a value does not fit. The model keeps the block as
  bytes, the length and encoding fields at 32 bits, and every read and write checked. The lemmas
  relate each operation to the sorted list of the set's elements.
\<close>

section \<open>Data and operations\<close>

record intset =
  is_encoding :: u32
  is_length :: u32
  is_contents :: "byte list"

definition INTSET_ENC_INT16 :: u32 where "INTSET_ENC_INT16 = 2"
definition INTSET_ENC_INT32 :: u32 where "INTSET_ENC_INT32 = 4"
definition INTSET_ENC_INT64 :: u32 where "INTSET_ENC_INT64 = 8"

definition intsetValueEncoding :: "int \<Rightarrow> u32" where
  "intsetValueEncoding v =
     (if v < - (2 ^ 31) \<or> v > 2 ^ 31 - 1 then INTSET_ENC_INT64
      else if v < - (2 ^ 15) \<or> v > 2 ^ 15 - 1 then INTSET_ENC_INT32
      else INTSET_ENC_INT16)"

text \<open>The cast chosen by each \<open>if (enc == ...)\<close> chain: \<open>int64_t*\<close>, \<open>int32_t*\<close> or
  \<open>int16_t*\<close>, as the size of the type pointed to.\<close>

definition enc_width :: "u32 \<Rightarrow> nat" where
  "enc_width enc =
     (if enc = INTSET_ENC_INT64 then 8 else if enc = INTSET_ENC_INT32 then 4 else 2)"

definition intsetGetEncoded :: "intset \<Rightarrow> int \<Rightarrow> u32 \<Rightarrow> int option" where
  "intsetGetEncoded s pos enc =
     (if pos < 0 then None
      else map_option sint_of_bytes
             (mem_read (is_contents s) (nat pos * enc_width enc) (enc_width enc)))"

definition intsetGetPos :: "intset \<Rightarrow> int \<Rightarrow> int option" where
  "intsetGetPos s pos = intsetGetEncoded s pos (is_encoding s)"

definition intsetSet :: "intset \<Rightarrow> int \<Rightarrow> int \<Rightarrow> intset option" where
  "intsetSet s pos v =
     (let w = enc_width (is_encoding s)
      in if pos < 0 then None
         else map_option (\<lambda>m. s\<lparr>is_contents := m\<rparr>)
                (mem_write (is_contents s) (nat pos * w) (bytes_of_int w v)))"

definition intsetNew :: intset where
  "intsetNew = \<lparr>is_encoding = INTSET_ENC_INT16, is_length = 0, is_contents = []\<rparr>"

definition intsetResize :: "(nat \<Rightarrow> byte) \<Rightarrow> intset \<Rightarrow> u32 \<Rightarrow> intset" where
  "intsetResize junk s len =
     (let size = len * is_encoding s
      in s\<lparr>is_contents := mem_realloc junk (is_contents s) (unat size)\<rparr>)"

partial_function (option) intsetSearch_loop ::
  "intset \<Rightarrow> int \<Rightarrow> int \<Rightarrow> int \<Rightarrow> int \<Rightarrow> int \<Rightarrow> (int \<times> int \<times> int) option" where
  "intsetSearch_loop s v mn mx mid cur =
     (if mx \<ge> mn then
        (let mid = uint (drop_bit 1 (word_of_int mn + word_of_int mx :: u32))
         in do {
           cur \<leftarrow> intsetGetPos s mid;
           if v > cur then intsetSearch_loop s v (mid + 1) mx mid cur
           else if v < cur then intsetSearch_loop s v mn (mid - 1) mid cur
           else Some (mn, mid, cur)
         })
      else Some (mn, mid, cur))"

definition intsetSearch :: "intset \<Rightarrow> int \<Rightarrow> (bool \<times> u32) option" where
  "intsetSearch s v =
     (if is_length s = 0 then Some (False, 0)
      else do {
        hi \<leftarrow> intsetGetPos s (sint (is_length s - 1));
        if v > hi then Some (False, is_length s)
        else do {
          lo \<leftarrow> intsetGetPos s 0;
          if v < lo then Some (False, 0)
          else do {
            (mn, mid, cur) \<leftarrow> intsetSearch_loop s v 0 (sint (is_length s - 1)) (-1) (-1);
            if v = cur then Some (True, word_of_int mid) else Some (False, word_of_int mn)
          }
        }
      })"

text \<open>\<open>while(length--) _intsetSet(is,length+prepend,_intsetGetEncoded(is,length,curenc));\<close>\<close>

primrec intsetUpgrade_loop :: "nat \<Rightarrow> int \<Rightarrow> u32 \<Rightarrow> intset \<Rightarrow> intset option" where
  "intsetUpgrade_loop 0 prepend curenc s = Some s"
| "intsetUpgrade_loop (Suc n) prepend curenc s = do {
     v \<leftarrow> intsetGetEncoded s (int n) curenc;
     s' \<leftarrow> intsetSet s (int n + prepend) v;
     intsetUpgrade_loop n prepend curenc s'
   }"

definition intsetUpgradeAndAdd :: "(nat \<Rightarrow> byte) \<Rightarrow> intset \<Rightarrow> int \<Rightarrow> intset option" where
  "intsetUpgradeAndAdd junk s v =
     (let curenc = is_encoding s;
          newenc = intsetValueEncoding v;
          len = sint (is_length s);
          prepend = (if v < 0 then 1 else 0);
          s1 = intsetResize junk (s\<lparr>is_encoding := newenc\<rparr>) (is_length s + 1)
      in if len < 0 then None
         else do {
           s2 \<leftarrow> intsetUpgrade_loop (nat len) prepend curenc s1;
           s3 \<leftarrow> (if prepend \<noteq> 0 then intsetSet s2 0 v
                 else intsetSet s2 (sint (is_length s2)) v);
           Some (s3\<lparr>is_length := is_length s3 + 1\<rparr>)
         })"

definition intsetMoveTail :: "intset \<Rightarrow> u32 \<Rightarrow> u32 \<Rightarrow> intset option" where
  "intsetMoveTail s from to' =
     (let w = enc_width (is_encoding s);
          bytes = (is_length s - from) * of_nat w
      in map_option (\<lambda>m. s\<lparr>is_contents := m\<rparr>)
           (mem_move (is_contents s) (unat to' * w) (unat from * w) (unat bytes)))"

definition intsetAdd :: "(nat \<Rightarrow> byte) \<Rightarrow> intset \<Rightarrow> int \<Rightarrow> (intset \<times> bool) option" where
  "intsetAdd junk s v =
     (let valenc = intsetValueEncoding v
      in if valenc > is_encoding s
         then map_option (\<lambda>s'. (s', True)) (intsetUpgradeAndAdd junk s v)
         else do {
           (found, pos) \<leftarrow> intsetSearch s v;
           if found then Some (s, False)
           else do {
             s1 \<leftarrow> Some (intsetResize junk s (is_length s + 1));
             s2 \<leftarrow> (if pos < is_length s1 then intsetMoveTail s1 pos (pos + 1) else Some s1);
             s3 \<leftarrow> intsetSet s2 (sint pos) v;
             Some (s3\<lparr>is_length := is_length s3 + 1\<rparr>, True)
           }
         })"

definition intsetRemove :: "(nat \<Rightarrow> byte) \<Rightarrow> intset \<Rightarrow> int \<Rightarrow> (intset \<times> bool) option" where
  "intsetRemove junk s v =
     (let valenc = intsetValueEncoding v
      in if valenc \<le> is_encoding s then do {
           (found, pos) \<leftarrow> intsetSearch s v;
           if found then do {
             len \<leftarrow> Some (is_length s);
             s1 \<leftarrow> (if pos < len - 1 then intsetMoveTail s (pos + 1) pos else Some s);
             Some ((intsetResize junk s1 (len - 1))\<lparr>is_length := len - 1\<rparr>, True)
           } else Some (s, False)
         } else Some (s, False))"

definition intsetFind :: "intset \<Rightarrow> int \<Rightarrow> bool option" where
  "intsetFind s v =
     (if intsetValueEncoding v \<le> is_encoding s then map_option fst (intsetSearch s v)
      else Some False)"

text \<open>\<open>r\<close> is the value \<open>rand()\<close> returned; a modulus of zero is undefined.\<close>

definition intsetRandom :: "nat \<Rightarrow> intset \<Rightarrow> int option" where
  "intsetRandom r s =
     (if is_length s = 0 then None else intsetGetPos s (sint (of_nat r mod is_length s)))"

text \<open>The outer option is the memory check, the inner one the return value 0 or 1.\<close>

definition intsetGet :: "intset \<Rightarrow> u32 \<Rightarrow> int option option" where
  "intsetGet s pos =
     (if pos < is_length s then map_option Some (intsetGetPos s (sint pos)) else Some None)"

definition intsetLen :: "intset \<Rightarrow> u32" where
  "intsetLen s = is_length s"

definition intsetBlobLen :: "intset \<Rightarrow> nat" where
  "intsetBlobLen s = 8 + unat (is_length s * is_encoding s)"

section \<open>Abstraction and well-formedness\<close>

definition elem_at :: "nat \<Rightarrow> byte list \<Rightarrow> nat \<Rightarrow> int" where
  "elem_at w m i = sint_of_bytes (block m (i * w) w)"

definition intset_elems :: "intset \<Rightarrow> int list" where
  "intset_elems s =
     map (elem_at (enc_width (is_encoding s)) (is_contents s)) [0..<unat (is_length s)]"

definition intset_shape :: "intset \<Rightarrow> bool" where
  "intset_shape s \<longleftrightarrow>
     is_encoding s \<in> {INTSET_ENC_INT16, INTSET_ENC_INT32, INTSET_ENC_INT64} \<and>
     length (is_contents s) = unat (is_length s) * enc_width (is_encoding s) \<and>
     unat (is_length s) * 8 < 2 ^ 32"

definition intset_wf :: "intset \<Rightarrow> bool" where
  "intset_wf s \<longleftrightarrow> intset_shape s \<and> sorted_wrt (<) (intset_elems s)"

text \<open>Room for one more element: the byte size still fits the 32 bits of
  \<^const>\<open>intsetResize\<close>.\<close>

definition intset_room :: "intset \<Rightarrow> bool" where
  "intset_room s \<longleftrightarrow> (unat (is_length s) + 1) * 8 < 2 ^ 32"

lemmas enc_defs = INTSET_ENC_INT16_def INTSET_ENC_INT32_def INTSET_ENC_INT64_def


section \<open>Widths and positions\<close>

lemma enc_width_eq: "intset_shape s \<Longrightarrow> enc_width (is_encoding s) = unat (is_encoding s)"
  by (auto simp: intset_shape_def enc_width_def enc_defs)

lemma enc_width_pos [simp]: "0 < enc_width e"
  by (simp add: enc_width_def)

lemma enc_width_le: "enc_width e \<le> 8"
  by (simp add: enc_width_def)

lemma elem_at_bounds:
  assumes "i * w + w \<le> length m" "0 < w"
  shows "- (2 ^ (8 * w - 1)) \<le> elem_at w m i \<and> elem_at w m i < 2 ^ (8 * w - 1)"
proof -
  have "length (block m (i * w) w) = w" using assms(1) by simp
  moreover from this have "block m (i * w) w \<noteq> []" using assms(2) by auto
  ultimately show ?thesis using sint_of_bytes_bounds [of "block m (i * w) w"]
    by (simp add: elem_at_def)
qed

lemma length_intset_elems [simp]: "length (intset_elems s) = unat (is_length s)"
  by (simp add: intset_elems_def)

lemma index_fits: "i < n \<Longrightarrow> i * w + w \<le> n * (w::nat)"
  by (metis Suc_leI add.commute mult_Suc mult_le_mono1)

lemma intsetGetPos_Some:
  assumes "intset_shape s" "i < unat (is_length s)"
  shows "intsetGetPos s (int i) = Some (intset_elems s ! i)"
  using assms index_fits [OF assms(2), of "enc_width (is_encoding s)"]
  by (simp add: intsetGetPos_def intsetGetEncoded_def mem_simps intset_shape_def
      intset_elems_def elem_at_def)

lemma small_len:
  assumes "intset_shape s"
  shows "sint (is_length s) = int (unat (is_length s))"
    and "is_length s \<noteq> 0 \<Longrightarrow> sint (is_length s - 1) = int (unat (is_length s)) - 1"
proof -
  have b: "unat (is_length s) < 2 ^ 29" using assms by (simp add: intset_shape_def)
  then show "sint (is_length s) = int (unat (is_length s))"
    by (simp add: sint_small32)
  assume "is_length s \<noteq> 0"
  then have "unat (is_length s - 1) = unat (is_length s) - 1" and "unat (is_length s) > 0"
    by (auto simp: unat_minus_one unat_gt_0)
  with b show "sint (is_length s - 1) = int (unat (is_length s)) - 1"
    by (simp add: sint_small32)
qed

section \<open>Binary search\<close>

lemma mid_eq:
  assumes "0 \<le> mn" "mn \<le> mx" "mx < 2 ^ 31"
  shows "uint (drop_bit 1 (word_of_int mn + word_of_int mx :: u32)) = (mn + mx) div 2"
proof -
  have "uint (word_of_int mn + word_of_int mx :: u32) = mn + mx"
    using assms by (simp add: uint_word_ariths uint_word_of_int)
  moreover have "take_bit 32 (mn + mx) = mn + mx"
    using assms by (simp add: take_bit_int_eq_self_iff)
  ultimately show ?thesis
    unfolding unsigned_drop_bit_eq by (simp add: drop_bit_eq_div)
qed

text \<open>What the loop knows about the part of the array it has excluded.\<close>

definition splits_at :: "int list \<Rightarrow> int \<Rightarrow> nat \<Rightarrow> nat \<Rightarrow> bool" where
  "splits_at xs v lo hi \<longleftrightarrow>
     (\<forall>i < lo. i < length xs \<longrightarrow> xs ! i < v) \<and> (\<forall>i. hi \<le> i \<longrightarrow> i < length xs \<longrightarrow> v < xs ! i)"

lemma splits_at_notin: "splits_at xs v p p \<Longrightarrow> v \<notin> set xs"
  by (metis splits_at_def in_set_conv_nth less_irrefl not_le)

lemma splits_at_right:
  assumes "sorted_wrt (<) xs" "splits_at xs v lo hi" "m < length xs" "xs ! m < v"
  shows "splits_at xs v (Suc m) hi"
  using assms sorted_wrt_nth_less [OF assms(1), of _ m]
  by (fastforce simp: splits_at_def less_Suc_eq)

lemma splits_at_left:
  assumes "sorted_wrt (<) xs" "splits_at xs v lo hi" "m < length xs" "v < xs ! m"
  shows "splits_at xs v lo m"
  using assms sorted_wrt_nth_less [OF assms(1), of m]
  by (fastforce simp: splits_at_def le_less)

lemma intsetSearch_loop_correct:
  assumes shape: "intset_shape s" and xs: "xs = intset_elems s" and sd: "sorted_wrt (<) xs"
    and "0 \<le> mn" "mn \<le> mx + 1" "mx < int (length xs)" "mn \<le> mx \<or> cur \<noteq> v"
    and "splits_at xs v (nat mn) (nat (mx + 1))"
  shows "\<exists>mn' mid' cur'. intsetSearch_loop s v mn mx mid cur = Some (mn', mid', cur') \<and>
     (if cur' = v then 0 \<le> mid' \<and> mid' < int (length xs) \<and> xs ! nat mid' = v
      else 0 \<le> mn' \<and> mn' \<le> int (length xs) \<and> splits_at xs v (nat mn') (nat mn'))"
  using assms(4-)
proof (induction "nat (mx - mn + 1)" arbitrary: mn mx mid cur rule: less_induct)
  case less
  show ?case
  proof (cases "mn \<le> mx")
    case False
    then have "nat (mx + 1) = nat mn" using less.prems by auto
    then show ?thesis using False less.prems
      by (subst intsetSearch_loop.simps) auto
  next
    case True
    define m where "m = (mn + mx) div 2"
    have b: "mn \<le> m" "m \<le> mx" using True by (auto simp: m_def)
    have "length xs < 2 ^ 29" using shape by (simp add: xs intset_shape_def)
    then have "mx < 2 ^ 31" using less.prems(3) by simp
    then have mid: "uint (drop_bit 1 (word_of_int mn + word_of_int mx :: u32)) = m"
      using mid_eq True less.prems(1) by (simp add: m_def)
    have mlen: "nat m < length xs" using b less.prems by auto
    have get: "intsetGetPos s m = Some (xs ! nat m)"
      using intsetGetPos_Some [OF shape, of "nat m"] mlen b less.prems(1) by (simp add: xs)
    have step: "intsetSearch_loop s v mn mx mid cur =
        (if xs ! nat m < v then intsetSearch_loop s v (m + 1) mx m (xs ! nat m)
         else if v < xs ! nat m then intsetSearch_loop s v mn (m - 1) m (xs ! nat m)
         else Some (mn, m, xs ! nat m))"
      by (subst intsetSearch_loop.simps) (simp only: Let_def mid get True if_True bind.bind_lunit)
    consider "xs ! nat m < v" | "v < xs ! nat m" | "xs ! nat m = v" by linarith
    then show ?thesis
    proof cases
      case 1
      have "nat (m + 1) = Suc (nat m)" using b less.prems(1) by linarith
      then have "splits_at xs v (nat (m + 1)) (nat (mx + 1))"
        using splits_at_right [OF sd less.prems(5) mlen 1] by simp
      with 1 less.hyps [of mx "m + 1" "xs ! nat m" m] less.prems b show ?thesis
        by (simp add: step)
    next
      case 2
      have "splits_at xs v (nat mn) (nat (m - 1 + 1))"
        using splits_at_left [OF sd less.prems(5) mlen 2] by simp
      with 2 less.hyps [of "m - 1" mn "xs ! nat m" m] less.prems b show ?thesis
        by (simp add: step)
    next
      case 3
      then show ?thesis using mlen b less.prems(1) by (simp add: step)
    qed
  qed
qed

lemma intsetSearch_correct:
  assumes wf: "intset_wf s"
  defines "xs \<equiv> intset_elems s"
  shows "\<exists>pos. intsetSearch s v = Some (v \<in> set xs, pos) \<and>
     (if v \<in> set xs then unat pos < length xs \<and> xs ! unat pos = v
      else unat pos \<le> length xs \<and> splits_at xs v (unat pos) (unat pos))"
proof (cases "is_length s = 0")
  case True
  then have "length xs = 0" by (simp add: xs_def)
  with True show ?thesis by (simp add: intsetSearch_def splits_at_def)
next
  case False
  let ?n = "length xs"
  have shape: "intset_shape s" and sd: "sorted_wrt (<) xs" using wf by (auto simp: intset_wf_def xs_def)
  have n: "?n = unat (is_length s)" by (simp add: xs_def)
  have n0: "0 < ?n" using False by (simp add: n unat_gt_0)
  have lst: "sint (is_length s - 1) = int ?n - 1" using small_len(2) [OF shape False] n by simp
  have "int ?n - 1 = int (?n - 1)" using n0 by linarith
  then have hi: "intsetGetPos s (sint (is_length s - 1)) = Some (xs ! (?n - 1))"
    unfolding lst using intsetGetPos_Some [OF shape, of "?n - 1"] n0 n by (simp add: xs_def)
  have lo: "intsetGetPos s 0 = Some (xs ! 0)"
    using intsetGetPos_Some [OF shape, of 0] n0 n by (simp add: xs_def)
  note sdn = sorted_wrt_nth_less [OF sd]
  consider (above) "xs ! (?n - 1) < v" | (below) "v < xs ! 0" "\<not> xs ! (?n - 1) < v"
    | (inside) "\<not> xs ! (?n - 1) < v" "\<not> v < xs ! 0" by blast
  then show ?thesis
  proof cases
    case above
    then have "splits_at xs v ?n ?n"
      using splits_at_right [OF sd, of v 0 ?n "?n - 1"] n0 by (simp add: splits_at_def)
    then show ?thesis using splits_at_notin [of xs v ?n] above False
      by (auto simp: intsetSearch_def hi n)
  next
    case below
    then have "splits_at xs v 0 0"
      using splits_at_left [OF sd, of v 0 ?n 0] n0 by (simp add: splits_at_def)
    then show ?thesis using splits_at_notin [of xs v 0] below False
      by (auto simp: intsetSearch_def hi lo)
  next
    case inside
    have "splits_at xs v (nat 0) (nat (int ?n - 1 + 1))" by (simp add: splits_at_def)
    with intsetSearch_loop_correct [OF shape xs_def [THEN meta_eq_to_obj_eq] sd,
        of 0 "int ?n - 1" "-1" v "-1"] n0
    obtain mn mid cur where loop: "intsetSearch_loop s v 0 (int ?n - 1) (-1) (-1) = Some (mn, mid, cur)"
      and post: "if cur = v then 0 \<le> mid \<and> mid < int ?n \<and> xs ! nat mid = v
        else 0 \<le> mn \<and> mn \<le> int ?n \<and> splits_at xs v (nat mn) (nat mn)" by auto
    have small: "?n < 2 ^ 29" using shape by (simp add: n intset_shape_def)
    have conv: "unat (word_of_int k :: u32) = nat k" if "0 \<le> k" "k \<le> int ?n" for k
    proof -
      have "uint (word_of_int k :: u32) = k"
        using that small by (simp add: uint_word_of_int)
      then show ?thesis by (metis nat_uint_eq)
    qed
    show ?thesis
    proof (cases "cur = v")
      case True
      then have "v \<in> set xs" using post by (metis nth_mem nat_less_iff)
      with True post show ?thesis using inside False loop hi lo
        by (auto simp: intsetSearch_def lst conv nat_less_iff)
    next
      case False
      with post splits_at_notin have "v \<notin> set xs" by auto
      with False post show ?thesis using inside \<open>is_length s \<noteq> 0\<close> loop hi lo
        by (auto simp: intsetSearch_def lst conv)
    qed
  qed
qed

section \<open>Writes seen as updates of the element array\<close>

definition fits :: "nat \<Rightarrow> int \<Rightarrow> bool" where
  "fits w v \<longleftrightarrow> - (2 ^ (8 * w - 1)) \<le> v \<and> v < 2 ^ (8 * w - 1)"

lemma fits_mono:
  assumes "fits w v" "w \<le> w'"
  shows "fits w' v"
proof -
  have "(2::int) ^ (8 * w - 1) \<le> 2 ^ (8 * w' - 1)" using assms(2) by (intro power_increasing) auto
  with assms(1) show ?thesis unfolding fits_def by linarith
qed

lemma elem_at_fits: "i * w + w \<le> length m \<Longrightarrow> 0 < w \<Longrightarrow> fits w (elem_at w m i)"
  using elem_at_bounds by (simp add: fits_def)

lemma index_disj: "i < j \<Longrightarrow> i * w + w \<le> j * (w::nat)"
  by (rule index_fits)

lemma elem_write_other:
  assumes "off + length bs \<le> length m" "j * w + w \<le> length m"
    and "j * w + w \<le> off \<or> off + length bs \<le> j * w"
  shows "elem_at w (take off m @ bs @ drop (off + length bs) m) j = elem_at w m j"
  using block_write_disj [OF assms] by (simp add: elem_at_def)

lemma elem_write:
  assumes "i < N" "j < N" "length m = N * w" "fits w v" "0 < w"
  shows "elem_at w (take (i * w) m @ bytes_of_int w v @ drop (i * w + w) m) j =
     (if j = i then v else elem_at w m j)"
proof -
  have b: "i * w + length (bytes_of_int w v) \<le> length m" "j * w + w \<le> length m"
    using assms index_fits by auto
  show ?thesis
  proof (cases "j = i")
    case True
    have "block (take (i * w) m @ bytes_of_int w v @ drop (i * w + w) m) (i * w) w = bytes_of_int w v"
      using block_write_same [OF b(1)] by simp
    then show ?thesis using True assms
      by (simp add: elem_at_def sint_of_bytes_of_int fits_def)
  next
    case False
    then have "j * w + w \<le> i * w \<or> i * w + length (bytes_of_int w v) \<le> j * w"
      using index_disj [of i j w] index_disj [of j i w] by (simp add: neq_iff) blast
    from elem_write_other [OF b this] False show ?thesis by simp
  qed
qed

lemma elem_move:
  assumes "length m = N * w" "to' + k \<le> N" "from + k \<le> N"
  shows "\<exists>m'. mem_move m (to' * w) (from * w) (k * w) = Some m' \<and> length m' = N * w \<and>
     (\<forall>j < N. elem_at w m' j =
        elem_at w m (if to' \<le> j \<and> j < to' + k then from + (j - to') else j))"
proof -
  have le: "to' * w + k * w \<le> N * w" "from * w + k * w \<le> N * w"
    using assms by (auto simp: add_mult_distrib [symmetric])
  let ?bs = "block m (from * w) (k * w)"
  let ?m' = "take (to' * w) m @ ?bs @ drop (to' * w + length ?bs) m"
  have lb: "length ?bs = k * w" using le assms by simp
  have mv: "mem_move m (to' * w) (from * w) (k * w) = Some ?m'"
    using le assms lb by (simp add: mem_move_def mem_simps)
  have w1: "to' * w + length ?bs \<le> length m" using le lb assms(1) by simp
  have "elem_at w ?m' j = elem_at w m (if to' \<le> j \<and> j < to' + k then from + (j - to') else j)"
    if j: "j < N" for j
  proof (cases "to' \<le> j \<and> j < to' + k")
    case True
    then have "j - to' < k" by linarith
    then have i: "(j - to') * w + w \<le> k * w" by (rule index_fits)
    have lo: "to' * w \<le> j * w" using True by simp
    have sub: "j * w - to' * w = (j - to') * w" by (simp add: diff_mult_distrib)
    have "j * w + w \<le> to' * w + length ?bs" using i lo sub lb by linarith
    from block_write_in [OF w1 lo this] have "block ?m' (j * w) w = block ?bs ((j - to') * w) w"
      by (simp only: sub)
    also have "\<dots> = block m ((from + (j - to')) * w) w"
      using block_block [OF i] by (simp add: add_mult_distrib)
    finally show ?thesis using True by (simp add: elem_at_def)
  next
    case False
    then have "j * w + w \<le> to' * w \<or> to' * w + length ?bs \<le> j * w"
      using index_disj [of j to' w] lb by (auto simp: add_mult_distrib [symmetric])
    from elem_write_other [OF w1 _ this] index_fits [OF j, of w] assms(1)
    have "elem_at w ?m' j = elem_at w m j" by simp
    then show ?thesis using False by auto
  qed
  then show ?thesis using mv le lb assms by auto
qed

lemma elem_realloc:
  assumes "j * w + w \<le> length m" "length m \<le> n"
  shows "elem_at w (mem_realloc junk m n) j = elem_at w m j"
  using assms by (simp add: elem_at_def block_mem_realloc)

lemma elem_shrink:
  assumes "j * w + w \<le> n" "n \<le> length m"
  shows "elem_at w (mem_realloc junk m n) j = elem_at w m j"
  using assms by (simp add: elem_at_def block_mem_realloc)

lemma intsetSet_Some:
  assumes "i < N" "length (is_contents s) = N * w" "w = enc_width (is_encoding s)"
  shows "intsetSet s (int i) v = Some (s\<lparr>is_contents :=
     take (i * w) (is_contents s) @ bytes_of_int w v @ drop (i * w + w) (is_contents s)\<rparr>)"
  using assms index_fits [OF assms(1), of w] by (simp add: intsetSet_def mem_simps Let_def)

section \<open>Upgrading\<close>

lemma intsetUpgrade_loop_correct:
  assumes "enc_width (is_encoding s) = w'" "enc_width cur = w" "w < w'"
    and "length (is_contents s) = (N + 1) * w'" "n \<le> N" "p \<le> 1"
    and "\<forall>j < n. elem_at w (is_contents s) j = xs ! j"
    and "\<forall>j. n \<le> j \<and> j < N \<longrightarrow> elem_at w' (is_contents s) (j + p) = xs ! j"
    and "\<forall>j < N. fits w' (xs ! j)"
  shows "\<exists>c. intsetUpgrade_loop n (int p) cur s = Some (s\<lparr>is_contents := c\<rparr>) \<and>
     length c = (N + 1) * w' \<and> (\<forall>j < N. elem_at w' c (j + p) = xs ! j)"
  using assms
proof (induction n arbitrary: s)
  case 0
  then show ?case by (intro exI [of _ "is_contents s"]) auto
next
  case (Suc k)
  let ?c = "is_contents s"
  let ?c1 = "take ((k + p) * w') ?c @ bytes_of_int w' (xs ! k) @ drop ((k + p) * w' + w') ?c"
  have wpos: "0 < w'" using Suc.prems(1) by auto
  have kN: "k < N" "k + p < N + 1" using Suc.prems by auto
  have len: "length ?c = (N + 1) * w'" by (rule Suc.prems)
  have kw: "k * w + w \<le> length ?c"
  proof -
    have "(k + 1) * w \<le> (N + 1) * w'" using Suc.prems(3) kN by (intro mult_le_mono) auto
    then show ?thesis using len by simp
  qed
  have get: "intsetGetEncoded s (int k) cur = Some (xs ! k)"
    using kw Suc.prems(2,7) by (simp add: intsetGetEncoded_def mem_simps elem_at_def)
  have set: "intsetSet s (int k + int p) (xs ! k) = Some (s\<lparr>is_contents := ?c1\<rparr>)"
    using intsetSet_Some [OF kN(2) len Suc.prems(1) [symmetric], of "xs ! k"] by simp
  have bnd: "(k + p) * w' + w' \<le> length ?c" using index_fits [OF kN(2), of w'] len by simp
  have old: "\<forall>j < k. elem_at w ?c1 j = xs ! j"
  proof (intro allI impI)
    fix j assume j: "j < k"
    have "j * w + w \<le> k * w" by (rule index_fits [OF j])
    also have "\<dots> \<le> (k + p) * w'" using Suc.prems(3) by (intro mult_le_mono) auto
    finally have d: "j * w + w \<le> (k + p) * w'" .
    have "elem_at w ?c1 j = elem_at w ?c j"
      using elem_write_other [of "(k + p) * w'" "bytes_of_int w' (xs ! k)" ?c j w] d bnd by simp
    then show "elem_at w ?c1 j = xs ! j" using Suc.prems(7) j by simp
  qed
  have new: "\<forall>j. k \<le> j \<and> j < N \<longrightarrow> elem_at w' ?c1 (j + p) = xs ! j"
  proof (intro allI impI)
    fix j assume j: "k \<le> j \<and> j < N"
    have "elem_at w' ?c1 (j + p) = (if j + p = k + p then xs ! k else elem_at w' ?c (j + p))"
      using elem_write [of "k + p" "N + 1" "j + p" ?c w' "xs ! k"] kN j len Suc.prems(6,9) wpos by simp
    then show "elem_at w' ?c1 (j + p) = xs ! j" using Suc.prems(8) j by (cases "j = k") auto
  qed
  have "length ?c1 = (N + 1) * w'" using bnd len by simp
  from Suc.IH [of "s\<lparr>is_contents := ?c1\<rparr>"] this old new Suc.prems
  show ?case by (simp add: get set)
qed

lemma valueEncoding_fits:
  assumes "int64 v" "enc \<in> {INTSET_ENC_INT16, INTSET_ENC_INT32, INTSET_ENC_INT64}"
  shows "intsetValueEncoding v \<le> enc \<longleftrightarrow> fits (enc_width enc) v"
  using assms by (auto simp: intsetValueEncoding_def fits_def enc_width_def enc_defs int64_def)

lemma valueEncoding_cases:
  "intsetValueEncoding v \<in> {INTSET_ENC_INT16, INTSET_ENC_INT32, INTSET_ENC_INT64}"
  by (simp add: intsetValueEncoding_def)

lemma enc_width_less:
  assumes "e \<in> {INTSET_ENC_INT16, INTSET_ENC_INT32, INTSET_ENC_INT64}"
    and "e' \<in> {INTSET_ENC_INT16, INTSET_ENC_INT32, INTSET_ENC_INT64}" "e < e'"
  shows "enc_width e < enc_width e'"
  using assms by (auto simp: enc_width_def enc_defs)

lemma unat_enc: "e \<in> {INTSET_ENC_INT16, INTSET_ENC_INT32, INTSET_ENC_INT64} \<Longrightarrow> unat e = enc_width e"
  by (auto simp: enc_width_def enc_defs)

lemma intset_elems_fits:
  assumes "intset_shape s" "x \<in> set (intset_elems s)"
  shows "fits (enc_width (is_encoding s)) x"
  using assms index_fits [of _ "unat (is_length s)" "enc_width (is_encoding s)"]
  by (auto simp: intset_elems_def intset_shape_def intro!: elem_at_fits)

lemma resize_size:
  assumes "e \<in> {INTSET_ENC_INT16, INTSET_ENC_INT32, INTSET_ENC_INT64}" "unat n * 8 < 2 ^ 32"
  shows "unat (n * e :: u32) = unat n * enc_width e"
proof -
  have "unat n * enc_width e \<le> unat n * 8" using enc_width_le by simp
  then have "unat n * enc_width e < 2 ^ 32" using assms(2) by (rule le_less_trans)
  then show ?thesis by (simp add: unat_word_ariths unat_enc [OF assms(1)])
qed

lemma room_length:
  assumes "intset_room s"
  shows "unat (is_length s + 1) = unat (is_length s) + 1"
proof -
  have "unat (is_length s) + 1 < 2 ^ 32" using assms by (simp add: intset_room_def)
  then show ?thesis by (simp add: unat_word_ariths)
qed

text \<open>A set whose block has the right size and whose array reads as a sorted list.\<close>

lemma intset_wfI:
  assumes "is_encoding s \<in> {INTSET_ENC_INT16, INTSET_ENC_INT32, INTSET_ENC_INT64}"
    and "unat (is_length s) = length ys" "length ys * 8 < 2 ^ 32"
    and "length (is_contents s) = length ys * enc_width (is_encoding s)"
    and "\<And>j. j < length ys \<Longrightarrow> elem_at (enc_width (is_encoding s)) (is_contents s) j = ys ! j"
    and "sorted_wrt (<) ys"
  shows "intset_wf s \<and> intset_elems s = ys"
proof -
  have "intset_elems s = ys"
    using assms(2,5) by (intro nth_equalityI) (auto simp: intset_elems_def)
  with assms show ?thesis by (simp add: intset_wf_def intset_shape_def)
qed

text \<open>Writing the new element into the one free position of an enlarged block.\<close>

lemma intsetSet_grow:
  assumes enc: "is_encoding t \<in> {INTSET_ENC_INT16, INTSET_ENC_INT32, INTSET_ENC_INT64}"
    and N: "unat (is_length t) = N" "(N + 1) * 8 < 2 ^ 32"
    and w: "w = enc_width (is_encoding t)" and len: "length (is_contents t) = (N + 1) * w"
    and v: "fits w v" and i: "i \<le> N"
    and ys: "length ys = N + 1" "ys ! i = v" "sorted_wrt (<) ys"
    and el: "\<And>j. j < N + 1 \<Longrightarrow> j \<noteq> i \<Longrightarrow> elem_at w (is_contents t) j = ys ! j"
  shows "\<exists>t'. intsetSet t (int i) v = Some t' \<and> is_length t' = is_length t \<and>
     intset_wf (t'\<lparr>is_length := is_length t + 1\<rparr>) \<and>
     intset_elems (t'\<lparr>is_length := is_length t + 1\<rparr>) = ys"
proof -
  let ?c = "take (i * w) (is_contents t) @ bytes_of_int w v @ drop (i * w + w) (is_contents t)"
  let ?t = "t\<lparr>is_contents := ?c\<rparr>"
  have iN: "i < N + 1" using i by simp
  have set: "intsetSet t (int i) v = Some ?t" by (rule intsetSet_Some [OF iN len w])
  have "unat (is_length t + 1) = N + 1" using N by (simp add: unat_word_ariths)
  moreover have "elem_at w ?c j = ys ! j" if "j < N + 1" for j
    using elem_write [OF iN that len v] w el [OF that] ys(2) by (cases "j = i") auto
  moreover have "length ?c = (N + 1) * w" using index_fits [OF iN, of w] len by simp
  ultimately have "intset_wf (?t\<lparr>is_length := is_length t + 1\<rparr>) \<and>
      intset_elems (?t\<lparr>is_length := is_length t + 1\<rparr>) = ys"
    using enc N ys w by (intro intset_wfI) auto
  with set show ?thesis by auto
qed

lemma intsetUpgrade_relocates:
  fixes junk :: "nat \<Rightarrow> byte"
  assumes wf: "intset_wf s" and room: "intset_room s" and p: "p \<le> 1"
    and enc': "e' \<in> {INTSET_ENC_INT16, INTSET_ENC_INT32, INTSET_ENC_INT64}" "is_encoding s < e'"
  defines "xs \<equiv> intset_elems s" and "N \<equiv> unat (is_length s)" and "w' \<equiv> enc_width e'"
    and "s1 \<equiv> intsetResize junk (s\<lparr>is_encoding := e'\<rparr>) (is_length s + 1)"
  shows "\<exists>c. intsetUpgrade_loop N (int p) (is_encoding s) s1 =
       Some (s\<lparr>is_encoding := e', is_contents := c\<rparr>) \<and>
     length c = (N + 1) * w' \<and> (\<forall>j < N. elem_at w' c (j + p) = xs ! j)"
proof -
  define w where "w = enc_width (is_encoding s)"
  have shape: "intset_shape s" using wf by (simp add: intset_wf_def)
  then have enc: "is_encoding s \<in> {INTSET_ENC_INT16, INTSET_ENC_INT32, INTSET_ENC_INT64}"
    and c: "length (is_contents s) = N * w" by (auto simp: intset_shape_def N_def w_def)
  have ww: "w < w'" using enc_width_less [OF enc enc'] by (simp add: w_def w'_def)
  have sz: "unat ((is_length s + 1) * e') = (N + 1) * w'"
    using resize_size [OF enc'(1), of "is_length s + 1"] room room_length [OF room]
    by (simp add: intset_room_def N_def w'_def)
  have s1: "is_encoding s1 = e'" "length (is_contents s1) = (N + 1) * w'"
    "\<And>c. s1\<lparr>is_contents := c\<rparr> = s\<lparr>is_encoding := e', is_contents := c\<rparr>"
    by (simp_all add: s1_def intsetResize_def Let_def sz)
  have Nw: "N * w \<le> (N + 1) * w'" using ww by (intro mult_le_mono) auto
  have old: "elem_at w (is_contents s1) j = xs ! j" if "j < N" for j
    using elem_realloc [of j w "is_contents s" "(N + 1) * w'" junk] index_fits [OF that, of w] c Nw that
    by (simp add: s1_def intsetResize_def Let_def sz xs_def intset_elems_def N_def w_def)
  have "fits w' (xs ! j)" if "j < N" for j
    using intset_elems_fits [OF shape, of "xs ! j"] fits_mono [of w "xs ! j" w'] ww that
    by (simp add: xs_def w_def N_def)
  with old have "\<exists>c. intsetUpgrade_loop N (int p) (is_encoding s) s1 = Some (s1\<lparr>is_contents := c\<rparr>) \<and>
     length c = (N + 1) * w' \<and> (\<forall>j < N. elem_at w' c (j + p) = xs ! j)"
    using s1 ww p by (intro intsetUpgrade_loop_correct [of s1 w' "is_encoding s" w N N p xs])
      (auto simp: w_def w'_def)
  then show ?thesis by (simp only: s1(3))
qed

lemma intsetUpgradeAndAdd_correct:
  assumes wf: "intset_wf s" and room: "intset_room s" and v64: "int64 v"
    and up: "intsetValueEncoding v > is_encoding s"
  defines "xs \<equiv> intset_elems s"
  shows "\<exists>s'. intsetUpgradeAndAdd junk s v = Some s' \<and> intset_wf s' \<and>
     intset_elems s' = (if v < 0 then v # xs else xs @ [v]) \<and> v \<notin> set xs"
proof -
  define e' where "e' = intsetValueEncoding v"
  define N where "N = unat (is_length s)"
  define p :: nat where "p = (if v < 0 then 1 else 0)"
  define i where "i = (if v < 0 then 0 else N)"
  define ys where "ys = (if v < 0 then v # xs else xs @ [v])"
  have shape: "intset_shape s" and sd: "sorted_wrt (<) xs" using wf by (auto simp: intset_wf_def xs_def)
  have enc: "is_encoding s \<in> {INTSET_ENC_INT16, INTSET_ENC_INT32, INTSET_ENC_INT64}"
    using shape by (simp add: intset_shape_def)
  have enc': "e' \<in> {INTSET_ENC_INT16, INTSET_ENC_INT32, INTSET_ENC_INT64}" "is_encoding s < e'"
    using valueEncoding_cases up by (auto simp: e'_def)
  have nofit: "\<not> fits (enc_width (is_encoding s)) v" using valueEncoding_fits [OF v64 enc] up by (metis not_le)
  then have out: "x \<in> set xs \<Longrightarrow> (if v < 0 then v < x else x < v)" for x
    using intset_elems_fits [OF shape, of x] unfolding fits_def xs_def by force
  have lenxs: "length xs = N" by (simp add: xs_def N_def)
  have "p \<le> 1" by (simp add: p_def)
  from intsetUpgrade_relocates [OF wf room this enc', of junk] obtain c where
    loop: "intsetUpgrade_loop N (int p) (is_encoding s)
        (intsetResize junk (s\<lparr>is_encoding := e'\<rparr>) (is_length s + 1)) =
        Some (s\<lparr>is_encoding := e', is_contents := c\<rparr>)"
    and c: "length c = (N + 1) * enc_width e'" "\<forall>j < N. elem_at (enc_width e') c (j + p) = xs ! j"
    by (auto simp: N_def xs_def)
  let ?t = "s\<lparr>is_encoding := e', is_contents := c\<rparr>"
  have "\<exists>t'. intsetSet ?t (int i) v = Some t' \<and> is_length t' = is_length ?t \<and>
     intset_wf (t'\<lparr>is_length := is_length ?t + 1\<rparr>) \<and>
     intset_elems (t'\<lparr>is_length := is_length ?t + 1\<rparr>) = ys"
  proof (rule intsetSet_grow [of ?t N "enc_width e'"])
    show "fits (enc_width e') v" using valueEncoding_fits [OF v64 enc'(1)] by (simp add: e'_def)
    show "sorted_wrt (<) ys" using sd out by (auto simp: ys_def sorted_wrt_append split: if_splits)
    show "elem_at (enc_width e') (is_contents ?t) j = ys ! j" if "j < N + 1" "j \<noteq> i" for j
      using c(2) that lenxs by (cases j) (auto simp: ys_def i_def p_def nth_append split: if_splits)
  qed (use enc' c lenxs room in \<open>auto simp: ys_def i_def N_def intset_room_def nth_append\<close>)
  moreover have "sint (is_length s) = int N" using small_len(1) [OF shape] by (simp add: N_def)
  ultimately show ?thesis
    using loop out [of v] unfolding intsetUpgradeAndAdd_def Let_def e'_def [symmetric]
    by (auto simp: i_def p_def ys_def split: if_splits)
qed

section \<open>Insertion and removal\<close>

lemma intsetMoveTail_Some:
  assumes enc: "is_encoding s \<in> {INTSET_ENC_INT16, INTSET_ENC_INT32, INTSET_ENC_INT64}"
    and N: "unat (is_length s) = N" "N * 8 < 2 ^ 32" and f: "unat from \<le> N"
    and t: "unat to' + (N - unat from) \<le> M" "N \<le> M"
    and len: "length (is_contents s) = M * w" and w: "w = enc_width (is_encoding s)"
  shows "\<exists>c. intsetMoveTail s from to' = Some (s\<lparr>is_contents := c\<rparr>) \<and> length c = M * w \<and>
     (\<forall>j < M. elem_at w c j = elem_at w (is_contents s)
        (if unat to' \<le> j \<and> j < unat to' + (N - unat from) then unat from + (j - unat to') else j))"
proof -
  have d: "unat (is_length s - from) = N - unat from"
    using f N by (simp add: unat_sub word_le_nat_alt)
  have "(N - unat from) * w \<le> N * 8" using enc_width_le w by (intro mult_le_mono) auto
  then have "(N - unat from) * w < 2 ^ 32" using N(2) by (rule le_less_trans)
  moreover have "unat (of_nat w :: u32) = w" by (simp add: w enc_width_def)
  ultimately have b: "unat ((is_length s - from) * of_nat w) = (N - unat from) * w"
    using d by (simp add: unat_word_ariths)
  have "unat from + (N - unat from) \<le> M" using f t by linarith
  from elem_move [OF len t(1) this] obtain m' where
    mv: "mem_move (is_contents s) (unat to' * w) (unat from * w) ((N - unat from) * w) = Some m'"
    and m': "length m' = M * w" "\<forall>j < M. elem_at w m' j = elem_at w (is_contents s)
        (if unat to' \<le> j \<and> j < unat to' + (N - unat from) then unat from + (j - unat to') else j)"
    by blast
  have "intsetMoveTail s from to' = Some (s\<lparr>is_contents := m'\<rparr>)"
    unfolding intsetMoveTail_def Let_def w [symmetric] b mv by simp
  with m' show ?thesis by blast
qed

lemma nth_insert_at:
  assumes "p \<le> length xs" "j \<noteq> p" "j < length xs + 1"
  shows "(take p xs @ v # drop p xs) ! j = (if j < p then xs ! j else xs ! (j - 1))"
  using assms by (auto simp: nth_append nth_Cons' min_def)

lemma insert_at_sorted:
  assumes "sorted_wrt (<) xs" "splits_at xs v p p" "p \<le> length xs"
  shows "sorted_wrt (<) (take p xs @ v # drop p xs)"
proof -
  have "x < v" if "x \<in> set (take p xs)" for x
    using that assms by (auto simp: in_set_conv_nth splits_at_def)
  moreover have "v < x" if "x \<in> set (drop p xs)" for x
    using that assms by (auto simp: in_set_conv_nth splits_at_def)
  ultimately show ?thesis
    using assms(1) sorted_wrt_append [of "(<)" "take p xs" "drop p xs"]
    by (fastforce simp: sorted_wrt_append)
qed

lemma intsetAdd_insert:
  assumes wf: "intset_wf s" and room: "intset_room s" and v: "fits (enc_width (is_encoding s)) v"
    and p: "unat pos \<le> unat (is_length s)" "splits_at (intset_elems s) v (unat pos) (unat pos)"
  defines "xs \<equiv> intset_elems s"
  shows "\<exists>s'. do {
             s1 \<leftarrow> Some (intsetResize junk s (is_length s + 1));
             s2 \<leftarrow> (if pos < is_length s1 then intsetMoveTail s1 pos (pos + 1) else Some s1);
             s3 \<leftarrow> intsetSet s2 (sint pos) v;
             Some (s3\<lparr>is_length := is_length s3 + 1\<rparr>, True)
           } = Some (s', True) \<and> intset_wf s' \<and>
         intset_elems s' = take (unat pos) xs @ v # drop (unat pos) xs"
proof -
  define w where "w = enc_width (is_encoding s)"
  define N where "N = unat (is_length s)"
  define s1 where "s1 = intsetResize junk s (is_length s + 1)"
  have shape: "intset_shape s" and sd: "sorted_wrt (<) xs" using wf by (auto simp: intset_wf_def xs_def)
  then have enc: "is_encoding s \<in> {INTSET_ENC_INT16, INTSET_ENC_INT32, INTSET_ENC_INT64}"
    and c: "length (is_contents s) = N * w" by (auto simp: intset_shape_def N_def w_def)
  have lenxs: "length xs = N" by (simp add: xs_def N_def)
  have N8: "(N + 1) * 8 < 2 ^ 32" using room by (simp add: intset_room_def N_def)
  have sz: "unat ((is_length s + 1) * is_encoding s) = (N + 1) * w"
    using resize_size [OF enc, of "is_length s + 1"] room_length [OF room] N8 by (simp add: N_def w_def)
  have s1: "is_encoding s1 = is_encoding s" "is_length s1 = is_length s" "length (is_contents s1) = (N + 1) * w"
    by (simp_all add: s1_def intsetResize_def Let_def sz)
  have el1: "elem_at w (is_contents s1) j = xs ! j" if "j < N" for j
    using elem_realloc [of j w "is_contents s" "(N + 1) * w" junk] index_fits [OF that, of w] c that
    by (simp add: s1_def intsetResize_def Let_def sz xs_def intset_elems_def N_def w_def)
  have "\<exists>c2. (if pos < is_length s1 then intsetMoveTail s1 pos (pos + 1) else Some s1) =
       Some (s1\<lparr>is_contents := c2\<rparr>) \<and> length c2 = (N + 1) * w \<and>
       (\<forall>j < N + 1. j \<noteq> unat pos \<longrightarrow> elem_at w c2 j = (take (unat pos) xs @ v # drop (unat pos) xs) ! j)"
  proof (cases "pos < is_length s1")
    case True
    then have lt: "unat pos < N" using s1(2) by (simp add: N_def word_less_nat_alt)
    have pp: "unat (pos + 1) = unat pos + 1" using lt N8 by (simp add: unat_word_ariths)
    have "unat (pos + 1) + (N - unat pos) \<le> N + 1" using pp lt by linarith
    then obtain c2 where mv: "intsetMoveTail s1 pos (pos + 1) = Some (s1\<lparr>is_contents := c2\<rparr>)"
      and c2: "length c2 = (N + 1) * w" "\<And>j. j < N + 1 \<Longrightarrow> elem_at w c2 j = elem_at w (is_contents s1)
        (if unat (pos + 1) \<le> j \<and> j < unat (pos + 1) + (N - unat pos)
         then unat pos + (j - unat (pos + 1)) else j)"
      using intsetMoveTail_Some [of s1 N pos "pos + 1" "N + 1" w] s1 enc N8 lt
      by (auto simp: N_def w_def)
    have "elem_at w c2 j = (take (unat pos) xs @ v # drop (unat pos) xs) ! j"
      if "j < N + 1" "j \<noteq> unat pos" for j
      using that c2(2) [OF that(1)] el1 [of j] el1 [of "j - 1"] lt
        nth_insert_at [of "unat pos" xs j v] lenxs pp by (cases "j < unat pos") auto
    then show ?thesis using mv c2(1) True by auto
  next
    case False
    then have "unat pos = N" using s1(2) p(1) by (simp add: N_def word_less_nat_alt)
    then show ?thesis using False el1 s1
      by (intro exI [of _ "is_contents s1"]) (auto simp: nth_append xs_def N_def)
  qed
  then obtain c2 where mv: "(if pos < is_length s1 then intsetMoveTail s1 pos (pos + 1) else Some s1) =
       Some (s1\<lparr>is_contents := c2\<rparr>)" and c2: "length c2 = (N + 1) * w"
      "\<forall>j < N + 1. j \<noteq> unat pos \<longrightarrow> elem_at w c2 j = (take (unat pos) xs @ v # drop (unat pos) xs) ! j"
    by auto
  have sp: "sint pos = int (unat pos)" using p(1) N8 by (intro sint_small32) (simp add: N_def)
  have "\<exists>t. intsetSet (s1\<lparr>is_contents := c2\<rparr>) (int (unat pos)) v = Some t \<and>
     is_length t = is_length (s1\<lparr>is_contents := c2\<rparr>) \<and>
     intset_wf (t\<lparr>is_length := is_length (s1\<lparr>is_contents := c2\<rparr>) + 1\<rparr>) \<and>
     intset_elems (t\<lparr>is_length := is_length (s1\<lparr>is_contents := c2\<rparr>) + 1\<rparr>) =
       take (unat pos) xs @ v # drop (unat pos) xs"
    using s1 enc N8 v p c2 insert_at_sorted [OF sd, of v "unat pos"]
    by (intro intsetSet_grow [of _ N w]) (auto simp: N_def w_def xs_def nth_append)
  then show ?thesis unfolding s1_def [symmetric] by (auto simp: mv sp)
qed

lemma intsetAdd_correct:
  assumes "intset_wf s" "intset_room s" "int64 v"
  shows "\<exists>s'. intsetAdd junk s v = Some (s', v \<notin> set (intset_elems s)) \<and> intset_wf s' \<and>
     set (intset_elems s') = insert v (set (intset_elems s))"
proof (cases "intsetValueEncoding v > is_encoding s")
  case True
  with intsetUpgradeAndAdd_correct [OF assms True, of junk] show ?thesis
    by (auto simp: intsetAdd_def split: if_splits)
next
  case False
  let ?xs = "intset_elems s"
  have "is_encoding s \<in> {INTSET_ENC_INT16, INTSET_ENC_INT32, INTSET_ENC_INT64}"
    using assms(1) by (simp add: intset_wf_def intset_shape_def)
  with False have v: "fits (enc_width (is_encoding s)) v"
    using valueEncoding_fits [OF assms(3)] by (simp add: not_less)
  obtain pos where search: "intsetSearch s v = Some (v \<in> set ?xs, pos)"
    and pos: "v \<notin> set ?xs \<longrightarrow> unat pos \<le> length ?xs \<and> splits_at ?xs v (unat pos) (unat pos)"
    using intsetSearch_correct [OF assms(1), of v] by (auto split: if_splits)
  show ?thesis
  proof (cases "v \<in> set ?xs")
    case True
    then show ?thesis using False search assms(1) by (auto simp: intsetAdd_def insert_absorb)
  next
    case notin: False
    have "set ?xs = set (take (unat pos) ?xs) \<union> set (drop (unat pos) ?xs)"
      by (metis append_take_drop_id set_append)
    with intsetAdd_insert [OF assms(1,2) v, of pos junk] pos notin show ?thesis
      using False search by (auto simp: intsetAdd_def)
  qed
qed

lemma nth_delete_at:
  assumes "p < length xs" "j < length xs - 1"
  shows "(take p xs @ drop (p + 1) xs) ! j = (if j < p then xs ! j else xs ! (j + 1))"
  using assms by (auto simp: nth_append min_def)

lemma delete_at_sorted:
  assumes "sorted_wrt (<) xs" "p < length (xs :: int list)"
  shows "sorted_wrt (<) (take p xs @ drop (p + 1) xs)"
    and "set (take p xs @ drop (p + 1) xs) = set xs - {xs ! p}"
proof -
  have e: "xs = take p xs @ xs ! p # drop (p + 1) xs" using assms(2) by (simp add: id_take_nth_drop)
  with assms(1) have s: "sorted_wrt (<) (take p xs @ xs ! p # drop (p + 1) xs)" by simp
  then show "sorted_wrt (<) (take p xs @ drop (p + 1) xs)" by (auto simp: sorted_wrt_append)
  have "set xs = set (take p xs @ xs ! p # drop (p + 1) xs)" using e by simp
  with s show "set (take p xs @ drop (p + 1) xs) = set xs - {xs ! p}"
    by (force simp: sorted_wrt_append)
qed

lemma intsetRemove_moves:
  assumes shape: "intset_shape s" and p: "unat pos < unat (is_length s)"
  defines "xs \<equiv> intset_elems s" and "N \<equiv> unat (is_length s)"
    and "w \<equiv> enc_width (is_encoding s)"
  shows "\<exists>c. (if pos < is_length s - 1 then intsetMoveTail s (pos + 1) pos else Some s) =
       Some (s\<lparr>is_contents := c\<rparr>) \<and> length c = N * w \<and>
     (\<forall>j < N - 1. elem_at w c j = (take (unat pos) xs @ drop (unat pos + 1) xs) ! j)"
proof -
  have N1: "unat (is_length s - 1) = N - 1" using p by (simp add: N_def unat_sub word_le_nat_alt)
  have c: "length (is_contents s) = N * w" and N8: "N * 8 < 2 ^ 32"
    using shape by (auto simp: intset_shape_def N_def w_def)
  have lenxs: "length xs = N" by (simp add: xs_def N_def)
  have el: "elem_at w (is_contents s) j = xs ! j" if "j < N" for j
    using that by (simp add: xs_def intset_elems_def N_def w_def)
  show ?thesis
  proof (cases "pos < is_length s - 1")
    case True
    then have lt: "unat pos < N - 1" using N1 by (simp add: word_less_nat_alt)
    have pp: "unat (pos + 1) = unat pos + 1" using lt N8 by (simp add: unat_word_ariths)
    have "unat (pos + 1) \<le> N" "unat pos + (N - unat (pos + 1)) \<le> N" using pp lt by linarith+
    then obtain c2 where mv: "intsetMoveTail s (pos + 1) pos = Some (s\<lparr>is_contents := c2\<rparr>)"
      and c2: "length c2 = N * w" "\<And>j. j < N \<Longrightarrow> elem_at w c2 j = elem_at w (is_contents s)
        (if unat pos \<le> j \<and> j < unat pos + (N - unat (pos + 1))
         then unat (pos + 1) + (j - unat pos) else j)"
      using intsetMoveTail_Some [of s N "pos + 1" pos N w] shape N8 c
      by (auto simp: N_def w_def intset_shape_def)
    have "elem_at w c2 j = (take (unat pos) xs @ drop (unat pos + 1) xs) ! j" if "j < N - 1" for j
      using that c2(2) [of j] el [of j] el [of "j + 1"] lt
        nth_delete_at [of "unat pos" xs j] lenxs pp by (cases "j < unat pos") auto
    then show ?thesis using mv c2(1) True by auto
  next
    case False
    then have "unat pos = N - 1" using N1 p by (simp add: word_less_nat_alt N_def)
    then show ?thesis using False el c lenxs p nth_delete_at [of "unat pos" xs]
      by (intro exI [of _ "is_contents s"]) (auto simp: N_def)
  qed
qed

lemma intsetRemove_correct:
  assumes wf: "intset_wf s" and v64: "int64 v"
  shows "\<exists>s'. intsetRemove junk s v = Some (s', v \<in> set (intset_elems s)) \<and> intset_wf s' \<and>
     set (intset_elems s') = set (intset_elems s) - {v}"
proof -
  let ?xs = "intset_elems s"
  define w where "w = enc_width (is_encoding s)"
  define N where "N = unat (is_length s)"
  have shape: "intset_shape s" and sd: "sorted_wrt (<) ?xs" using wf by (auto simp: intset_wf_def)
  then have enc: "is_encoding s \<in> {INTSET_ENC_INT16, INTSET_ENC_INT32, INTSET_ENC_INT64}"
    and c: "length (is_contents s) = N * w" and N8: "N * 8 < 2 ^ 32"
    by (auto simp: intset_shape_def N_def w_def)
  obtain pos where search: "intsetSearch s v = Some (v \<in> set ?xs, pos)"
    and pos: "v \<in> set ?xs \<longrightarrow> unat pos < N \<and> ?xs ! unat pos = v"
    using intsetSearch_correct [OF wf, of v] by (auto simp: N_def split: if_splits)
  show ?thesis
  proof (cases "v \<in> set ?xs")
    case False
    then show ?thesis using search wf by (auto simp: intsetRemove_def)
  next
    case True
    with pos have p: "unat pos < N" "?xs ! unat pos = v" by auto
    have "fits w v" using intset_elems_fits [OF shape True] by (simp add: w_def)
    then have le: "intsetValueEncoding v \<le> is_encoding s"
      using valueEncoding_fits [OF v64 enc] by (simp add: w_def)
    define ys where "ys = take (unat pos) ?xs @ drop (unat pos + 1) ?xs"
    have N1: "unat (is_length s - 1) = N - 1" using p by (simp add: N_def unat_sub word_le_nat_alt)
    from intsetRemove_moves [OF shape p(1) [unfolded N_def]] obtain c2 where
      mv: "(if pos < is_length s - 1 then intsetMoveTail s (pos + 1) pos else Some s) =
        Some (s\<lparr>is_contents := c2\<rparr>)"
      and c2: "length c2 = N * w" "\<And>j. j < N - 1 \<Longrightarrow> elem_at w c2 j = ys ! j"
      by (auto simp: N_def w_def ys_def)
    define s' where "s' = (intsetResize junk (s\<lparr>is_contents := c2\<rparr>) (is_length s - 1))
        \<lparr>is_length := is_length s - 1\<rparr>"
    have sz: "unat ((is_length s - 1) * is_encoding s) = (N - 1) * w"
      using resize_size [OF enc, of "is_length s - 1"] N1 N8 by (simp add: w_def)
    have ly: "length ys = N - 1" using p(1) by (simp add: ys_def N_def)
    have "intset_wf s' \<and> intset_elems s' = ys"
    proof (rule intset_wfI)
      fix j assume "j < length ys"
      then have j: "j < N - 1" using ly by simp
      have "elem_at w (mem_realloc junk c2 ((N - 1) * w)) j = elem_at w c2 j"
        using c2(1) index_fits [OF j, of w] by (intro elem_shrink) auto
      then show "elem_at (enc_width (is_encoding s')) (is_contents s') j = ys ! j"
        using c2(2) [OF j] by (simp add: s'_def intsetResize_def Let_def sz w_def)
    qed (use enc ly N1 N8 sz delete_at_sorted(1) [OF sd] p in
        \<open>auto simp: s'_def intsetResize_def Let_def ys_def N_def w_def\<close>)
    moreover have "intsetRemove junk s v = Some (s', True)"
      using le search True mv by (simp add: intsetRemove_def s'_def)
    ultimately show ?thesis
      using delete_at_sorted(2) [OF sd, of "unat pos"] p True by (auto simp: ys_def N_def)
  qed
qed

lemma intsetFind_correct:
  assumes wf: "intset_wf s" and v64: "int64 v"
  shows "intsetFind s v = Some (v \<in> set (intset_elems s))"
proof -
  have shape: "intset_shape s" using wf by (simp add: intset_wf_def)
  then have enc: "is_encoding s \<in> {INTSET_ENC_INT16, INTSET_ENC_INT32, INTSET_ENC_INT64}"
    by (simp add: intset_shape_def)
  have "v \<in> set (intset_elems s) \<Longrightarrow> intsetValueEncoding v \<le> is_encoding s"
    using valueEncoding_fits [OF v64 enc] intset_elems_fits [OF shape] by blast
  with intsetSearch_correct [OF wf, of v] show ?thesis by (auto simp: intsetFind_def)
qed

lemma intsetGet_correct:
  assumes "intset_wf s"
  shows "intsetGet s pos =
     Some (if unat pos < length (intset_elems s) then Some (intset_elems s ! unat pos) else None)"
proof -
  have shape: "intset_shape s" using assms by (simp add: intset_wf_def)
  show ?thesis
  proof (cases "pos < is_length s")
    case True
    then have p: "unat pos < unat (is_length s)" by (simp add: word_less_nat_alt)
    with shape have "sint pos = int (unat pos)" by (intro sint_small32) (simp add: intset_shape_def)
    then show ?thesis using intsetGetPos_Some [OF shape p] True p by (simp add: intsetGet_def)
  next
    case False
    then show ?thesis by (simp add: intsetGet_def word_less_nat_alt)
  qed
qed

lemma intsetRandom_correct:
  assumes "intset_wf s" "is_length s \<noteq> 0"
  shows "\<exists>x \<in> set (intset_elems s). intsetRandom r s = Some x"
proof -
  have shape: "intset_shape s" using assms by (simp add: intset_wf_def)
  let ?i = "of_nat r mod is_length s :: u32"
  have i: "unat ?i < unat (is_length s)"
    using assms(2) by (simp add: unat_mod unat_gt_0)
  with shape have "sint ?i = int (unat ?i)" by (intro sint_small32) (simp add: intset_shape_def)
  then have "intsetRandom r s = Some (intset_elems s ! unat ?i)"
    using intsetGetPos_Some [OF shape i] assms(2) by (simp add: intsetRandom_def)
  moreover have "intset_elems s ! unat ?i \<in> set (intset_elems s)" using i by (intro nth_mem) simp
  ultimately show ?thesis by blast
qed

lemma intsetNew_wf: "intset_wf intsetNew" "intset_elems intsetNew = []"
  by (simp_all add: intset_wf_def intset_shape_def intsetNew_def intset_elems_def)

lemma intsetBlobLen_correct:
  assumes "intset_wf s"
  shows "intsetBlobLen s = 8 + length (is_contents s)"
  using assms resize_size [of "is_encoding s" "is_length s"]
  by (simp add: intset_wf_def intset_shape_def intsetBlobLen_def)

section \<open>An empty block: lemmas\<close>

lemma intsetMoveTail_empty:
  assumes "is_contents s = []" "pos < is_length s" "unat (is_length s) < 2 ^ 29"
  shows "intsetMoveTail s pos q = None"
proof -
  let ?w = "enc_width (is_encoding s)"
  have k: "unat (is_length s - pos) = unat (is_length s) - unat pos" "unat pos < unat (is_length s)"
    using assms(2) by (simp_all add: unat_sub word_less_nat_alt less_imp_le)
  then have "unat (is_length s - pos) * ?w < 2 ^ 32" "0 < unat (is_length s - pos) * ?w"
    using assms(3) by (auto simp: enc_width_def)
  moreover from this have "unat ((is_length s - pos) * of_nat ?w) = unat (is_length s - pos) * ?w"
    by (auto simp: unat_word_ariths enc_width_def)
  ultimately show ?thesis using assms(1) enc_width_pos [of "is_encoding s"]
    by (simp add: intsetMoveTail_def Let_def mem_move_def mem_read_def del: enc_width_pos)
qed

lemma intsetSet_empty: "is_contents s = [] \<Longrightarrow> intsetSet s pos v = None"
  by (simp add: intsetSet_def mem_write_def Let_def enc_width_def)

section \<open>Properties\<close>

text \<open>A set with the elements 1 and 5, for the witnesses.\<close>

definition intset_ex :: intset where
  "intset_ex = \<lparr>is_encoding = INTSET_ENC_INT16, is_length = 2, is_contents = [1, 0, 5, 0]\<rparr>"

lemma intset_ex_elems: "intset_elems intset_ex = [1, 5]"
  by code_simp

lemma intset_ex_wf: "intset_wf intset_ex" "intset_room intset_ex"
  by (simp_all add: intset_wf_def intset_ex_elems, simp_all add: intset_shape_def intset_ex_def
      enc_width_def enc_defs intset_room_def)

text \<open>C10. Adding a value to a well-formed set with room for it never touches memory outside the
  block, widens the encoding when the value needs it, keeps the array sorted, reports success
  exactly when the value was new, and adds just that value.\<close>

theorem intsetAdd_inserts:
  assumes "intset_wf s" "intset_room s" "int64 v"
  shows "\<exists>s'. intsetAdd junk s v = Some (s', v \<notin> set (intset_elems s)) \<and> intset_wf s' \<and>
     set (intset_elems s') = insert v (set (intset_elems s))"
  using assms by (rule intsetAdd_correct)

theorem intsetAdd_inserts_witness:
  "\<exists>s'. intsetAdd (\<lambda>_. 7) intset_ex (- 70000) = Some (s', True) \<and> intset_wf s' \<and>
     set (intset_elems s') = {- 70000, 1, 5}"
proof -
  have "int64 (- 70000)" by (simp add: int64_def)
  from intsetAdd_inserts [OF intset_ex_wf this, of "\<lambda>_. 7"] show ?thesis
    by (simp add: intset_ex_elems)
qed

text \<open>C11. Removing a value from a well-formed set never touches memory outside the block, reports
  success exactly when the value was a member, and removes just that value.\<close>

theorem intsetRemove_deletes:
  assumes "intset_wf s" "int64 v"
  shows "\<exists>s'. intsetRemove junk s v = Some (s', v \<in> set (intset_elems s)) \<and> intset_wf s' \<and>
     set (intset_elems s') = set (intset_elems s) - {v}"
  using assms by (rule intsetRemove_correct)

theorem intsetRemove_deletes_witness:
  "\<exists>s'. intsetRemove (\<lambda>_. 7) intset_ex 1 = Some (s', True) \<and> intset_wf s' \<and>
     set (intset_elems s') = {5}"
proof -
  have "int64 1" by (simp add: int64_def)
  from intsetRemove_deletes [OF intset_ex_wf(1) this, of "\<lambda>_. 7"] show ?thesis
    by (simp add: intset_ex_elems)
qed

text \<open>C26. Lookup by binary search, positional access and random choice agree with the sorted list
  of elements: \<open>intsetFind\<close> decides membership, \<open>intsetGet\<close> returns the element at a
  position or reports that it is out of range, and \<open>intsetRandom\<close> returns a member.\<close>

theorem intset_queries:
  assumes "intset_wf s" "int64 v"
  shows "intsetFind s v = Some (v \<in> set (intset_elems s)) \<and>
     intsetGet s pos = Some (if unat pos < length (intset_elems s)
           then Some (intset_elems s ! unat pos) else None) \<and>
     (is_length s \<noteq> 0 \<longrightarrow> (\<exists>x \<in> set (intset_elems s). intsetRandom r s = Some x))"
  using assms by (simp add: intsetFind_correct intsetGet_correct intsetRandom_correct)

theorem intset_queries_witness:
  "intsetFind intset_ex 5 = Some True \<and> intsetGet intset_ex 1 = Some (Some 5) \<and>
   intsetFind intset_ex 4 = Some False \<and> intsetGet intset_ex 2 = Some None \<and>
   (\<exists>x \<in> {1, 5}. intsetRandom 11 intset_ex = Some x)"
proof -
  have v: "int64 5" "int64 4" by (simp_all add: int64_def)
  have "is_length intset_ex \<noteq> 0" by (simp add: intset_ex_def)
  then show ?thesis
    using intset_queries [OF intset_ex_wf(1) v(1), of 1 11] intset_queries [OF intset_ex_wf(1) v(2), of 2 11]
    by (simp add: intset_ex_elems)
qed

text \<open>C35. The size handed to \<open>zrealloc\<close> is computed in 32 bits, so the block it returns has the
  requested number of bytes only modulo \<open>2 ^ 32\<close>. A full set, with \<open>2 ^ 29 - 1\<close> elements of 8 bytes,
  gets a block of no bytes when it is enlarged, and adding any value that is not yet a member then
  accesses memory outside the block: the room condition of the insertion theorem cannot be dropped.\<close>

theorem intsetResize_wraps:
  assumes "intset_wf s" "is_encoding s = INTSET_ENC_INT64" "unat (is_length s) = 2 ^ 29 - 1"
    and "int64 v" "v \<notin> set (intset_elems s)"
  shows "length (is_contents (intsetResize junk s n)) = unat n * 8 mod 2 ^ 32 \<and>
    is_contents (intsetResize junk s (is_length s + 1)) = [] \<and> intsetAdd junk s v = None"
proof -
  have len: "length (is_contents (intsetResize junk s n)) = unat n * 8 mod 2 ^ 32" for n
    using assms(2) by (simp add: intsetResize_def enc_defs unat_word_ariths)
  have "unat (is_length s + 1) = 2 ^ 29" using assms(3) by (simp add: unat_word_ariths)
  then have e: "is_contents (intsetResize junk s (is_length s + 1)) = []" using len [of "is_length s + 1"] by simp
  obtain pos where pos: "intsetSearch s v = Some (False, pos)" "unat pos \<le> unat (is_length s)"
    using intsetSearch_correct [OF assms(1), of v] assms(5) by auto
  have "\<not> unat (is_encoding s) < unat (intsetValueEncoding v)"
    using assms(2) by (simp add: intsetValueEncoding_def enc_defs)
  then have "intsetAdd junk s v = None"
    using pos(1) intsetMoveTail_empty [OF e, of pos] intsetSet_empty [OF e, of "sint pos" v] assms(2,3)
    by (simp add: intsetAdd_def intsetResize_def Let_def word_less_nat_alt)
  then show ?thesis using len e by blast
qed

text \<open>The set of the numbers below \<open>n\<close>, with 8 bytes each.\<close>

definition intset_upto :: "nat \<Rightarrow> intset" where
  "intset_upto n = \<lparr>is_encoding = INTSET_ENC_INT64, is_length = of_nat n,
     is_contents = concat (map (\<lambda>i. bytes_of_int 8 (int i)) [0..<n])\<rparr>"

lemma length_upto: "length (concat (map (\<lambda>i. bytes_of_int 8 (int i)) [0..<n])) = n * 8"
  by (induction n) simp_all

lemma elem_upto: "i < n \<Longrightarrow> elem_at 8 (concat (map (\<lambda>i. bytes_of_int 8 (int i)) [0..<n])) i = sint_of_bytes (bytes_of_int 8 (int i))"
proof (induction n)
  case (Suc n)
  show ?case
  proof (cases "i < n")
    case True
    then have "i * 8 + 8 \<le> n * 8" by simp
    then show ?thesis using Suc.IH [OF True] by (simp add: elem_at_def block_def length_upto)
  next
    case False
    then have "i = n" using Suc.prems by simp
    then show ?thesis by (simp add: elem_at_def block_def length_upto)
  qed
qed simp

lemma intset_upto_wf:
  assumes "n < 2 ^ 29"
  shows "intset_wf (intset_upto n)" "intset_elems (intset_upto n) = map int [0..<n]"
    "unat (is_length (intset_upto n)) = n" "is_encoding (intset_upto n) = INTSET_ENC_INT64"
proof -
  show l: "unat (is_length (intset_upto n)) = n"
    using assms by (simp add: intset_upto_def unat_of_nat take_bit_nat_eq_self)
  show e: "is_encoding (intset_upto n) = INTSET_ENC_INT64" by (simp add: intset_upto_def)
  have w: "enc_width INTSET_ENC_INT64 = 8" by (simp add: enc_width_def)
  have "elem_at 8 (is_contents (intset_upto n)) i = int i" if "i < n" for i
  proof -
    have "fits 8 (int i)" using that assms by (simp add: fits_def)
    then show ?thesis using that by (simp add: intset_upto_def elem_upto sint_of_bytes_of_int fits_def)
  qed
  then show el: "intset_elems (intset_upto n) = map int [0..<n]" by (simp add: intset_elems_def l e w)
  show "intset_wf (intset_upto n)"
    using assms unfolding intset_wf_def intset_shape_def el l e w
    by (simp add: intset_upto_def length_upto sorted_wrt_map)
qed

theorem intsetResize_wraps_witness:
  "intset_wf (intset_upto (2 ^ 29 - 1)) \<and> intsetAdd (\<lambda>_. 0) (intset_upto (2 ^ 29 - 1)) (- 1) = None"
proof -
  have n: "(2 ^ 29 - 1 :: nat) < 2 ^ 29" by simp
  have "int64 (- 1)" by (simp add: int64_def)
  moreover have "- 1 \<notin> set (map int [0..<n])" for n by auto
  ultimately show ?thesis
    using intsetResize_wraps [OF intset_upto_wf(1,4,3) [OF n], of "- 1" "\<lambda>_. 0"] intset_upto_wf(1,2) [OF n]
    by metis
qed

end
