(* ===== verification/Adlist.thy ===== *)
theory Adlist
  imports Prelude
begin

text \<open>
  The doubly linked list of \<open>src/redis-stable/src/adlist.c\<close>. Nodes live in an explicit
  heap, a partial map from addresses to \<open>listNode\<close> structs, and every dereference of a
  pointer is checked. \<open>zmalloc\<close> is a bump allocator: it never returns \<open>NULL\<close>,
  because the allocator of \<open>zmalloc.c\<close> aborts when memory is exhausted. The lemmas relate
  each operation to the list of node addresses that the pointers spell out in both directions.
\<close>

section \<open>Data\<close>

type_synonym ptr = "nat option"

record 'v listNode =
  ln_prev :: ptr
  ln_next :: ptr
  ln_value :: 'v

text \<open>The heap of nodes; \<open>h_brk\<close> is the next fresh address and \<open>h_freed\<close> logs the
  values handed to the list's \<open>free\<close> method.\<close>

record 'v listHeap =
  h_nodes :: "nat \<rightharpoonup> 'v listNode"
  h_brk :: nat
  h_freed :: "'v list"

record 'v adlist =
  l_head :: ptr
  l_tail :: ptr
  l_dup :: "('v \<Rightarrow> 'v option) option"
  l_free :: bool
  l_match :: "('v \<Rightarrow> 'v \<Rightarrow> bool) option"
  l_len :: nat

datatype direction = AL_START_HEAD | AL_START_TAIL

record listIter =
  it_next :: ptr
  it_direction :: direction

section \<open>Heap accesses\<close>

definition node_at :: "'v listHeap \<Rightarrow> ptr \<Rightarrow> 'v listNode option" where
  "node_at h p = (case p of None \<Rightarrow> None | Some a \<Rightarrow> h_nodes h a)"

definition node_upd ::
  "'v listHeap \<Rightarrow> ptr \<Rightarrow> ('v listNode \<Rightarrow> 'v listNode) \<Rightarrow> 'v listHeap option" where
  "node_upd h p f = (case p of None \<Rightarrow> None
     | Some a \<Rightarrow> (case h_nodes h a of None \<Rightarrow> None
         | Some n \<Rightarrow> Some (h\<lparr>h_nodes := (h_nodes h)(a \<mapsto> f n)\<rparr>)))"

definition new_node :: "'v listHeap \<Rightarrow> 'v listNode \<Rightarrow> nat \<times> 'v listHeap" where
  "new_node h n =
     (h_brk h, h\<lparr>h_nodes := (h_nodes h)(h_brk h \<mapsto> n), h_brk := Suc (h_brk h)\<rparr>)"

definition free_node :: "'v listHeap \<Rightarrow> nat \<Rightarrow> 'v listHeap option" where
  "free_node h a = (case h_nodes h a of None \<Rightarrow> None
     | Some n \<Rightarrow> Some (h\<lparr>h_nodes := (h_nodes h)(a := None)\<rparr>))"

definition free_value :: "'v adlist \<Rightarrow> 'v \<Rightarrow> 'v listHeap \<Rightarrow> 'v listHeap" where
  "free_value l v h = (if l_free l then h\<lparr>h_freed := h_freed h @ [v]\<rparr> else h)"

section \<open>Operations\<close>

definition listCreate :: "'v adlist" where
  "listCreate = \<lparr>l_head = None, l_tail = None, l_dup = None, l_free = False, l_match = None, l_len = 0\<rparr>"

text \<open>\<open>while(len--)\<close> over the nodes from the head.\<close>

primrec listRelease_loop :: "nat \<Rightarrow> 'v adlist \<Rightarrow> ptr \<Rightarrow> 'v listHeap \<Rightarrow> 'v listHeap option" where
  "listRelease_loop 0 l current h = Some h"
| "listRelease_loop (Suc n) l current h = do {
     c \<leftarrow> node_at h current;
     h' \<leftarrow> free_node (free_value l (ln_value c) h) (the current);
     listRelease_loop n l (ln_next c) h'
   }"

definition listRelease :: "'v listHeap \<Rightarrow> 'v adlist \<Rightarrow> 'v listHeap option" where
  "listRelease h l = listRelease_loop (l_len l) l (l_head l) h"

definition listAddNodeHead ::
  "'v listHeap \<Rightarrow> 'v adlist \<Rightarrow> 'v \<Rightarrow> ('v listHeap \<times> 'v adlist) option" where
  "listAddNodeHead h l v =
     (if l_len l = 0 then
        (let (p, h1) = new_node h \<lparr>ln_prev = None, ln_next = None, ln_value = v\<rparr>
         in Some (h1, l\<lparr>l_head := Some p, l_tail := Some p, l_len := l_len l + 1\<rparr>))
      else
        (let (p, h1) = new_node h \<lparr>ln_prev = None, ln_next = l_head l, ln_value = v\<rparr>
         in do {
           h2 \<leftarrow> node_upd h1 (l_head l) (\<lambda>n. n\<lparr>ln_prev := Some p\<rparr>);
           Some (h2, l\<lparr>l_head := Some p, l_len := l_len l + 1\<rparr>)
         }))"

definition listAddNodeTail ::
  "'v listHeap \<Rightarrow> 'v adlist \<Rightarrow> 'v \<Rightarrow> ('v listHeap \<times> 'v adlist) option" where
  "listAddNodeTail h l v =
     (if l_len l = 0 then
        (let (p, h1) = new_node h \<lparr>ln_prev = None, ln_next = None, ln_value = v\<rparr>
         in Some (h1, l\<lparr>l_head := Some p, l_tail := Some p, l_len := l_len l + 1\<rparr>))
      else
        (let (p, h1) = new_node h \<lparr>ln_prev = l_tail l, ln_next = None, ln_value = v\<rparr>
         in do {
           h2 \<leftarrow> node_upd h1 (l_tail l) (\<lambda>n. n\<lparr>ln_next := Some p\<rparr>);
           Some (h2, l\<lparr>l_tail := Some p, l_len := l_len l + 1\<rparr>)
         }))"

definition listInsertNode ::
  "'v listHeap \<Rightarrow> 'v adlist \<Rightarrow> ptr \<Rightarrow> 'v \<Rightarrow> bool \<Rightarrow> ('v listHeap \<times> 'v adlist) option" where
  "listInsertNode h l old_node v after = do {
     old \<leftarrow> node_at h old_node;
     (let nprev = (if after then old_node else ln_prev old);
          nnext = (if after then ln_next old else old_node);
          (p, h1) = new_node h \<lparr>ln_prev = nprev, ln_next = nnext, ln_value = v\<rparr>;
          l1 = (if after then (if l_tail l = old_node then l\<lparr>l_tail := Some p\<rparr> else l)
                else (if l_head l = old_node then l\<lparr>l_head := Some p\<rparr> else l))
      in do {
        h2 \<leftarrow> (if nprev \<noteq> None then node_upd h1 nprev (\<lambda>n. n\<lparr>ln_next := Some p\<rparr>) else Some h1);
        h3 \<leftarrow> (if nnext \<noteq> None then node_upd h2 nnext (\<lambda>n. n\<lparr>ln_prev := Some p\<rparr>) else Some h2);
        Some (h3, l1\<lparr>l_len := l_len l1 + 1\<rparr>)
      })
   }"

text \<open>A list that holds a node has a positive length, so \<open>len--\<close> does not wrap.\<close>

definition listDelNode ::
  "'v listHeap \<Rightarrow> 'v adlist \<Rightarrow> ptr \<Rightarrow> ('v listHeap \<times> 'v adlist) option" where
  "listDelNode h l node = do {
     n \<leftarrow> node_at h node;
     (h1, l1) \<leftarrow> (if ln_prev n \<noteq> None
        then map_option (\<lambda>h1. (h1, l)) (node_upd h (ln_prev n) (\<lambda>m. m\<lparr>ln_next := ln_next n\<rparr>))
        else Some (h, l\<lparr>l_head := ln_next n\<rparr>));
     (h2, l2) \<leftarrow> (if ln_next n \<noteq> None
        then map_option (\<lambda>h2. (h2, l1)) (node_upd h1 (ln_next n) (\<lambda>m. m\<lparr>ln_prev := ln_prev n\<rparr>))
        else Some (h1, l1\<lparr>l_tail := ln_prev n\<rparr>));
     h3 \<leftarrow> free_node (free_value l2 (ln_value n) h2) (the node);
     Some (h3, l2\<lparr>l_len := l_len l2 - 1\<rparr>)
   }"

definition listGetIterator :: "'v adlist \<Rightarrow> direction \<Rightarrow> listIter" where
  "listGetIterator l d =
     \<lparr>it_next = (if d = AL_START_HEAD then l_head l else l_tail l), it_direction = d\<rparr>"

definition listRewind :: "'v adlist \<Rightarrow> listIter" where
  "listRewind l = \<lparr>it_next = l_head l, it_direction = AL_START_HEAD\<rparr>"

definition listRewindTail :: "'v adlist \<Rightarrow> listIter" where
  "listRewindTail l = \<lparr>it_next = l_tail l, it_direction = AL_START_TAIL\<rparr>"

definition listNext :: "'v listHeap \<Rightarrow> listIter \<Rightarrow> (ptr \<times> listIter) option" where
  "listNext h it =
     (case it_next it of
        None \<Rightarrow> Some (None, it)
      | Some a \<Rightarrow> do {
          n \<leftarrow> h_nodes h a;
          Some (Some a, it\<lparr>it_next := (if it_direction it = AL_START_HEAD then ln_next n else ln_prev n)\<rparr>)
        })"

text \<open>The copying loop of \<open>listDup\<close>; the list result is \<^term>\<open>None\<close> when the
  \<open>dup\<close> method returned \<open>NULL\<close> and the partial copy was released.\<close>

partial_function (option) listDup_loop ::
  "'v listHeap \<Rightarrow> 'v adlist \<Rightarrow> listIter \<Rightarrow> ('v listHeap \<times> 'v adlist option) option" where
  "listDup_loop h copy it = do {
     (node, it') \<leftarrow> listNext h it;
     (case node of
        None \<Rightarrow> Some (h, Some copy)
      | Some a \<Rightarrow> do {
          n \<leftarrow> h_nodes h a;
          (case (case l_dup copy of None \<Rightarrow> Some (ln_value n) | Some f \<Rightarrow> f (ln_value n)) of
             None \<Rightarrow> do { h' \<leftarrow> listRelease h copy; Some (h', None) }
           | Some v \<Rightarrow> do {
               (h', copy') \<leftarrow> listAddNodeTail h copy v;
               listDup_loop h' copy' it'
             })
        })
   }"

definition listDup :: "'v listHeap \<Rightarrow> 'v adlist \<Rightarrow> ('v listHeap \<times> 'v adlist option) option" where
  "listDup h orig =
     listDup_loop h (listCreate\<lparr>l_dup := l_dup orig, l_free := l_free orig, l_match := l_match orig\<rparr>)
       (listRewind orig)"

partial_function (option) listSearchKey_loop ::
  "'v listHeap \<Rightarrow> 'v adlist \<Rightarrow> 'v \<Rightarrow> listIter \<Rightarrow> ptr option" where
  "listSearchKey_loop h l key it = do {
     (node, it') \<leftarrow> listNext h it;
     (case node of
        None \<Rightarrow> Some None
      | Some a \<Rightarrow> do {
          n \<leftarrow> h_nodes h a;
          if (case l_match l of Some f \<Rightarrow> f (ln_value n) key | None \<Rightarrow> key = ln_value n)
          then Some (Some a)
          else listSearchKey_loop h l key it'
        })
   }"

definition listSearchKey :: "'v listHeap \<Rightarrow> 'v adlist \<Rightarrow> 'v \<Rightarrow> ptr option" where
  "listSearchKey h l key = listSearchKey_loop h l key (listRewind l)"

primrec walk :: "('v listNode \<Rightarrow> ptr) \<Rightarrow> 'v listHeap \<Rightarrow> nat \<Rightarrow> ptr \<Rightarrow> ptr option" where
  "walk dir h 0 n = Some n"
| "walk dir h (Suc i) n =
     (case n of None \<Rightarrow> Some None | Some a \<Rightarrow> do { m \<leftarrow> h_nodes h a; walk dir h i (dir m) })"

text \<open>Negating the least \<open>long\<close> is undefined.\<close>

definition listIndex :: "'v listHeap \<Rightarrow> 'v adlist \<Rightarrow> int \<Rightarrow> ptr option" where
  "listIndex h l index =
     (if index = - (2 ^ 63) then None
      else if index < 0 then walk ln_prev h (nat (- index - 1)) (l_tail l)
      else walk ln_next h (nat index) (l_head l))"

definition listRotate :: "'v listHeap \<Rightarrow> 'v adlist \<Rightarrow> ('v listHeap \<times> 'v adlist) option" where
  "listRotate h l =
     (if l_len l \<le> 1 then Some (h, l)
      else do {
        t \<leftarrow> node_at h (l_tail l);
        l1 \<leftarrow> Some (l\<lparr>l_tail := ln_prev t\<rparr>);
        h1 \<leftarrow> node_upd h (l_tail l1) (\<lambda>n. n\<lparr>ln_next := None\<rparr>);
        h2 \<leftarrow> node_upd h1 (l_head l1) (\<lambda>n. n\<lparr>ln_prev := l_tail l\<rparr>);
        h3 \<leftarrow> node_upd h2 (l_tail l) (\<lambda>n. n\<lparr>ln_prev := None\<rparr>);
        h4 \<leftarrow> node_upd h3 (l_tail l) (\<lambda>n. n\<lparr>ln_next := l_head l1\<rparr>);
        Some (h4, l1\<lparr>l_head := l_tail l\<rparr>)
      })"

section \<open>Representation\<close>

definition first_ptr :: "nat list \<Rightarrow> ptr \<Rightarrow> ptr" where
  "first_ptr ps nx = (case ps of [] \<Rightarrow> nx | p # _ \<Rightarrow> Some p)"

definition last_ptr :: "ptr \<Rightarrow> nat list \<Rightarrow> ptr" where
  "last_ptr pv ps = (if ps = [] then pv else Some (last ps))"

text \<open>A segment of nodes at the addresses \<open>ps\<close>, entered from \<open>pv\<close> and left to
  \<open>nx\<close>, linked in both directions.\<close>

primrec dseg :: "(nat \<rightharpoonup> 'v listNode) \<Rightarrow> ptr \<Rightarrow> nat list \<Rightarrow> ptr \<Rightarrow> bool" where
  "dseg m pv [] nx \<longleftrightarrow> True"
| "dseg m pv (p # ps) nx \<longleftrightarrow>
     (\<exists>n. m p = Some n \<and> ln_prev n = pv \<and> ln_next n = first_ptr ps nx) \<and> dseg m (Some p) ps nx"

definition node_val :: "'v listHeap \<Rightarrow> nat \<Rightarrow> 'v" where
  "node_val h p = ln_value (the (h_nodes h p))"

definition list_repr :: "'v listHeap \<Rightarrow> 'v adlist \<Rightarrow> nat list \<Rightarrow> bool" where
  "list_repr h l ps \<longleftrightarrow>
     dseg (h_nodes h) None ps None \<and> distinct ps \<and>
     l_head l = first_ptr ps None \<and> l_tail l = last_ptr None ps \<and> l_len l = length ps \<and>
     (\<forall>a \<ge> h_brk h. h_nodes h a = None)"

definition list_vals :: "'v listHeap \<Rightarrow> nat list \<Rightarrow> 'v list" where
  "list_vals h ps = map (node_val h) ps"

lemma list_vals_simps [simp]:
  "list_vals h [] = []" "list_vals h (p # ps) = node_val h p # list_vals h ps"
  "list_vals h (ps @ qs) = list_vals h ps @ list_vals h qs"
  by (simp_all add: list_vals_def)

section \<open>Segments\<close>

named_theorems dlist_simps \<open>evaluation of pointers and node accesses\<close>

lemma first_ptr_simps [simp]:
  "first_ptr [] nx = nx" "first_ptr (p # ps) nx = Some p"
  "first_ptr (ps @ qs) nx = first_ptr ps (first_ptr qs nx)"
  by (simp_all add: first_ptr_def split: list.splits)

lemma last_ptr_simps [simp]:
  "last_ptr pv [] = pv" "last_ptr pv (ps @ [p]) = Some p"
  "last_ptr pv (p # ps) = last_ptr (Some p) ps" "last_ptr pv (ps @ qs) = last_ptr (last_ptr pv ps) qs"
  by (simp_all add: last_ptr_def)

lemma dseg_append [simp]:
  "dseg m pv (ps @ qs) nx \<longleftrightarrow> dseg m pv ps (first_ptr qs nx) \<and> dseg m (last_ptr pv ps) qs nx"
  by (induction ps arbitrary: pv) auto

lemma dseg_frame: "p \<notin> set ps \<Longrightarrow> dseg (m(p := x)) pv ps nx = dseg m pv ps nx"
  by (induction ps arbitrary: pv) auto

lemma dseg_cong: "(\<And>p. p \<in> set ps \<Longrightarrow> m p = m' p) \<Longrightarrow> dseg m pv ps nx = dseg m' pv ps nx"
  by (induction ps arbitrary: pv) auto

lemma dseg_dom: "dseg m pv ps nx \<Longrightarrow> set ps \<subseteq> dom m"
  by (induction ps arbitrary: pv) auto

lemma node_upd_Some [dlist_simps]:
  "h_nodes h a = Some n \<Longrightarrow> node_upd h (Some a) f = Some (h\<lparr>h_nodes := (h_nodes h)(a \<mapsto> f n)\<rparr>)"
  by (simp add: node_upd_def)

lemma node_at_Some [dlist_simps]: "node_at h (Some a) = h_nodes h a"
  by (simp add: node_at_def)

lemma free_node_Some [dlist_simps]:
  "h_nodes h a = Some n \<Longrightarrow> free_node h a = Some (h\<lparr>h_nodes := (h_nodes h)(a := None)\<rparr>)"
  by (simp add: free_node_def)

lemma free_value_nodes [simp]:
  "h_nodes (free_value l v h) = h_nodes h" "h_brk (free_value l v h) = h_brk h"
  by (simp_all add: free_value_def)

definition same_methods :: "'v adlist \<Rightarrow> 'v adlist \<Rightarrow> bool" where
  "same_methods l l' \<longleftrightarrow> l_dup l' = l_dup l \<and> l_free l' = l_free l \<and> l_match l' = l_match l"

text \<open>What an operation may change in the heap: the nodes of its own list and the fresh one.\<close>

definition heap_frame :: "'v listHeap \<Rightarrow> 'v listHeap \<Rightarrow> nat set \<Rightarrow> bool" where
  "heap_frame h h' A \<longleftrightarrow> (\<forall>a. a \<notin> A \<longrightarrow> h_nodes h' a = h_nodes h a)"

lemma heap_frameD: "heap_frame h h' A \<Longrightarrow> a \<notin> A \<Longrightarrow> h_nodes h' a = h_nodes h a"
  by (simp add: heap_frame_def)

lemma repr_fresh: "list_repr h l ps \<Longrightarrow> h_nodes h (h_brk h) = None \<and> h_brk h \<notin> set ps"
  unfolding list_repr_def using dseg_dom by (metis domIff order_refl subsetD)

lemma repr_node:
  assumes "list_repr h l (ps @ p # qs)"
  shows "\<exists>n. h_nodes h p = Some n \<and> ln_prev n = last_ptr None ps \<and> ln_next n = first_ptr qs None"
  using assms by (auto simp: list_repr_def)

section \<open>Insertion at the ends\<close>

lemma listAddNodeHead_correct:
  assumes r: "list_repr h l ps"
  shows "\<exists>h' l'. listAddNodeHead h l v = Some (h', l') \<and> list_repr h' l' (h_brk h # ps) \<and>
     list_vals h' (h_brk h # ps) = v # list_vals h ps \<and> h_freed h' = h_freed h \<and>
     same_methods l l' \<and> heap_frame h h' (insert (h_brk h) (set ps))"
proof (cases ps)
  case Nil
  with r show ?thesis
    by (auto simp: listAddNodeHead_def new_node_def list_repr_def list_vals_def node_val_def
        same_methods_def heap_frame_def)
next
  case (Cons q qs)
  from repr_fresh [OF r] have f: "h_brk h \<noteq> q" "h_brk h \<notin> set qs" by (auto simp: Cons)
  from r [unfolded Cons] repr_node [of h l "[]" q qs] obtain n where
    n: "h_nodes h q = Some n" by auto
  let ?m = "(h_nodes h)(h_brk h \<mapsto> \<lparr>ln_prev = None, ln_next = Some q, ln_value = v\<rparr>,
     q \<mapsto> n\<lparr>ln_prev := Some (h_brk h)\<rparr>)"
  have q: "q \<notin> set qs" using r by (simp add: Cons list_repr_def)
  have "dseg ?m None (h_brk h # ps) None"
    using r f q n by (auto simp: Cons list_repr_def dseg_frame)
  moreover have "listAddNodeHead h l v = Some
      (h\<lparr>h_nodes := ?m, h_brk := Suc (h_brk h)\<rparr>, l\<lparr>l_head := Some (h_brk h), l_len := l_len l + 1\<rparr>)"
    using r f n by (simp add: Cons listAddNodeHead_def new_node_def list_repr_def dlist_simps fun_upd_twist)
  ultimately show ?thesis using r f q n
    by (auto simp: Cons list_repr_def list_vals_def node_val_def same_methods_def heap_frame_def)
qed

lemma listAddNodeTail_correct:
  assumes r: "list_repr h l ps"
  shows "\<exists>h' l'. listAddNodeTail h l v = Some (h', l') \<and> list_repr h' l' (ps @ [h_brk h]) \<and>
     list_vals h' (ps @ [h_brk h]) = list_vals h ps @ [v] \<and> h_freed h' = h_freed h \<and>
     h_brk h' = Suc (h_brk h) \<and>
     same_methods l l' \<and> heap_frame h h' (insert (h_brk h) (set ps))"
proof (cases ps rule: rev_cases)
  case Nil
  with r show ?thesis
    by (auto simp: listAddNodeTail_def new_node_def list_repr_def list_vals_def node_val_def
        same_methods_def heap_frame_def)
next
  case (snoc qs q)
  from repr_fresh [OF r] have f: "h_brk h \<noteq> q" "h_brk h \<notin> set qs" by (auto simp: snoc)
  from r [unfolded snoc] repr_node [of h l qs q "[]"] obtain n where
    n: "h_nodes h q = Some n" by auto
  let ?m = "(h_nodes h)(h_brk h \<mapsto> \<lparr>ln_prev = Some q, ln_next = None, ln_value = v\<rparr>,
     q \<mapsto> n\<lparr>ln_next := Some (h_brk h)\<rparr>)"
  have q: "q \<notin> set qs" using r by (simp add: snoc list_repr_def)
  have "dseg ?m None (ps @ [h_brk h]) None"
    using r f q n by (auto simp: snoc list_repr_def dseg_frame)
  moreover have "listAddNodeTail h l v = Some
      (h\<lparr>h_nodes := ?m, h_brk := Suc (h_brk h)\<rparr>, l\<lparr>l_tail := Some (h_brk h), l_len := l_len l + 1\<rparr>)"
    using r f n by (simp add: snoc listAddNodeTail_def new_node_def list_repr_def dlist_simps fun_upd_twist)
  ultimately show ?thesis using r f q n
    by (auto simp: snoc list_repr_def list_vals_def node_val_def same_methods_def heap_frame_def)
qed

section \<open>Insertion next to a node, deletion\<close>

lemma listDelNode_correct:
  assumes r: "list_repr h l (ps @ p # qs)"
  shows "\<exists>h' l'. listDelNode h l (Some p) = Some (h', l') \<and> list_repr h' l' (ps @ qs) \<and>
     list_vals h' (ps @ qs) = list_vals h (ps @ qs) \<and> h_nodes h' p = None \<and>
     h_freed h' = h_freed h @ (if l_free l then [node_val h p] else []) \<and>
     same_methods l l' \<and> heap_frame h h' (set (ps @ p # qs))"
proof -
  obtain n where n: "h_nodes h p = Some n" "ln_prev n = last_ptr None ps" "ln_next n = first_ptr qs None"
    using repr_node [OF r] by auto
  show ?thesis
    using r n
    by (cases ps rule: rev_cases; cases qs)
      (auto simp: listDelNode_def list_repr_def dlist_simps list_vals_def node_val_def dseg_frame
        same_methods_def heap_frame_def free_value_def)
qed

lemma ptr_notin:
  "p \<notin> set ys \<Longrightarrow> y \<noteq> p \<Longrightarrow> first_ptr ys (Some y) \<noteq> Some p"
  "p \<notin> set ys \<Longrightarrow> y \<noteq> p \<Longrightarrow> last_ptr (Some y) ys \<noteq> Some p"
  by (auto simp: first_ptr_def last_ptr_def split: list.splits)

lemma listInsertNode_correct:
  fixes after :: bool
  assumes r: "list_repr h l (ps @ p # qs)"
  defines "rs \<equiv> if after then ps @ p # h_brk h # qs else ps @ h_brk h # p # qs"
  shows "\<exists>h' l'. listInsertNode h l (Some p) v after = Some (h', l') \<and> list_repr h' l' rs \<and>
     node_val h' (h_brk h) = v \<and> (\<forall>a \<in> set (ps @ p # qs). node_val h' a = node_val h a) \<and>
     h_freed h' = h_freed h \<and> same_methods l l' \<and>
     heap_frame h h' (insert (h_brk h) (set (ps @ p # qs)))"
proof -
  obtain n where n: "h_nodes h p = Some n" "ln_prev n = last_ptr None ps" "ln_next n = first_ptr qs None"
    using repr_node [OF r] by auto
  have f: "h_nodes h (h_brk h) = None" "h_brk h \<notin> set (ps @ p # qs)" using repr_fresh [OF r] by auto
  show ?thesis
  proof (cases after)
    case True
    then show ?thesis using r n f unfolding rs_def
      by (cases qs) (auto simp: listInsertNode_def new_node_def list_repr_def dlist_simps
          node_val_def dseg_frame same_methods_def heap_frame_def ptr_notin)
  next
    case False
    then show ?thesis using r n f unfolding rs_def
      by (cases ps rule: rev_cases) (auto simp: listInsertNode_def new_node_def list_repr_def
          dlist_simps node_val_def dseg_frame same_methods_def heap_frame_def ptr_notin)
  qed
qed

lemma listRotate_correct:
  assumes r: "list_repr h l (ps @ [p])"
  shows "\<exists>h' l'. listRotate h l = Some (h', l') \<and> list_repr h' l' (p # ps) \<and>
     (\<forall>a \<in> set (ps @ [p]). node_val h' a = node_val h a) \<and> h_freed h' = h_freed h \<and>
     same_methods l l' \<and> heap_frame h h' (set (ps @ [p]))"
proof -
  obtain n where n: "h_nodes h p = Some n" "ln_prev n = last_ptr None ps" "ln_next n = None"
    using repr_node [of h l ps p "[]"] r by auto
  show ?thesis
  proof (cases ps rule: rev_cases)
    case Nil
    then show ?thesis using r
      by (auto simp: listRotate_def list_repr_def same_methods_def heap_frame_def)
  next
    case (snoc qs q)
    show ?thesis
      using r n unfolding snoc
      by (cases qs) (auto simp: listRotate_def list_repr_def dlist_simps node_val_def dseg_frame
          same_methods_def heap_frame_def)
  qed
qed

section \<open>Traversal\<close>

lemma walk_next:
  "dseg (h_nodes h) pv ps None \<Longrightarrow>
   walk ln_next h i (first_ptr ps None) = Some (if i < length ps then Some (ps ! i) else None)"
proof (induction ps arbitrary: i pv)
  case Nil
  then show ?case by (cases i) auto
next
  case (Cons p ps)
  then show ?case by (cases i) auto
qed

lemma walk_prev:
  "dseg (h_nodes h) None ps nx \<Longrightarrow>
   walk ln_prev h i (last_ptr None ps) = Some (if i < length ps then Some (rev ps ! i) else None)"
proof (induction ps arbitrary: i nx rule: rev_induct)
  case Nil
  then show ?case by (cases i) auto
next
  case (snoc p ps)
  then show ?case by (cases i) auto
qed

lemma listIndex_correct:
  assumes "list_repr h l ps" "- (2 ^ 63) < index"
  shows "listIndex h l index =
     Some (if 0 \<le> index \<and> index < int (length ps) then Some (ps ! nat index)
           else if index < 0 \<and> - index \<le> int (length ps) then Some (ps ! nat (int (length ps) + index))
           else None)"
proof (cases "index < 0")
  case True
  have "rev ps ! nat (- index - 1) = ps ! nat (int (length ps) + index)"
    if "- index \<le> int (length ps)"
    using that True by (subst rev_nth) (auto intro!: arg_cong [of _ _ "nth ps"])
  then show ?thesis
    using assms True walk_prev [of h ps None "nat (- index - 1)"]
    by (auto simp: listIndex_def list_repr_def)
next
  case False
  then show ?thesis using assms walk_next [of h None ps "nat index"]
    by (auto simp: listIndex_def list_repr_def)
qed

definition matches :: "'v adlist \<Rightarrow> 'v \<Rightarrow> 'v \<Rightarrow> bool" where
  "matches l key v = (case l_match l of Some f \<Rightarrow> f v key | None \<Rightarrow> key = v)"

lemma listNext_seg:
  assumes "dseg (h_nodes h) pv (p # ps) None"
  shows "\<exists>n. h_nodes h p = Some n \<and>
     listNext h \<lparr>it_next = Some p, it_direction = AL_START_HEAD\<rparr> =
       Some (Some p, \<lparr>it_next = first_ptr ps None, it_direction = AL_START_HEAD\<rparr>)"
  using assms by (auto simp: listNext_def)

lemma listSearchKey_loop_correct:
  "dseg (h_nodes h) pv ps None \<Longrightarrow>
   listSearchKey_loop h l key \<lparr>it_next = first_ptr ps None, it_direction = AL_START_HEAD\<rparr> =
     Some (List.find (\<lambda>p. matches l key (node_val h p)) ps)"
proof (induction ps arbitrary: pv)
  case Nil
  then show ?case by (subst listSearchKey_loop.simps) (simp add: listNext_def)
next
  case (Cons p ps)
  from listNext_seg [OF Cons.prems] Cons show ?case
    by (subst listSearchKey_loop.simps) (auto simp: matches_def node_val_def split: option.splits)
qed

lemma listSearchKey_correct:
  "list_repr h l ps \<Longrightarrow>
   listSearchKey h l key = Some (List.find (\<lambda>p. matches l key (node_val h p)) ps)"
  using listSearchKey_loop_correct [of h None ps l key]
  by (simp add: listSearchKey_def listRewind_def list_repr_def)

section \<open>Release and duplication\<close>

lemma listRelease_loop_correct:
  "dseg (h_nodes h) pv ps None \<Longrightarrow> distinct ps \<Longrightarrow>
   \<exists>h'. listRelease_loop (length ps) l (first_ptr ps None) h = Some h' \<and>
     h_nodes h' = (h_nodes h) |` (- set ps) \<and> h_brk h' = h_brk h \<and>
     h_freed h' = h_freed h @ (if l_free l then list_vals h ps else [])"
proof (induction ps arbitrary: pv h)
  case Nil
  then show ?case by (simp add: list_vals_def)
next
  case (Cons p ps)
  then obtain n where n: "h_nodes h p = Some n" "ln_next n = first_ptr ps None" by auto
  define h1 where "h1 = (free_value l (ln_value n) h)\<lparr>h_nodes := (h_nodes h)(p := None)\<rparr>"
  have free: "free_node (free_value l (ln_value n) h) p = Some h1"
    using n by (simp add: free_node_def h1_def)
  have "dseg (h_nodes h1) (Some p) ps None" using Cons.prems by (simp add: h1_def dseg_frame)
  from Cons.IH [OF this] Cons.prems obtain h' where
    h': "listRelease_loop (length ps) l (first_ptr ps None) h1 = Some h'"
      "h_nodes h' = (h_nodes h1) |` (- set ps)" "h_brk h' = h_brk h1"
      "h_freed h' = h_freed h1 @ (if l_free l then list_vals h1 ps else [])" by auto
  have "list_vals h1 ps = list_vals h ps"
    using Cons.prems by (auto simp: list_vals_def node_val_def h1_def)
  moreover have "(h_nodes h)(p := None) |` (- set ps) = (h_nodes h) |` (- set (p # ps))"
    by (auto simp: restrict_map_def)
  ultimately show ?case using n free h'
    by (auto simp: dlist_simps h1_def free_value_def list_vals_def node_val_def)
qed

lemma listRelease_correct:
  assumes "list_repr h l ps"
  shows "\<exists>h'. listRelease h l = Some h' \<and> h_nodes h' = (h_nodes h) |` (- set ps) \<and>
     h_brk h' = h_brk h \<and> h_freed h' = h_freed h @ (if l_free l then list_vals h ps else [])"
  using assms listRelease_loop_correct [of h None ps l]
  by (simp add: listRelease_def list_repr_def)

text \<open>The value stored in the copy of a node, \<^term>\<open>None\<close> if the \<open>dup\<close> method
  fails.\<close>

definition dup_value :: "'v adlist \<Rightarrow> 'v \<Rightarrow> 'v option" where
  "dup_value l v = (case l_dup l of None \<Rightarrow> Some v | Some f \<Rightarrow> f v)"

text \<open>The original list is untouched by changes elsewhere in the heap.\<close>

lemma repr_frame:
  assumes "list_repr h l ps" "\<And>a. a \<in> set ps \<Longrightarrow> h_nodes h' a = h_nodes h a"
    and "\<forall>a \<ge> h_brk h'. h_nodes h' a = None"
  shows "list_repr h' l ps \<and> list_vals h' ps = list_vals h ps"
  using assms dseg_cong [of ps "h_nodes h'" "h_nodes h" None None]
  by (auto simp: list_repr_def list_vals_def node_val_def)

text \<open>The outcome of copying the values \<open>vs\<close> onto the partial copy at \<open>qs\<close>. On failure its nodes
  are gone, and its values and the duplicates made so far went to the \<open>free\<close> method. On success the
  copy grew by fresh nodes and nothing else of the heap changed.\<close>

definition dup_result ::
  "'v listHeap \<Rightarrow> 'v adlist \<Rightarrow> nat list \<Rightarrow> 'v list \<Rightarrow> 'v listHeap \<Rightarrow> 'v adlist option \<Rightarrow> bool" where
  "dup_result h copy qs vs h' res \<longleftrightarrow>
     (case those (map (dup_value copy) vs) of
        None \<Rightarrow> res = None \<and> h_nodes h' = (h_nodes h) |` (- set qs) \<and>
          h_freed h' = h_freed h @ (if l_free copy
            then list_vals h qs @ map (the \<circ> dup_value copy) (takeWhile (\<lambda>v. dup_value copy v \<noteq> None) vs) else [])
      | Some ws \<Rightarrow> \<exists>copy' qs'. res = Some copy' \<and> list_repr h' copy' qs' \<and> same_methods copy copy' \<and>
          list_vals h' qs' = list_vals h qs @ ws \<and> set qs \<subseteq> set qs' \<and> (\<forall>a \<in> set qs'. a \<in> set qs \<or> h_brk h \<le> a) \<and>
          heap_frame h h' (set qs') \<and> h_freed h' = h_freed h)"

lemma dup_result_Nil: "list_repr h copy qs \<Longrightarrow> dup_result h copy qs [] h (Some copy)"
  by (auto simp: dup_result_def same_methods_def heap_frame_def)

lemma dup_result_fails:
  assumes "dup_value copy v = None" "h_nodes h' = (h_nodes h) |` (- set qs)"
    "h_freed h' = h_freed h @ (if l_free copy then list_vals h qs else [])"
  shows "dup_result h copy qs (v # vs) h' None"
  using assms by (simp add: dup_result_def)

lemma dup_result_step:
  assumes v: "dup_value copy v = Some w" and fresh: "h_nodes h (h_brk h) = None"
    and h1: "list_vals h1 (qs @ [h_brk h]) = list_vals h qs @ [w]" "h_freed h1 = h_freed h" "h_brk h1 = Suc (h_brk h)"
      "same_methods copy copy1" "heap_frame h h1 (insert (h_brk h) (set qs))"
    and IH: "dup_result h1 copy1 (qs @ [h_brk h]) vs h' res"
  shows "dup_result h copy qs (v # vs) h' res"
proof -
  have dv: "dup_value copy1 = dup_value copy" "l_free copy1 = l_free copy"
    using h1(4) by (auto simp: same_methods_def dup_value_def)
  have r: "(h_nodes h1) |` (- set (qs @ [h_brk h])) = (h_nodes h) |` (- set qs)"
  proof
    fix a
    show "((h_nodes h1) |` (- set (qs @ [h_brk h]))) a = ((h_nodes h) |` (- set qs)) a"
      using heap_frameD [OF h1(5), of a] fresh by (cases "a = h_brk h") (simp_all add: restrict_map_def)
  qed
  show ?thesis
  proof (cases "those (map (dup_value copy) vs)")
    case None
    then show ?thesis using IH v h1(2) unfolding dup_result_def dv r h1(1) by simp
  next
    case (Some ws)
    with IH obtain copy' qs' where c: "res = Some copy'" "list_repr h' copy' qs'" "same_methods copy1 copy'"
      "list_vals h' qs' = list_vals h qs @ w # ws" "set (qs @ [h_brk h]) \<subseteq> set qs'"
      "\<forall>a \<in> set qs'. a \<in> set (qs @ [h_brk h]) \<or> h_brk h1 \<le> a" "heap_frame h1 h' (set qs')" "h_freed h' = h_freed h1"
      unfolding dup_result_def dv h1(1) by auto
    have "same_methods copy copy'" using h1(4) c(3) by (simp add: same_methods_def)
    moreover have "heap_frame h h' (set qs')"
      unfolding heap_frame_def using heap_frameD [OF c(7)] heap_frameD [OF h1(5)] c(5) by (metis insert_iff list.set(2) set_append subsetD Un_insert_right sup_bot.right_neutral list.set(1))
    moreover have "\<forall>a \<in> set qs'. a \<in> set qs \<or> h_brk h \<le> a" using c(6) h1(3) by force
    ultimately show ?thesis using Some v c(1,2,4,5,8) h1(2) by (auto simp: dup_result_def)
  qed
qed

lemma listDup_loop_correct:
  assumes "list_repr h orig (ps1 @ ps2)" "list_repr h copy qs" "set qs \<inter> set (ps1 @ ps2) = {}"
  shows "\<exists>h' res. listDup_loop h copy
       \<lparr>it_next = first_ptr ps2 None, it_direction = AL_START_HEAD\<rparr> = Some (h', res) \<and>
     list_repr h' orig (ps1 @ ps2) \<and> list_vals h' (ps1 @ ps2) = list_vals h (ps1 @ ps2) \<and>
     dup_result h copy qs (list_vals h ps2) h' res"
  using assms
proof (induction ps2 arbitrary: ps1 h copy qs)
  case Nil
  then show ?case
    by (subst listDup_loop.simps) (auto simp: listNext_def dup_result_Nil)
next
  case (Cons p ps2)
  obtain n where n: "h_nodes h p = Some n" "ln_next n = first_ptr ps2 None"
    using repr_node [OF Cons.prems(1)] by auto
  have v: "node_val h p = ln_value n" by (simp add: node_val_def n)
  have nx: "listNext h \<lparr>it_next = Some p, it_direction = AL_START_HEAD\<rparr> =
      Some (Some p, \<lparr>it_next = first_ptr ps2 None, it_direction = AL_START_HEAD\<rparr>)"
    using n by (simp add: listNext_def)
  have unfold: "listDup_loop h copy \<lparr>it_next = Some p, it_direction = AL_START_HEAD\<rparr> =
      (case dup_value copy (ln_value n) of
         None \<Rightarrow> listRelease h copy \<bind> (\<lambda>h'. Some (h', None))
       | Some v \<Rightarrow> listAddNodeTail h copy v \<bind> (\<lambda>(h', copy').
           listDup_loop h' copy' \<lparr>it_next = first_ptr ps2 None, it_direction = AL_START_HEAD\<rparr>))"
    by (subst listDup_loop.simps) (simp only: nx n dup_value_def bind.bind_lunit case_prod_conv option.case)
  show ?case
  proof (cases "dup_value copy (ln_value n)")
    case None
    from listRelease_correct [OF Cons.prems(2)] obtain h' where
      h': "listRelease h copy = Some h'" "h_nodes h' = (h_nodes h) |` (- set qs)" "h_brk h' = h_brk h"
      "h_freed h' = h_freed h @ (if l_free copy then list_vals h qs else [])"
      by auto
    have "list_repr h' orig (ps1 @ p # ps2) \<and> list_vals h' (ps1 @ p # ps2) = list_vals h (ps1 @ p # ps2)"
    proof (rule repr_frame [OF Cons.prems(1)])
      show "\<forall>a \<ge> h_brk h'. h_nodes h' a = None"
        using Cons.prems(2) by (simp add: h'(2,3) list_repr_def restrict_map_def)
    qed (use h'(2) Cons.prems(3) in \<open>auto simp: restrict_map_def\<close>)
    then show ?thesis using None h'(1) dup_result_fails [OF None h'(2,4)] by (simp add: unfold v)
  next
    case (Some w)
    from listAddNodeTail_correct [OF Cons.prems(2), of w] obtain h1 copy1 where
      add: "listAddNodeTail h copy w = Some (h1, copy1)" and r1: "list_repr h1 copy1 (qs @ [h_brk h])"
      and h1: "list_vals h1 (qs @ [h_brk h]) = list_vals h qs @ [w]" "h_freed h1 = h_freed h" "h_brk h1 = Suc (h_brk h)"
        "same_methods copy copy1" "heap_frame h h1 (insert (h_brk h) (set qs))" by auto
    have fresh: "h_nodes h (h_brk h) = None" "h_brk h \<notin> set (ps1 @ p # ps2)" using repr_fresh [OF Cons.prems(1)] by auto
    have "list_repr h1 orig (ps1 @ p # ps2) \<and> list_vals h1 (ps1 @ p # ps2) = list_vals h (ps1 @ p # ps2)"
    proof (rule repr_frame [OF Cons.prems(1)])
      show "\<forall>a \<ge> h_brk h1. h_nodes h1 a = None" using r1 by (simp add: list_repr_def)
    qed (rule heap_frameD [OF h1(5)], use fresh(2) Cons.prems(3) in blast)
    then have o: "list_repr h1 orig ((ps1 @ [p]) @ ps2)"
      and ov: "list_vals h1 (ps1 @ p # ps2) = list_vals h (ps1 @ p # ps2)" by auto
    have ov2: "list_vals h1 ps2 = list_vals h ps2" using ov by (simp add: list_vals_def)
    have "set (qs @ [h_brk h]) \<inter> set ((ps1 @ [p]) @ ps2) = {}" using fresh(2) Cons.prems(3) by auto
    from Cons.IH [OF o r1 this, unfolded append_assoc append.simps ov ov2] obtain h' res where
      IH: "listDup_loop h1 copy1 \<lparr>it_next = first_ptr ps2 None, it_direction = AL_START_HEAD\<rparr> = Some (h', res)"
      "list_repr h' orig (ps1 @ p # ps2)" "list_vals h' (ps1 @ p # ps2) = list_vals h (ps1 @ p # ps2)"
      "dup_result h1 copy1 (qs @ [h_brk h]) (list_vals h ps2) h' res" by blast
    show ?thesis using Some add IH(1-3) dup_result_step [OF Some fresh(1) h1 IH(4)] by (simp add: unfold v)
  qed
qed

lemma listDup_correct:
  assumes "list_repr h orig ps"
  shows "\<exists>h' res. listDup h orig = Some (h', res) \<and>
     list_repr h' orig ps \<and> list_vals h' ps = list_vals h ps \<and> dup_result h orig [] (list_vals h ps) h' res"
proof -
  define c where "c = listCreate\<lparr>l_dup := l_dup orig, l_free := l_free orig, l_match := l_match orig\<rparr>"
  have c: "list_repr h c []" using assms by (simp add: list_repr_def c_def listCreate_def)
  have dv: "dup_value c = dup_value orig" by (simp add: fun_eq_iff dup_value_def c_def)
  have "dup_result h c [] = dup_result h orig []"
    unfolding dup_result_def fun_eq_iff dv by (simp add: c_def same_methods_def cong: option.case_cong)
  moreover have "listDup h orig = listDup_loop h c \<lparr>it_next = first_ptr ps None, it_direction = AL_START_HEAD\<rparr>"
    using assms by (simp add: listDup_def c_def listRewind_def list_repr_def)
  ultimately show ?thesis
    using listDup_loop_correct [of h orig "[]" ps c "[]"] assms c by simp
qed

section \<open>The list as a deque\<close>

text \<open>
  What the server's logs and queues rely on: a sequence with insertion at the head and deletion at
  the tail. The client lemma covers the loops \<open>while (listLength(l) > max) listDelNode(l,
  listLast(l))\<close>.
\<close>

partial_function (option) trim_loop :: "('s \<Rightarrow> nat) \<Rightarrow> ('s \<Rightarrow> 's option) \<Rightarrow> nat \<Rightarrow> 's \<Rightarrow> 's option" where
  "trim_loop len drop_tail mx s =
     (if len s > mx then do { s' \<leftarrow> drop_tail s; trim_loop len drop_tail mx s' } else Some s)"

locale deque =
  fixes rep :: "'s \<Rightarrow> 'v list \<Rightarrow> bool"
    and len :: "'s \<Rightarrow> nat"
    and push_head :: "'v \<Rightarrow> 's \<Rightarrow> 's option"
    and drop_tail :: "'s \<Rightarrow> 's option"
  assumes rep_len: "rep s xs \<Longrightarrow> len s = length xs"
    and rep_push: "rep s xs \<Longrightarrow> \<exists>s'. push_head v s = Some s' \<and> rep s' (v # xs)"
    and rep_drop: "rep s xs \<Longrightarrow> xs \<noteq> [] \<Longrightarrow> \<exists>s'. drop_tail s = Some s' \<and> rep s' (butlast xs)"
begin

lemma trim_returns:
  "rep s xs \<Longrightarrow> \<exists>s'. trim_loop len drop_tail mx s = Some s' \<and> rep s' (take mx xs)"
proof (induction "length xs" arbitrary: s xs)
  case 0
  then show ?case using rep_len [of s xs] by (subst trim_loop.simps) auto
next
  case (Suc n)
  show ?case
  proof (cases "length xs > mx")
    case True
    then obtain s1 where s1: "drop_tail s = Some s1" "rep s1 (butlast xs)"
      using rep_drop [OF Suc.prems] by (metis length_greater_0_conv less_nat_zero_code not_gr_zero)
    have "take mx (butlast xs) = take mx xs" using True by (simp add: take_butlast)
    moreover have "n = length (butlast xs)" using Suc.hyps(2) by simp
    from Suc.hyps(1) [OF this s1(2)] obtain s' where
      "trim_loop len drop_tail mx s1 = Some s'" "rep s' (take mx (butlast xs))" by blast
    ultimately show ?thesis
      using True rep_len [OF Suc.prems] s1 by (subst trim_loop.simps) simp
  next
    case False
    then show ?thesis using rep_len [OF Suc.prems] Suc.prems by (subst trim_loop.simps) simp
  qed
qed

lemma push_trim:
  assumes "rep s xs"
  shows "\<exists>s'. push_head v s \<bind> trim_loop len drop_tail mx = Some s' \<and> rep s' (take mx (v # xs))"
  using rep_push [OF assms, of v] trim_returns [of _ "v # xs" mx] by fastforce

end

definition adlist_rep :: "'v listHeap \<times> 'v adlist \<Rightarrow> 'v list \<Rightarrow> bool" where
  "adlist_rep s xs \<longleftrightarrow> (\<exists>ps. list_repr (fst s) (snd s) ps \<and> list_vals (fst s) ps = xs)"

definition adlist_len :: "'v listHeap \<times> 'v adlist \<Rightarrow> nat" where
  "adlist_len s = l_len (snd s)"

definition adlist_push :: "'v \<Rightarrow> 'v listHeap \<times> 'v adlist \<Rightarrow> ('v listHeap \<times> 'v adlist) option" where
  "adlist_push v s = listAddNodeHead (fst s) (snd s) v"

definition adlist_drop :: "'v listHeap \<times> 'v adlist \<Rightarrow> ('v listHeap \<times> 'v adlist) option" where
  "adlist_drop s = listDelNode (fst s) (snd s) (l_tail (snd s))"

interpretation adl: deque adlist_rep adlist_len adlist_push adlist_drop
proof (unfold_locales, goal_cases)
  case (1 s xs)
  then show ?case by (auto simp: adlist_rep_def adlist_len_def list_repr_def list_vals_def)
next
  case (2 s xs v)
  then obtain ps where "list_repr (fst s) (snd s) ps" "list_vals (fst s) ps = xs"
    by (auto simp: adlist_rep_def)
  from listAddNodeHead_correct [OF this(1), of v] this(2) show ?case
    unfolding adlist_push_def adlist_rep_def by fastforce
next
  case (3 s xs)
  then obtain ps where ps: "list_repr (fst s) (snd s) ps" "list_vals (fst s) ps = xs" "ps \<noteq> []"
    by (metis adlist_rep_def list_vals_simps(1))
  then obtain qs q where q: "ps = qs @ q # []" by (metis rev_exhaust)
  have "l_tail (snd s) = Some q" using ps(1) by (simp add: list_repr_def q)
  with listDelNode_correct [OF ps(1) [unfolded q]] ps(2) show ?case
    unfolding adlist_drop_def adlist_rep_def q by fastforce
qed

section \<open>Properties\<close>

text \<open>C25. Inserting before or after a node of a well-linked list, and deleting a node, are memory
  safe and leave a list that is linked in both directions, with exactly the new address added next
  to the given node, respectively the given address removed; the other nodes keep their values and
  memory outside the list is untouched.\<close>

theorem listInsertNode_listDelNode:
  assumes "list_repr h l (ps @ p # qs)"
  shows "(\<exists>h' l'. listInsertNode h l (Some p) v after = Some (h', l') \<and>
       list_repr h' l' (if after then ps @ p # h_brk h # qs else ps @ h_brk h # p # qs) \<and>
       node_val h' (h_brk h) = v \<and> (\<forall>a \<in> set (ps @ p # qs). node_val h' a = node_val h a) \<and>
       heap_frame h h' (insert (h_brk h) (set (ps @ p # qs)))) \<and>
     (\<exists>h' l'. listDelNode h l (Some p) = Some (h', l') \<and> list_repr h' l' (ps @ qs) \<and>
       list_vals h' (ps @ qs) = list_vals h (ps @ qs) \<and> h_nodes h' p = None \<and>
       h_freed h' = h_freed h @ (if l_free l then [node_val h p] else []) \<and>
       heap_frame h h' (set (ps @ p # qs)))"
  using listInsertNode_correct [OF assms, of v after] listDelNode_correct [OF assms] by auto

text \<open>A list of two nodes at the addresses 0 and 1, for the witnesses.\<close>

definition dl_heap :: "nat listHeap" where
  "dl_heap = \<lparr>h_nodes = [0 \<mapsto> \<lparr>ln_prev = None, ln_next = Some 1, ln_value = 10\<rparr>,
      1 \<mapsto> \<lparr>ln_prev = Some 0, ln_next = None, ln_value = 20\<rparr>], h_brk = 2, h_freed = []\<rparr>"

definition dl_list :: "nat adlist" where
  "dl_list = \<lparr>l_head = Some 0, l_tail = Some 1, l_dup = None, l_free = True, l_match = None, l_len = 2\<rparr>"

lemma dl_repr: "list_repr dl_heap dl_list [0, 1]" "list_vals dl_heap [0, 1] = [10, 20]"
  by (simp_all add: list_repr_def dl_heap_def dl_list_def node_val_def)

theorem listInsertNode_listDelNode_witness:
  "(\<exists>h' l'. listInsertNode dl_heap dl_list (Some 0) 15 True = Some (h', l') \<and> list_repr h' l' [0, 2, 1]) \<and>
   (\<exists>h' l'. listDelNode dl_heap dl_list (Some 0) = Some (h', l') \<and> list_repr h' l' [1] \<and>
     h_freed h' = [10])"
  using listInsertNode_listDelNode [of dl_heap dl_list "[]" 0 "[1]" 15 True] dl_repr
  by (auto simp: dl_heap_def dl_list_def node_val_def)

text \<open>C29. Duplicating a list returns and leaves the original list and its values as they were. When
  every value can be duplicated it yields a list with the methods of the original, built of fresh
  nodes only, that holds the duplicates in order; no other node changes and nothing is freed. When the
  \<open>dup\<close> method fails on some value there is no list, every node made for it is gone, so the nodes are
  those of before, and the duplicates made until then went to the \<open>free\<close> method, if there is one.\<close>

theorem listDup_copies:
  assumes "list_repr h orig ps"
  shows "\<exists>h' res. listDup h orig = Some (h', res) \<and>
     list_repr h' orig ps \<and> list_vals h' ps = list_vals h ps \<and>
     (case those (map (dup_value orig) (list_vals h ps)) of
        None \<Rightarrow> res = None \<and> h_nodes h' = h_nodes h \<and>
          h_freed h' = h_freed h @ (if l_free orig
            then map (the \<circ> dup_value orig) (takeWhile (\<lambda>v. dup_value orig v \<noteq> None) (list_vals h ps)) else [])
      | Some ws \<Rightarrow> \<exists>copy qs. res = Some copy \<and> list_repr h' copy qs \<and> same_methods orig copy \<and>
          set qs \<inter> set ps = {} \<and> list_vals h' qs = ws \<and> (\<forall>a \<in> set qs. h_nodes h a = None) \<and>
          (\<forall>a. a \<notin> set qs \<longrightarrow> h_nodes h' a = h_nodes h a) \<and> h_freed h' = h_freed h)"
proof -
  obtain h' res where d: "listDup h orig = Some (h', res)" "list_repr h' orig ps" "list_vals h' ps = list_vals h ps"
    "dup_result h orig [] (list_vals h ps) h' res" using listDup_correct [OF assms] by blast
  have fresh: "h_nodes h a = None" if "h_brk h \<le> a" for a using assms that by (simp add: list_repr_def)
  have dom: "\<not> h_brk h \<le> a" if "a \<in> set ps" for a
    using assms that dseg_dom [of "h_nodes h" None ps None] by (force simp: list_repr_def)
  show ?thesis
  proof (cases "those (map (dup_value orig) (list_vals h ps))")
    case None
    then show ?thesis using d by (simp add: dup_result_def restrict_map_def)
  next
    case (Some ws)
    with d(4) obtain copy qs where c: "res = Some copy" "list_repr h' copy qs" "same_methods orig copy"
      "list_vals h' qs = ws" "\<forall>a \<in> set qs. h_brk h \<le> a" "heap_frame h h' (set qs)" "h_freed h' = h_freed h"
      by (auto simp: dup_result_def)
    moreover have "set qs \<inter> set ps = {}" "\<forall>a \<in> set qs. h_nodes h a = None" using c(5) fresh dom by blast+
    ultimately show ?thesis using Some d(1-3) by (auto simp: heap_frame_def)
  qed
qed

definition dl_partial :: "nat adlist" where
  "dl_partial = dl_list\<lparr>l_dup := Some (\<lambda>v. if v = 20 then None else Some (v + 1)), l_free := True\<rparr>"

theorem listDup_copies_witness:
  "(\<exists>h' copy qs. listDup dl_heap dl_list = Some (h', Some copy) \<and> list_repr h' copy qs \<and>
     list_vals h' qs = [10, 20] \<and> list_repr h' dl_list [0, 1]) \<and>
   (\<exists>h'. listDup dl_heap dl_partial = Some (h', None) \<and> h_nodes h' = h_nodes dl_heap \<and>
     h_freed h' = h_freed dl_heap @ [11])"
proof
  show "\<exists>h' copy qs. listDup dl_heap dl_list = Some (h', Some copy) \<and> list_repr h' copy qs \<and>
     list_vals h' qs = [10, 20] \<and> list_repr h' dl_list [0, 1]"
    using listDup_copies [OF dl_repr(1)] dl_repr(2)
    by (auto simp: dup_value_def dl_list_def split: option.splits)
  have r: "list_repr dl_heap dl_partial [0, 1]" using dl_repr(1) by (simp add: list_repr_def dl_partial_def)
  show "\<exists>h'. listDup dl_heap dl_partial = Some (h', None) \<and> h_nodes h' = h_nodes dl_heap \<and>
     h_freed h' = h_freed dl_heap @ [11]"
    using listDup_copies [OF r] dl_repr(2)
    by (auto simp: dup_value_def dl_partial_def split: option.splits)
qed

text \<open>C30. Moving the tail to the head, positional access from either end, the search for the first
  matching node and the forward iterator follow the order of the list; out of range indexes yield
  \<open>NULL\<close>, and after the node an iterator returned is deleted the iterator still points at the
  rest of the remaining list.\<close>

theorem adlist_order:
  assumes "list_repr h l (ps @ p # qs)" "- (2 ^ 63) < i"
  defines "rs \<equiv> ps @ p # qs"
  shows "(\<exists>h' l'. listRotate h l = Some (h', l') \<and> list_repr h' l' (last rs # butlast rs) \<and>
       (\<forall>a \<in> set rs. node_val h' a = node_val h a)) \<and>
     listIndex h l i =
       Some (if 0 \<le> i \<and> i < int (length rs) then Some (rs ! nat i)
             else if i < 0 \<and> - i \<le> int (length rs) then Some (rs ! nat (int (length rs) + i))
             else None) \<and>
     listSearchKey h l key = Some (List.find (\<lambda>a. matches l key (node_val h a)) rs) \<and>
     (\<exists>it h' l'. listNext h \<lparr>it_next = Some p, it_direction = AL_START_HEAD\<rparr> = Some (Some p, it) \<and>
        it_next it = first_ptr qs None \<and> listDelNode h l (Some p) = Some (h', l') \<and>
        list_repr h' l' (ps @ qs))"
proof -
  have r: "list_repr h l rs" using assms(1) by (simp add: rs_def)
  have e: "butlast rs @ [last rs] = rs" by (rule append_butlast_last_id) (simp add: rs_def)
  from listRotate_correct [of h l "butlast rs" "last rs"] r have
    "\<exists>h' l'. listRotate h l = Some (h', l') \<and> list_repr h' l' (last rs # butlast rs) \<and>
       (\<forall>a \<in> set rs. node_val h' a = node_val h a)"
    unfolding e by blast
  moreover have "\<exists>it. listNext h \<lparr>it_next = Some p, it_direction = AL_START_HEAD\<rparr> = Some (Some p, it) \<and>
      it_next it = first_ptr qs None"
    using repr_node [OF assms(1)] by (auto simp: listNext_def)
  ultimately show ?thesis
    using listIndex_correct [OF r assms(2)] listSearchKey_correct [OF r, of key]
      listDelNode_correct [OF assms(1)] by blast
qed

theorem adlist_order_witness:
  "(\<exists>h' l'. listRotate dl_heap dl_list = Some (h', l') \<and> list_repr h' l' [1, 0]) \<and>
   listIndex dl_heap dl_list (- 1) = Some (Some 1) \<and>
   listSearchKey dl_heap dl_list 20 = Some (Some 1)"
  using adlist_order [of dl_heap dl_list "[]" 0 "[1]" "- 1" 20] dl_repr
  by (auto simp: matches_def dl_list_def dl_heap_def node_val_def)

end
