(* ===== verification/Util.thy ===== *)
theory Util
  imports Prelude
begin

text \<open>
  Number conversions of \<open>src/redis-stable/src/util.c\<close> and \<open>sds.c\<close>. C strings and
  buffers are lists of \<^typ>\<open>char\<close>; the unsigned 64-bit intermediate values are natural
  numbers with the code's overflow checks written out. The lemmas compare every routine with the
  plain decimal notation \<open>dec_int\<close>.
\<close>

section \<open>Characters\<close>

abbreviation chr_code :: "char \<Rightarrow> nat" where
  "chr_code c \<equiv> of_char c"

definition NUL :: char where
  "NUL = CHR 0x00"

definition isdigit :: "char \<Rightarrow> bool" where
  "isdigit c \<longleftrightarrow> 48 \<le> chr_code c \<and> chr_code c \<le> 57"

definition tolower :: "char \<Rightarrow> char" where
  "tolower c = (if 65 \<le> chr_code c \<and> chr_code c \<le> 90 then char_of (chr_code c + 32) else c)"

definition digit_char :: "nat \<Rightarrow> char" where
  "digit_char d = char_of (48 + d)"

definition buf_set :: "char list \<Rightarrow> int \<Rightarrow> char \<Rightarrow> char list option" where
  "buf_set b i c = (if 0 \<le> i \<and> nat i < length b then Some (b[nat i := c]) else None)"

section \<open>Decimal notation\<close>

fun dec_nat :: "nat \<Rightarrow> string" where
  "dec_nat n = (if n < 10 then [digit_char n] else dec_nat (n div 10) @ [digit_char (n mod 10)])"

declare dec_nat.simps [simp del]

definition dec_int :: "int \<Rightarrow> string" where
  "dec_int v = (if v < 0 then CHR ''-'' # dec_nat (nat (- v)) else dec_nat (nat v))"

section \<open>The routines\<close>

definition ULLONG_MAX :: nat where
  "ULLONG_MAX = 2 ^ 64 - 1"

fun digits10 :: "nat \<Rightarrow> nat" where
  "digits10 v =
     (if v < 10 then 1 else if v < 100 then 2 else if v < 1000 then 3
      else if v < 1000000000000 then
        (if v < 100000000 then
           (if v < 1000000 then
              (if v < 10000 then 4 else 5 + (if v \<ge> 100000 then 1 else 0))
            else 7 + (if v \<ge> 10000000 then 1 else 0))
         else if v < 10000000000 then 9 + (if v \<ge> 1000000000 then 1 else 0)
         else 11 + (if v \<ge> 100000000000 then 1 else 0))
      else 12 + digits10 (v div 1000000000000))"

declare digits10.simps [simp del]

text \<open>The absolute value of a \<open>long long\<close> as an unsigned number; the least one is
  \<open>LLONG_MAX + 1\<close>.\<close>

definition ll_abs :: "int \<Rightarrow> nat" where
  "ll_abs v = (if v < 0 then (if v \<noteq> - (2 ^ 63) then nat (- v) else nat (2 ^ 63 - 1) + 1) else nat v)"

definition sdigits10 :: "int \<Rightarrow> nat" where
  "sdigits10 v = (if v < 0 then digits10 (ll_abs v) + 1 else digits10 (ll_abs v))"

text \<open>The table \<open>"00010203\<dots>99"\<close> of \<open>ll2string\<close>.\<close>

definition digits_table :: string where
  "digits_table = ''00010203040506070809101112131415161718192021222324252627282930313233343536373839'' @
     ''4041424344454647484950515253545556575859'' @
     ''60616263646566676869707172737475767778798081828384858687888990919293949596979899''"

text \<open>The loop and the final one or two digits, writing backwards from \<open>next\<close>.\<close>

function ll2string_loop :: "char list \<Rightarrow> int \<Rightarrow> nat \<Rightarrow> char list option" where
  "ll2string_loop dst nxt v =
     (if v \<ge> 100 then
        (let i = (v mod 100) * 2
         in do {
           c1 \<leftarrow> cell_get digits_table (i + 1);
           d1 \<leftarrow> buf_set dst nxt c1;
           c0 \<leftarrow> cell_get digits_table i;
           d2 \<leftarrow> buf_set d1 (nxt - 1) c0;
           ll2string_loop d2 (nxt - 2) (v div 100)
         })
      else if v < 10 then buf_set dst nxt (char_of (48 + v))
      else
        (let i = v * 2
         in do {
           c1 \<leftarrow> cell_get digits_table (i + 1);
           d1 \<leftarrow> buf_set dst nxt c1;
           c0 \<leftarrow> cell_get digits_table i;
           buf_set d1 (nxt - 1) c0
         }))"
  by pat_completeness auto
termination
  by (relation "measure (\<lambda>(dst, nxt, v). v)") auto

text \<open>The buffer and the number of characters; \<open>dstlen\<close> is the length of the buffer.\<close>

definition ll2string :: "char list \<Rightarrow> int \<Rightarrow> (char list \<times> nat) option" where
  "ll2string dst svalue =
     (let v = ll_abs svalue;
          negative = (if svalue < 0 then 1 else 0);
          len = digits10 v + negative
      in if len \<ge> length dst then Some (dst, 0)
         else do {
           d1 \<leftarrow> buf_set dst (int len) NUL;
           d2 \<leftarrow> ll2string_loop d1 (int len - 1) v;
           d3 \<leftarrow> (if negative \<noteq> 0 then buf_set d2 0 (CHR ''-'') else Some d2);
           Some (d3, len)
         })"

text \<open>The digit loop; \<^term>\<open>None\<close> is the overflow return. The second component is the
  unread rest.\<close>

fun string2ll_loop :: "nat \<Rightarrow> string \<Rightarrow> (nat \<times> string) option" where
  "string2ll_loop v [] = Some (v, [])"
| "string2ll_loop v (c # cs) =
     (if isdigit c then
        (if v > ULLONG_MAX div 10 then None
         else (let v' = v * 10; d = chr_code c - 48
               in if v' > ULLONG_MAX - d then None else string2ll_loop (v' + d) cs))
      else Some (v, c # cs))"

definition string2ll :: "string \<Rightarrow> int option" where
  "string2ll s =
     (if s = [] then None
      else if length s = 1 \<and> hd s = CHR ''0'' then Some 0
      else
        (let negative = (hd s = CHR ''-'');
             p = (if negative then tl s else s)
         in if p = [] then None
            else if 49 \<le> chr_code (hd p) \<and> chr_code (hd p) \<le> 57 then
              (case string2ll_loop (chr_code (hd p) - 48) (tl p) of
                 None \<Rightarrow> None
               | Some (v, rest) \<Rightarrow>
                   if rest \<noteq> [] then None
                   else if negative then
                     (if v > nat (2 ^ 63 - 1) + 1 then None else Some (- int v))
                   else if v > nat (2 ^ 63 - 1) then None else Some (int v))
            else if hd p = CHR ''0'' \<and> length s = 1 then Some 0
            else None))"

definition string2l :: "string \<Rightarrow> int option" where
  "string2l s =
     (case string2ll s of
        None \<Rightarrow> None
      | Some llval \<Rightarrow> if llval < - (2 ^ 63) \<or> llval > 2 ^ 63 - 1 then None else Some llval)"

text \<open>\<open>sdsll2str\<close>: digits are produced in reverse, then the string is reversed in place.\<close>

function sdsll2str_digits :: "nat \<Rightarrow> string" where
  "sdsll2str_digits v =
     (let c = char_of (48 + v mod 10); v' = v div 10
      in if v' \<noteq> 0 then c # sdsll2str_digits v' else [c])"
  by pat_completeness auto
termination
  by (relation "measure id") auto

text \<open>\<open>while(s < p)\<close> swapping the ends.\<close>

function reverse_loop :: "char list \<Rightarrow> nat \<Rightarrow> nat \<Rightarrow> char list" where
  "reverse_loop b s p =
     (if s < p then reverse_loop (b[s := b ! p, p := b ! s]) (Suc s) (p - 1) else b)"
  by pat_completeness auto
termination
  by (relation "measure (\<lambda>(b, s, p). p - s)") auto

text \<open>Negating the least \<open>long long\<close> overflows.\<close>

definition sdsll2str :: "int \<Rightarrow> string option" where
  "sdsll2str v =
     (if v = - (2 ^ 63) then None
      else
        (let u = (if v < 0 then nat (- v) else nat v);
             b = sdsll2str_digits u @ (if v < 0 then ''-'' else [])
         in Some (reverse_loop b 0 (length b - 1))))"

definition sdsull2str :: "nat \<Rightarrow> string" where
  "sdsull2str v = (let b = sdsll2str_digits v in reverse_loop b 0 (length b - 1))"

text \<open>
  \<open>memtoll\<close>: the result and \<open>*err\<close>, for a NUL-terminated string without its NUL;
  \<^term>\<open>None\<close> where the product overflows. \<open>strtoll\<close> is applied to an optional minus sign
  and digits only: with no digit it converts nothing and leaves \<open>endptr\<close> at the start of the
  buffer, and it clips to the \<open>long long\<close> range.
\<close>

definition strcasecmp_eq :: "string \<Rightarrow> string \<Rightarrow> bool" where
  "strcasecmp_eq a b \<longleftrightarrow> map tolower a = map tolower b"

definition memtoll_unit :: "string \<Rightarrow> int option" where
  "memtoll_unit u =
     (if u = [] \<or> strcasecmp_eq u ''b'' then Some 1
      else if strcasecmp_eq u ''k'' then Some 1000
      else if strcasecmp_eq u ''kb'' then Some 1024
      else if strcasecmp_eq u ''m'' then Some (1000 * 1000)
      else if strcasecmp_eq u ''mb'' then Some (1024 * 1024)
      else if strcasecmp_eq u ''g'' then Some (1000 * 1000 * 1000)
      else if strcasecmp_eq u ''gb'' then Some (1024 * 1024 * 1024)
      else None)"

text \<open>The value a digit string denotes.\<close>

fun dval :: "nat \<Rightarrow> string \<Rightarrow> nat" where
  "dval v [] = v"
| "dval v (c # cs) = dval (v * 10 + (chr_code c - 48)) cs"

definition strtoll_dec :: "bool \<Rightarrow> string \<Rightarrow> int" where
  "strtoll_dec neg ds =
     (if neg then max (- (2 ^ 63)) (- int (dval 0 ds)) else min (2 ^ 63 - 1) (int (dval 0 ds)))"

definition memtoll :: "string \<Rightarrow> (int \<times> bool) option" where
  "memtoll p =
     (let neg = (p \<noteq> [] \<and> hd p = CHR ''-'');
          p1 = (if neg then tl p else p);
          ds = takeWhile isdigit p1;
          u = dropWhile isdigit p1
      in case memtoll_unit u of
           None \<Rightarrow> Some (0, True)
         | Some mul \<Rightarrow>
             if length ds + (if neg then 1 else 0) \<ge> 128 then Some (0, True)
             else if neg \<and> ds = [] then Some (0, True)
             else
               (let v = strtoll_dec neg ds * mul
                in if int64 v then Some (v, False) else None))"

definition pathIsBaseName :: "string \<Rightarrow> bool" where
  "pathIsBaseName path \<longleftrightarrow> CHR ''/'' \<notin> set path \<and> CHR 0x5C \<notin> set path"

declare ll2string_loop.simps [simp del] sdsll2str_digits.simps [simp del] reverse_loop.simps [simp del]

section \<open>Decimal notation: length and digits\<close>

lemma chr_code_less: "chr_code c < 256"
proof -
  have "chr_code c mod 256 < 256" by (rule mod_less_divisor) simp
  then show ?thesis by (simp only: of_char_mod_256)
qed

lemma digit_char_code: "d < 10 \<Longrightarrow> chr_code (digit_char d) = 48 + d"
  by (simp add: digit_char_def)

lemma dec_nat_nonempty [simp]: "dec_nat n \<noteq> []"
  by (subst dec_nat.simps) simp

lemma dec_nat_digits: "c \<in> set (dec_nat n) \<Longrightarrow> isdigit c"
proof (induction n rule: dec_nat.induct)
  case (1 n)
  then show ?case
    by (subst (asm) dec_nat.simps) (auto split: if_splits simp: isdigit_def digit_char_code)
qed

lemma length_dec_nat: "0 < k \<Longrightarrow> length (dec_nat n) \<le> k \<longleftrightarrow> n < 10 ^ k"
proof (induction n arbitrary: k rule: dec_nat.induct)
  case (1 n)
  show ?case
  proof (cases "n < 10")
    case True
    have "(10::nat) ^ 1 \<le> 10 ^ k" using "1.prems" by (intro power_increasing) auto
    with True "1.prems" show ?thesis by (subst dec_nat.simps) auto
  next
    case False
    show ?thesis
    proof (cases "k = 1")
      case True
      then show ?thesis using False by (subst dec_nat.simps) (simp add: Suc_le_eq)
    next
      case k: False
      with "1.prems" obtain j where j: "k = Suc j" "0 < j" by (cases k) auto
      have "length (dec_nat n) \<le> k \<longleftrightarrow> length (dec_nat (n div 10)) \<le> j"
        using False j by (subst dec_nat.simps) simp
      also have "\<dots> \<longleftrightarrow> n div 10 < 10 ^ j" using "1.IH" [OF False j(2)] .
      also have "\<dots> \<longleftrightarrow> n < 10 ^ k" using j by (simp add: div_less_iff_less_mult mult.commute)
      finally show ?thesis .
    qed
  qed
qed

lemma length_dec_nat_eq:
  assumes "10 ^ k \<le> n" "n < 10 ^ Suc k" "0 < k"
  shows "length (dec_nat n) = Suc k"
proof (rule antisym)
  show "length (dec_nat n) \<le> Suc k" using length_dec_nat [of "Suc k" n] assms(2) by simp
  have "\<not> length (dec_nat n) \<le> k" using length_dec_nat [OF assms(3), of n] assms(1) by simp
  then show "Suc k \<le> length (dec_nat n)" by simp
qed

lemma length_dec_nat_div: "length (dec_nat (n * 10 ^ k + r)) = length (dec_nat n) + k"
  if "r < 10 ^ k" "0 < n"
  using that
proof (induction k arbitrary: r)
  case 0
  then show ?case by simp
next
  case (Suc k)
  let ?m = "n * 10 ^ Suc k + r"
  have "1 \<le> n * 10 ^ k" using Suc.prems(2) by (simp add: Suc_le_eq)
  then have "10 * 1 \<le> 10 * (n * 10 ^ k)" by (rule mult_le_mono2)
  then have "10 \<le> ?m" by (simp only: power_Suc mult.left_commute)
  then have "length (dec_nat ?m) = Suc (length (dec_nat (?m div 10)))"
    by (subst dec_nat.simps) simp
  also have "?m div 10 = n * 10 ^ k + r div 10" by (simp add: div_add1_eq)
  finally show ?case using Suc.IH [of "r div 10"] Suc.prems by simp
qed

lemma digits10_small:
  assumes "v < 1000000000000"
  shows "digits10 v = length (dec_nat v)"
proof (cases "v < 10")
  case True
  then show ?thesis by (simp add: digits10.simps dec_nat.simps [of v])
next
  case False
  then have "\<exists>k\<in>{1,2,3,4,5,6,7,8,9,10,11}. 10 ^ k \<le> v \<and> v < 10 ^ Suc k"
    using assms by (simp; linarith)
  then obtain k where k: "k \<in> {1,2,3,4,5,6,7,8,9,10,11}" "10 ^ k \<le> v" "v < 10 ^ Suc k" by blast
  then have "length (dec_nat v) = Suc k" by (intro length_dec_nat_eq) auto
  with k show ?thesis by (auto simp: digits10.simps [of v])
qed

lemma digits10_dec_nat: "digits10 v = length (dec_nat v)"
proof (induction v rule: digits10.induct)
  case (1 v)
  show ?case
  proof (cases "v < 1000000000000")
    case True
    then show ?thesis by (rule digits10_small)
  next
    case False
    let ?q = "v div 10 ^ 12" and ?r = "v mod 10 ^ 12"
    have "digits10 v = 12 + digits10 ?q" using False by (subst digits10.simps) simp
    also have "digits10 ?q = length (dec_nat ?q)"
      using "1.IH" False by simp
    also have "12 + length (dec_nat ?q) = length (dec_nat (?q * 10 ^ 12 + ?r))"
      using False by (subst length_dec_nat_div) (auto simp: div_greater_zero_iff)
    finally show ?thesis by (simp only: div_mult_mod_eq)
  qed
qed

section \<open>\<open>ll2string\<close>\<close>

lemma digits_table_entry:
  assumes "i < 100"
  shows "cell_get digits_table (2 * i) = Some (digit_char (i div 10))
    \<and> cell_get digits_table (Suc (2 * i)) = Some (digit_char (i mod 10))"
proof -
  have "\<forall>i \<in> set [0..<100]. cell_get digits_table (2 * i) = Some (digit_char (i div 10))
      \<and> cell_get digits_table (Suc (2 * i)) = Some (digit_char (i mod 10))"
    by code_simp
  then show ?thesis using assms by simp
qed

lemma dec_nat_two:
  assumes "10 \<le> v"
  shows "dec_nat v = (if v < 100 then [] else dec_nat (v div 100))
    @ [digit_char (v mod 100 div 10), digit_char (v mod 100 mod 10)]"
proof -
  have "dec_nat v = dec_nat (v div 10) @ [digit_char (v mod 10)]"
    using assms by (subst dec_nat.simps) simp
  moreover have "v mod 100 mod 10 = v mod 10" by (simp add: mod_mod_cancel)
  moreover have "v mod 100 div 10 = v div 10 mod 10"
    using div_mult_mod_eq [of v 100] by (simp add: mod_mult2_eq [of v 10 10, simplified])
  moreover have "dec_nat (v div 10) = (if v < 100 then [] else dec_nat (v div 100)) @ [digit_char (v div 10 mod 10)]"
    by (subst dec_nat.simps) (auto simp: div_mult2_eq [symmetric])
  ultimately show ?thesis by simp
qed

lemma buf_set_nat: "i < length b \<Longrightarrow> buf_set b (int i) c = Some (b[i := c])"
  by (simp add: buf_set_def)

lemma buf_set_two:
  assumes "2 \<le> m" "m \<le> length b"
  shows "Option.bind (buf_set b (int m - 1) c1) (\<lambda>d. Option.bind (buf_set d (int m - 2) c0) f)
    = f (take (m - 2) b @ [c0, c1] @ drop m b)"
proof -
  have i: "int m - 1 = int (m - 1)" "int m - 2 = int (m - 2)" using assms by auto
  have "b[m - 1 := c1, m - 2 := c0] = take (m - 2) b @ [c0, c1] @ drop m b"
    using assms by (intro nth_equalityI) (auto simp: nth_list_update nth_append nth_Cons' min_def)
  then show ?thesis using assms unfolding i by (simp add: buf_set_nat del: of_nat_diff)
qed

lemma ll2string_loop_step:
  assumes "100 \<le> v" "2 \<le> m" "m \<le> length b"
  shows "ll2string_loop b (int m - 1) v = ll2string_loop
    (take (m - 2) b @ [digit_char (v mod 100 div 10), digit_char (v mod 100 mod 10)] @ drop m b) (int m - 3) (v div 100)"
proof -
  have "ll2string_loop b (int m - 1) v = Option.bind (buf_set b (int m - 1) (digit_char (v mod 100 mod 10)))
      (\<lambda>d. Option.bind (buf_set d (int m - 2) (digit_char (v mod 100 div 10))) (\<lambda>d. ll2string_loop d (int m - 3) (v div 100)))"
    using assms(1) digits_table_entry [of "v mod 100"]
    by (subst ll2string_loop.simps) (simp add: mult.commute [of _ 2] Let_def)
  then show ?thesis using buf_set_two [OF assms(2,3)] by simp
qed

lemma ll2string_loop_last:
  assumes "v < 100" "length (dec_nat v) \<le> m" "m \<le> length b"
  shows "ll2string_loop b (int m - 1) v = Some (take (m - length (dec_nat v)) b @ dec_nat v @ drop m b)"
proof (cases "v < 10")
  case True
  have m: "int m - 1 = int (m - 1)" "m - 1 < length b" "Suc (m - 1) = m"
    using assms True by (auto simp: dec_nat.simps [of v])
  have "ll2string_loop b (int m - 1) v = Some (b[m - 1 := digit_char v])"
    using True buf_set_nat [OF m(2)] unfolding m(1) by (subst ll2string_loop.simps) (simp add: digit_char_def del: of_nat_diff)
  then show ?thesis using True m(2,3) by (simp add: dec_nat.simps [of v] upd_conv_take_nth_drop)
next
  case False
  then have d: "dec_nat v = [digit_char (v div 10), digit_char (v mod 10)]" using dec_nat_two [of v] assms(1) by simp
  then have "2 \<le> m" using assms(2) by simp
  moreover have "ll2string_loop b (int m - 1) v = Option.bind (buf_set b (int m - 1) (digit_char (v mod 10)))
      (\<lambda>d. Option.bind (buf_set d (int m - 2) (digit_char (v div 10))) Some)"
    using assms(1) False digits_table_entry [of v]
    by (subst ll2string_loop.simps) (simp add: mult.commute [of _ 2] Let_def)
  ultimately show ?thesis using buf_set_two [of m b _ _ Some] assms(3) d by (simp add: numeral_2_eq_2)
qed

lemma ll2string_loop_writes:
  assumes "length (dec_nat v) \<le> m" "m \<le> length b"
  shows "ll2string_loop b (int m - 1) v = Some (take (m - length (dec_nat v)) b @ dec_nat v @ drop m b)"
  using assms
proof (induction v arbitrary: b m rule: less_induct)
  case (less v)
  show ?case
  proof (cases "v < 100")
    case True
    then show ?thesis using less.prems by (rule ll2string_loop_last)
  next
    case False
    let ?w = "v div 100" and ?d = "[digit_char (v mod 100 div 10), digit_char (v mod 100 mod 10)]"
    let ?b = "take (m - 2) b @ ?d @ drop m b"
    have d: "dec_nat v = dec_nat ?w @ ?d" using dec_nat_two [of v] False by simp
    have l: "length (dec_nat v) = length (dec_nat ?w) + 2" unfolding d by simp
    have m: "2 \<le> m" "length (dec_nat ?w) \<le> m - 2" using less.prems(1) unfolding l by linarith+
    have mb: "m - 2 \<le> length ?b" using less.prems(2) by simp
    have i: "int m - 3 = int (m - 2) - 1" using m(1) by linarith
    have "ll2string_loop b (int m - 1) v = ll2string_loop ?b (int (m - 2) - 1) ?w"
      unfolding i [symmetric] by (rule ll2string_loop_step) (use False m(1) less.prems(2) in linarith)+
    also have "\<dots> = Some (take (m - 2 - length (dec_nat ?w)) ?b @ dec_nat ?w @ drop (m - 2) ?b)"
      by (rule less.IH [OF _ m(2) mb]) (use False in linarith)
    also have "take (m - 2 - length (dec_nat ?w)) ?b = take (m - length (dec_nat v)) b"
      unfolding l using less.prems(2) by simp
    also have "drop (m - 2) ?b = ?d @ drop m b" using less.prems(2) by simp
    finally show ?thesis by (simp only: d append_assoc)
  qed
qed

lemma ll_abs_eq: "ll_abs v = nat (abs v)"
  by (simp add: ll_abs_def)

lemma length_dec_int: "length (dec_int v) = digits10 (ll_abs v) + (if v < 0 then 1 else 0)"
  by (simp add: dec_int_def digits10_dec_nat ll_abs_eq)

lemma ll2string_spec:
  "ll2string dst v = (if length (dec_int v) \<ge> length dst then Some (dst, 0)
     else Some (dec_int v @ NUL # drop (Suc (length (dec_int v))) dst, length (dec_int v)))"
proof (cases "length (dec_int v) \<ge> length dst")
  case True
  then show ?thesis by (simp add: ll2string_def Let_def length_dec_int)
next
  case False
  let ?L = "length (dec_int v)" and ?n = "dec_nat (ll_abs v)"
  have L: "?L < length dst" "length ?n \<le> ?L" and Lv: "?L = digits10 (ll_abs v) + (if v < 0 then 1 else 0)"
    using False length_dec_int [of v] by (auto simp: digits10_dec_nat)
  have b: "buf_set dst (int ?L) NUL = Some (dst[?L := NUL])" using L(1) by (rule buf_set_nat)
  have l: "ll2string_loop (dst[?L := NUL]) (int ?L - 1) (ll_abs v)
      = Some (take (?L - length ?n) dst @ ?n @ NUL # drop (Suc ?L) dst)"
    using ll2string_loop_writes [of "ll_abs v" ?L "dst[?L := NUL]"] L
    by (simp add: drop_update_cancel Cons_nth_drop_Suc [symmetric])
  have e: "ll2string dst v = do { d3 \<leftarrow> (if v < 0 then buf_set (take (?L - length ?n) dst @ ?n @ NUL # drop (Suc ?L) dst) 0 (CHR ''-'')
      else Some (take (?L - length ?n) dst @ ?n @ NUL # drop (Suc ?L) dst)); Some (d3, ?L) }"
    unfolding ll2string_def Let_def Lv [symmetric] using L(1) by (simp add: b l)
  show ?thesis
  proof (cases "v < 0")
    case True
    then have "?L - length ?n = 1" "dec_int v = CHR ''-'' # ?n" using Lv by (auto simp: digits10_dec_nat dec_int_def ll_abs_eq)
    moreover obtain c cs where "dst = c # cs" using L by (cases dst) auto
    ultimately show ?thesis using True False e by (simp add: buf_set_def)
  next
    case nn: False
    then have "?L - length ?n = 0" "dec_int v = ?n" using Lv by (auto simp: digits10_dec_nat dec_int_def ll_abs_eq)
    then show ?thesis using nn False e by simp
  qed
qed

section \<open>\<open>string2ll\<close>\<close>

lemma dval_append: "dval v (xs @ ys) = dval (dval v xs) ys"
  by (induction v xs rule: dval.induct) auto

lemma dval_ge: "v \<le> dval v cs"
proof (induction v cs rule: dval.induct)
  case (2 v c cs)
  have "v \<le> v * 10 + (chr_code c - 48)" by simp
  then show ?case using 2 by simp
qed simp

lemma dval_dec_nat: "dval 0 (dec_nat n) = n"
proof (induction n rule: dec_nat.induct)
  case (1 n)
  then show ?case
    by (subst dec_nat.simps) (auto simp: dval_append digit_char_code)
qed

lemma digit_char_of_code: "isdigit c \<Longrightarrow> digit_char (chr_code c - 48) = c"
  by (simp add: isdigit_def digit_char_def)

lemma chr_code_zero: "chr_code c = 48 \<longleftrightarrow> c = CHR ''0''"
proof
  assume "chr_code c = 48"
  then have "chr_code c = chr_code (CHR ''0'')" by simp
  then show "c = CHR ''0''" by (simp only: of_char_eq_iff)
qed simp

lemma isdigit_nonzero:
  "isdigit c \<Longrightarrow> 0 < chr_code c - 48 \<longleftrightarrow> c \<noteq> CHR ''0''"
  using chr_code_zero [of c] by (auto simp: isdigit_def)

lemma isdigit_nonzero_range:
  "49 \<le> chr_code c \<and> chr_code c \<le> 57 \<longleftrightarrow> isdigit c \<and> c \<noteq> CHR ''0''"
  using chr_code_zero [of c] by (auto simp: isdigit_def)

lemma dec_nat_dval:
  assumes "cs \<noteq> []" "list_all isdigit cs" "hd cs \<noteq> CHR ''0''"
  shows "dec_nat (dval 0 cs) = cs \<and> 0 < dval 0 cs"
  using assms
proof (induction cs rule: rev_induct)
  case (snoc c cs)
  let ?d = "chr_code c - 48"
  have d: "isdigit c" "?d < 10" using snoc.prems by (auto simp: isdigit_def)
  show ?case
  proof (cases "cs = []")
    case True
    have "0 < ?d" using snoc.prems(3) True isdigit_nonzero [OF d(1)] by simp
    then show ?thesis using True d by (simp add: dec_nat.simps [of ?d] digit_char_of_code)
  next
    case False
    then have ih: "dec_nat (dval 0 cs) = cs" "0 < dval 0 cs" using snoc by (auto simp: hd_append)
    have "dec_nat (dval 0 cs * 10 + ?d) = dec_nat (dval 0 cs) @ [digit_char ?d]"
      using d(2) ih(2) by (subst dec_nat.simps) simp
    then show ?thesis using ih d by (simp add: dval_append digit_char_of_code)
  qed
qed simp

lemma string2ll_loop_spec:
  assumes "v \<le> ULLONG_MAX"
  shows "string2ll_loop v cs = Some (w, []) \<longleftrightarrow> list_all isdigit cs \<and> w = dval v cs \<and> w \<le> ULLONG_MAX"
  using assms
proof (induction v cs rule: string2ll_loop.induct)
  case (2 v c cs)
  define d where "d = chr_code c - 48"
  have g: "v * 10 + d \<le> dval (v * 10 + d) cs" by (rule dval_ge)
  have dmax: "d \<le> 255 - 48" using chr_code_less [of c] unfolding d_def by linarith
  consider "\<not> isdigit c" | "isdigit c" "v * 10 + d \<le> ULLONG_MAX" | "isdigit c" "ULLONG_MAX < v * 10 + d"
    by linarith
  then show ?case
  proof cases
    case 1
    then show ?thesis by simp
  next
    case 2
    then have l: "v * 10 \<le> ULLONG_MAX - d" "\<not> v > ULLONG_MAX div 10"
      by (auto simp: not_less less_eq_div_iff_mult_less_eq)
    then have "(string2ll_loop (v * 10 + d) cs = Some (w, [])) =
        (list_all isdigit cs \<and> w = dval (v * 10 + d) cs \<and> w \<le> ULLONG_MAX)"
      using "2.IH" [OF 2(1)] 2(2) by (simp add: d_def not_less)
    moreover have "string2ll_loop v (c # cs) = string2ll_loop (v * 10 + d) cs"
      using 2(1) l by (simp add: d_def [symmetric])
    ultimately show ?thesis using 2(1) by (simp add: d_def [symmetric])
  next
    case 3
    have "ULLONG_MAX - d < v * 10" if "\<not> v > ULLONG_MAX div 10" using 3 dmax by (simp add: ULLONG_MAX_def)
    then have "string2ll_loop v (c # cs) = None"
      by (simp only: string2ll_loop.simps Let_def d_def [symmetric] 3(1)) simp
    then show ?thesis using g 3(2) by (simp add: d_def [symmetric])
  qed
qed auto

lemma ll_range:
  "w \<le> ULLONG_MAX \<and> (if neg then w \<le> 2 ^ 63 \<and> x = - int w else w \<le> 2 ^ 63 - 1 \<and> x = int w)
    \<longleftrightarrow> int64 x \<and> x = (if neg then - int w else int w)"
proof -
  have "w \<le> 2 ^ 63 \<longleftrightarrow> int64 (- int w)" "w \<le> 2 ^ 63 - 1 \<longleftrightarrow> int64 (int w)"
    unfolding int64_def by (simp; linarith)+
  moreover have "w \<le> 2 ^ 63 \<Longrightarrow> w \<le> ULLONG_MAX" "w \<le> 2 ^ 63 - 1 \<Longrightarrow> w \<le> ULLONG_MAX"
    by (simp_all add: ULLONG_MAX_def)
  ultimately show ?thesis by auto
qed

lemma string2ll_body:
  assumes "p = (if hd s = CHR ''-'' then tl s else s)" "s \<noteq> []" "s \<noteq> ''0''"
  shows "string2ll s = Some x \<longleftrightarrow>
    p \<noteq> [] \<and> list_all isdigit p \<and> hd p \<noteq> CHR ''0'' \<and> int64 x \<and>
    x = (if hd s = CHR ''-'' then - int (dval 0 p) else int (dval 0 p))"
proof -
  have ns: "\<not> (length s = 1 \<and> hd s = CHR ''0'')" using assms by (cases s) auto
  show ?thesis
  proof (cases p)
    case Nil
    then show ?thesis using assms(2) ns unfolding string2ll_def Let_def assms(1) [symmetric] by auto
  next
    case (Cons c cs)
    have nz: "\<not> (hd p = CHR ''0'' \<and> length s = 1)" using ns assms(1) Cons by (cases s) (auto split: if_splits)
    show ?thesis
    proof (cases "isdigit c \<and> c \<noteq> CHR ''0''")
      case False
      then have "string2ll s = None" using assms(2) ns nz Cons isdigit_nonzero_range [of c]
        unfolding string2ll_def Let_def assms(1) [symmetric] by auto
      then show ?thesis using False Cons by auto
    next
      case True
      let ?v = "chr_code c - 48"
      have v: "?v \<le> ULLONG_MAX" using True by (auto simp: isdigit_def ULLONG_MAX_def)
      have sp: "string2ll_loop ?v cs = Some (w, []) \<longleftrightarrow> list_all isdigit cs \<and> w = dval 0 p \<and> w \<le> ULLONG_MAX" for w
        using string2ll_loop_spec [OF v] Cons by simp
      have m: "2 ^ 63 - 1 + 1 = (2 ^ 63 :: nat)" "nat (2 ^ 63 - 1) = 2 ^ 63 - 1" by simp_all
      have e: "string2ll s = (case string2ll_loop ?v cs of None \<Rightarrow> None | Some (v, rest) \<Rightarrow>
          if rest \<noteq> [] then None
          else if hd s = CHR ''-'' then (if v > 2 ^ 63 then None else Some (- int v))
          else if v > 2 ^ 63 - 1 then None else Some (int v))"
        using assms(2) Cons True isdigit_nonzero_range [of c]
        unfolding string2ll_def Let_def assms(1) [symmetric] if_not_P [OF ns] m by simp
      have "string2ll s = Some x \<longleftrightarrow> (\<exists>w. string2ll_loop ?v cs = Some (w, []) \<and>
          (if hd s = CHR ''-'' then w \<le> 2 ^ 63 \<and> x = - int w else w \<le> 2 ^ 63 - 1 \<and> x = int w))"
        unfolding e by (cases "string2ll_loop ?v cs") (auto split: if_splits simp: not_less)
      also have "\<dots> \<longleftrightarrow> list_all isdigit cs \<and> (let w = dval 0 p in w \<le> ULLONG_MAX \<and>
          (if hd s = CHR ''-'' then w \<le> 2 ^ 63 \<and> x = - int w else w \<le> 2 ^ 63 - 1 \<and> x = int w))"
        unfolding sp Let_def by blast
      also have "\<dots> \<longleftrightarrow> list_all isdigit p \<and> int64 x \<and>
          x = (if hd s = CHR ''-'' then - int (dval 0 p) else int (dval 0 p))"
        unfolding Let_def ll_range using True Cons by simp
      finally show ?thesis using True Cons by auto
    qed
  qed
qed

lemma hd_dec_nat: "0 < n \<Longrightarrow> hd (dec_nat n) \<noteq> CHR ''0''"
proof (induction n rule: dec_nat.induct)
  case (1 n)
  then show ?case
    by (subst dec_nat.simps) (auto simp: hd_append isdigit_nonzero [symmetric] digit_char_code isdigit_def)
qed

lemma dec_int_zero: "''0'' = dec_int x \<longleftrightarrow> x = 0"
proof
  assume a: "''0'' = dec_int x"
  then have "0 \<le> x" by (auto simp: dec_int_def split: if_splits)
  then have "''0'' = dec_nat (nat x)" using a by (simp add: dec_int_def)
  then have "hd (dec_nat (nat x)) = CHR ''0''" by (metis list.sel(1))
  then show "x = 0" using hd_dec_nat [of "nat x"] \<open>0 \<le> x\<close> by fastforce
next
  assume "x = 0"
  then show "''0'' = dec_int x" using digit_char_of_code [of "CHR ''0''"]
    by (simp add: dec_int_def dec_nat.simps [of 0] isdigit_def)
qed

lemma dec_int_body:
  assumes "s \<noteq> []" "s \<noteq> ''0''"
  defines "p \<equiv> (if hd s = CHR ''-'' then tl s else s)"
  shows "(p \<noteq> [] \<and> list_all isdigit p \<and> hd p \<noteq> CHR ''0'' \<and>
      x = (if hd s = CHR ''-'' then - int (dval 0 p) else int (dval 0 p))) \<longleftrightarrow> s = dec_int x"
proof
  assume "p \<noteq> [] \<and> list_all isdigit p \<and> hd p \<noteq> CHR ''0'' \<and>
      x = (if hd s = CHR ''-'' then - int (dval 0 p) else int (dval 0 p))"
  moreover from this have "dec_nat (dval 0 p) = p" "0 < dval 0 p" using dec_nat_dval [of p] by auto
  ultimately show "s = dec_int x" using assms(1) by (cases s) (auto simp: dec_int_def p_def)
next
  assume s: "s = dec_int x"
  have "x \<noteq> 0" using s assms(2) dec_int_zero [of x] by metis
  let ?n = "nat (abs x)"
  have n: "0 < ?n" using \<open>x \<noteq> 0\<close> by simp
  have d: "list_all isdigit (dec_nat ?n)" by (simp add: list_all_iff dec_nat_digits)
  then have "hd (dec_nat ?n) \<noteq> CHR ''-''" using dec_nat_nonempty [of ?n]
    by (cases "dec_nat ?n") (auto simp: isdigit_def)
  then have "p = dec_nat ?n" "hd s = CHR ''-'' \<longleftrightarrow> x < 0"
    using s by (auto simp: p_def dec_int_def)
  then show "p \<noteq> [] \<and> list_all isdigit p \<and> hd p \<noteq> CHR ''0'' \<and>
      x = (if hd s = CHR ''-'' then - int (dval 0 p) else int (dval 0 p))"
    using d hd_dec_nat [OF n] by (simp add: dval_dec_nat)
qed

text \<open>The accepted strings are exactly the decimal notations of the \<open>long long\<close> values.\<close>

lemma string2ll_iff: "string2ll s = Some x \<longleftrightarrow> int64 x \<and> s = dec_int x"
proof -
  consider "s = []" | "s = ''0''" | "s \<noteq> []" "s \<noteq> ''0''" by blast
  then show ?thesis
  proof cases
    case 1
    then show ?thesis by (simp add: string2ll_def dec_int_def dec_nat_nonempty [THEN not_sym])
  next
    case 2
    then show ?thesis using dec_int_zero [of x] by (auto simp: string2ll_def int64_def)
  next
    case 3
    then show ?thesis using string2ll_body [OF refl 3, of x] dec_int_body [of s x] by blast
  qed
qed

section \<open>\<open>sdsll2str\<close>\<close>

lemma sdsll2str_digits_rev: "sdsll2str_digits v = rev (dec_nat v)"
proof (induction v rule: sdsll2str_digits.induct)
  case (1 v)
  show ?case
  proof (cases "v < 10")
    case True
    then show ?thesis by (subst sdsll2str_digits.simps, subst dec_nat.simps) (simp add: digit_char_def)
  next
    case False
    then have "v div 10 \<noteq> 0" by simp
    then show ?thesis using 1 False
      by (subst sdsll2str_digits.simps, subst dec_nat.simps) (simp add: digit_char_def Let_def)
  qed
qed

lemma reverse_loop_inner:
  "reverse_loop (pre @ b @ post) (length pre) (length pre + length b - 1) = pre @ rev b @ post"
proof (induction "length b" arbitrary: pre b post rule: less_induct)
  case less
  show ?case
  proof (cases "length b \<le> 1")
    case True
    then have "rev b = b" by (cases b) auto
    then show ?thesis using True by (subst reverse_loop.simps) auto
  next
    case False
    then obtain x m y where b: "b = x # m @ [y]"
      by (cases b; cases "tl b" rule: rev_cases) auto
    let ?p = "length pre + length b - 1"
    have "(pre @ b @ post) ! ?p = y" "(pre @ b @ post) ! length pre = x"
      by (simp_all add: b nth_append)
    then have "(pre @ b @ post)[length pre := (pre @ b @ post) ! ?p, ?p := (pre @ b @ post) ! length pre]
        = (pre @ [y]) @ m @ (x # post)"
      by (simp add: b list_update_append)
    then have "reverse_loop (pre @ b @ post) (length pre) ?p =
        reverse_loop ((pre @ [y]) @ m @ (x # post)) (length (pre @ [y])) (length (pre @ [y]) + length m - 1)"
      by (subst reverse_loop.simps) (simp add: b)
    also have "\<dots> = (pre @ [y]) @ rev m @ (x # post)" by (rule less) (simp add: b)
    finally show ?thesis by (simp add: b)
  qed
qed

lemma reverse_loop_rev: "reverse_loop b 0 (length b - 1) = rev b"
  using reverse_loop_inner [of "[]" b "[]"] by simp

lemma sdsull2str_spec: "sdsull2str v = dec_nat v"
  unfolding sdsull2str_def Let_def reverse_loop_rev sdsll2str_digits_rev by simp

lemma sdsll2str_spec: "sdsll2str v = (if v = - (2 ^ 63) then None else Some (dec_int v))"
  unfolding sdsll2str_def Let_def reverse_loop_rev sdsll2str_digits_rev dec_int_def by simp

section \<open>Sizes\<close>

lemma length_dec_int64: "int64 v \<Longrightarrow> length (dec_int v) \<le> 20"
proof -
  assume v: "int64 v"
  have "nat (abs v) < 10 ^ 19" using v by (auto simp: int64_def)
  then have "length (dec_nat (nat (abs v))) \<le> 19" by (subst length_dec_nat) auto
  then show ?thesis by (auto simp: dec_int_def split: if_splits)
qed

section \<open>Amounts of memory: lemmas\<close>

lemma memtoll_unit_table:
  "map_of [([], 1), (''b'', 1), (''k'', 1000), (''kb'', 1024), (''m'', 1000000), (''mb'', 1048576),
     (''g'', 1000000000), (''gb'', 1073741824)] (map tolower u) = memtoll_unit u"
proof -
  have lower: "map tolower ''b'' = ''b''" "map tolower ''k'' = ''k''" "map tolower ''kb'' = ''kb''" "map tolower ''m'' = ''m''"
    "map tolower ''mb'' = ''mb''" "map tolower ''g'' = ''g''" "map tolower ''gb'' = ''gb''" by code_simp+
  show ?thesis unfolding memtoll_unit_def strcasecmp_eq_def lower by (cases u) (simp_all add: eq_commute)
qed

section \<open>Properties\<close>

text \<open>C12. \<open>string2ll\<close> accepts exactly the canonical decimal notation of a \<open>long long\<close>: it
  succeeds with value \<open>x\<close> if and only if \<open>x\<close> fits in 64 bits and the string is \<open>x\<close> printed
  in decimal, so leading zeros, \<open>+\<close>, \<open>-0\<close>, spaces, trailing characters and every overflow are
  rejected and no two strings give the same number. On this platform \<open>string2l\<close> is the same
  function.\<close>

theorem string2ll_canonical:
  "(string2ll s = Some x \<longleftrightarrow> int64 x \<and> s = dec_int x) \<and> string2l s = string2ll s"
proof
  show "string2ll s = Some x \<longleftrightarrow> int64 x \<and> s = dec_int x" by (rule string2ll_iff)
  show "string2l s = string2ll s"
  proof (cases "string2ll s")
    case None
    then show ?thesis by (simp add: string2l_def)
  next
    case (Some y)
    then have "int64 y" by (simp only: string2ll_iff)
    then show ?thesis unfolding string2l_def Some int64_def by simp
  qed
qed

text \<open>C13. Printing and parsing are inverse. For every \<open>long long\<close> and every buffer of at least 21
  bytes, \<open>ll2string\<close> writes only inside the buffer, terminates the text with a NUL, returns its
  length, which is \<open>sdigits10\<close>, leaves the rest of the buffer alone, and \<open>string2ll\<close> reads the
  number back. \<open>sdsll2str\<close> produces the same text for every number but the least one, whose
  negation overflows there.\<close>

theorem ll2string_roundtrip:
  assumes "int64 v" "21 \<le> length dst"
  shows "\<exists>d. ll2string dst v = Some (d, sdigits10 v) \<and> d ! sdigits10 v = NUL \<and> length d = length dst \<and>
    drop (Suc (sdigits10 v)) d = drop (Suc (sdigits10 v)) dst \<and>
    string2ll (take (sdigits10 v) d) = Some v \<and>
    sdsll2str v = (if v = - (2 ^ 63) then None else Some (take (sdigits10 v) d))"
proof -
  have n: "sdigits10 v = length (dec_int v)" by (simp add: sdigits10_def length_dec_int)
  have l: "length (dec_int v) < length dst" using length_dec_int64 [OF assms(1)] assms(2) by simp
  then have "ll2string dst v = Some (dec_int v @ NUL # drop (Suc (length (dec_int v))) dst, length (dec_int v))"
    by (simp add: ll2string_spec)
  then show ?thesis unfolding n using l assms(1) by (simp add: string2ll_iff sdsll2str_spec)
qed

theorem ll2string_roundtrip_witness:
  "int64 (- 1234567) \<and> (\<exists>d. ll2string (replicate 32 NUL) (- 1234567) = Some (d, 8) \<and> string2ll (take 8 d) = Some (- 1234567))"
proof -
  have v: "int64 (- 1234567)" by (simp add: int64_def)
  have e: "sdigits10 (- 1234567) = 8" by (simp add: sdigits10_def ll_abs_def digits10.simps)
  have l: "21 \<le> length (replicate 32 NUL)" by (simp only: length_replicate)
  show ?thesis using ll2string_roundtrip [OF v l] v unfolding e by blast
qed

text \<open>C33. \<open>memtoll\<close> on a decimal number that fits in a \<open>long long\<close> followed by a unit, in any
  case of its letters: nothing and \<open>b\<close> stand for bytes, \<open>k\<close>, \<open>m\<close>, \<open>g\<close> for powers of 1000 and
  \<open>kb\<close>, \<open>mb\<close>, \<open>gb\<close> for powers of 1024, and the result is the number times the unit without
  error when the product fits. When it does not fit the multiplication overflows, which the function
  does not check. Any other text after the number is an error with the value 0.\<close>

theorem memtoll_amount:
  assumes "int64 v" "u = [] \<or> \<not> isdigit (hd u)"
  shows "memtoll (dec_int v @ u) =
    (case map_of [([], 1), (''b'', 1), (''k'', 1000), (''kb'', 1024), (''m'', 1000000), (''mb'', 1048576),
                  (''g'', 1000000000), (''gb'', 1073741824)] (map tolower u) of
       Some mul \<Rightarrow> if int64 (v * mul) then Some (v * mul, False) else None
     | None \<Rightarrow> Some (0, True))"
proof -
  let ?n = "dec_nat (nat (abs v))"
  have u: "map_of [([], 1), (''b'', 1), (''k'', 1000), (''kb'', 1024), (''m'', 1000000), (''mb'', 1048576),
    (''g'', 1000000000), (''gb'', 1073741824)] (map tolower u) = memtoll_unit u"
    by (rule memtoll_unit_table)
  have d: "list_all isdigit ?n" by (simp add: list_all_iff dec_nat_digits)
  have tw: "takeWhile isdigit (?n @ u) = ?n" "dropWhile isdigit (?n @ u) = u"
    using d assms(2) by (cases u; force simp: list_all_iff takeWhile_append dropWhile_append)+
  have h: "hd (?n @ u) \<noteq> CHR ''-''" using d dec_nat_nonempty [of "nat (abs v)"]
    by (cases ?n) (auto simp: isdigit_def)
  have l: "length (dec_int v) < 128" using length_dec_int64 [OF assms(1)] by simp
  have s: "strtoll_dec (v < 0) ?n = v"
    using assms(1) by (auto simp: strtoll_dec_def dval_dec_nat int64_def)
  show ?thesis unfolding u
  proof (cases "v < 0")
    case True
    then have "dec_int v = CHR ''-'' # ?n" by (simp add: dec_int_def)
    then show "memtoll (dec_int v @ u) = (case memtoll_unit u of
        Some mul \<Rightarrow> if int64 (v * mul) then Some (v * mul, False) else None | None \<Rightarrow> Some (0, True))"
      using tw s l True by (simp add: memtoll_def Let_def split: option.split)
  next
    case False
    then have "dec_int v = ?n" by (simp add: dec_int_def)
    then show "memtoll (dec_int v @ u) = (case memtoll_unit u of
        Some mul \<Rightarrow> if int64 (v * mul) then Some (v * mul, False) else None | None \<Rightarrow> Some (0, True))"
      using tw h s l False by (simp add: memtoll_def Let_def split: option.split)
  qed
qed

theorem memtoll_amount_witness:
  "memtoll (dec_int 3 @ ''GB'') = Some (3221225472, False) \<and> memtoll (dec_int (- 5) @ ''Mb'') = Some (- 5242880, False) \<and>
   memtoll (dec_int 3 @ ''tb'') = Some (0, True)"
proof -
  have v: "int64 3" "int64 (- 5)" "int64 3221225472" "int64 (- 5242880)" by (simp_all add: int64_def)
  have u: "map tolower ''GB'' = ''gb''" "map tolower ''Mb'' = ''mb''" "map tolower ''tb'' = ''tb''"
    "\<not> isdigit (hd ''GB'')" "\<not> isdigit (hd ''Mb'')" "\<not> isdigit (hd ''tb'')" by code_simp+
  show ?thesis
    using memtoll_amount [OF v(1), of "''GB''"] memtoll_amount [OF v(2), of "''Mb''"] memtoll_amount [OF v(1), of "''tb''"]
      u(4-6) v unfolding u by simp
qed

end
