(* ===== verification/Glob.thy ===== *)
theory Glob
  imports Util
begin

text \<open>
  Glob-style pattern matching, \<open>stringmatchlen\<close> of \<open>src/redis-stable/src/util.c\<close>, with
  every read of the pattern and of the string checked. The matcher is compared with a reference
  semantics that first splits the pattern into tokens.
\<close>

section \<open>Glob-style matching\<close>

text \<open>
  \<open>pattern\<close> is the list of the characters left before its terminating NUL. \<open>string\<close> is
  \<^term>\<open>Some s\<close> with the characters left before its NUL, or \<^term>\<open>None\<close> once the
  pointer has moved past the NUL, where every further read or increment leaves the buffer.
\<close>

text \<open>A \<open>char\<close> read into an \<open>int\<close>: \<open>char\<close> is signed.\<close>

definition schar :: "char \<Rightarrow> int" where
  "schar c = (if chr_code c < 128 then int (chr_code c) else int (chr_code c) - 256)"

fun cur_hd :: "string option \<Rightarrow> char option" where
  "cur_hd None = None"
| "cur_hd (Some []) = Some NUL"
| "cur_hd (Some (c # s)) = Some c"

fun cur_tl :: "string option \<Rightarrow> string option option" where
  "cur_tl None = None"
| "cur_tl (Some []) = Some None"
| "cur_tl (Some (c # s)) = Some (Some s)"

definition chr_same :: "bool \<Rightarrow> char \<Rightarrow> char \<Rightarrow> bool" where
  "chr_same nocase x y \<longleftrightarrow> (if nocase then tolower x = tolower y else x = y)"

definition chr_between :: "bool \<Rightarrow> char \<Rightarrow> char \<Rightarrow> char \<Rightarrow> bool" where
  "chr_between nocase a b ch =
     (let (start, stop) = (if schar a > schar b then (b, a) else (a, b));
          low = (if nocase then tolower else id)
      in schar (low ch) \<ge> schar (low start) \<and> schar (low ch) \<le> schar (low stop))"

text \<open>The loop over a \<open>[\<dots>]\<close> class: the flag \<open>match\<close> and the pattern after the class.
  The first argument is the current character of the string.\<close>

fun class_loop :: "bool \<Rightarrow> char option \<Rightarrow> string \<Rightarrow> bool \<Rightarrow> (bool \<times> string) option" where
  "class_loop nocase c [] m = Some (m, [])"
| "class_loop nocase c (x # p) m =
     (if x = CHR 0x5C then
        (case p of
           [] \<Rightarrow> None
         | y # p' \<Rightarrow> do { ch \<leftarrow> c; class_loop nocase c p' (m \<or> y = ch) })
      else if x = CHR '']'' then Some (m, p)
      else
        (case p of
           d # e # p' \<Rightarrow>
             if d = CHR ''-'' then
               do { ch \<leftarrow> c; class_loop nocase c p' (m \<or> chr_between nocase x e ch) }
             else do { ch \<leftarrow> c; class_loop nocase c p (m \<or> chr_same nocase x ch) }
         | _ \<Rightarrow> do { ch \<leftarrow> c; class_loop nocase c p (m \<or> chr_same nocase x ch) }))"

text \<open>The whole \<open>case '['\<close> after the bracket: negation included.\<close>

definition class_match :: "bool \<Rightarrow> char option \<Rightarrow> string \<Rightarrow> (bool \<times> string) option" where
  "class_match nocase c p =
     (let neg = (p \<noteq> [] \<and> hd p = CHR ''^'')
      in do {
        (m, rest) \<leftarrow> class_loop nocase c (if neg then tl p else p) False;
        Some (if neg then \<not> m else m, rest)
      })"

datatype citem = CEsc char | CRange char char | CChar char

text \<open>The items of a class; a lone backslash at the end of the pattern is none.\<close>

definition class_item :: "char \<Rightarrow> string \<Rightarrow> (citem \<times> string) option" where
  "class_item x p =
     (if x = CHR 0x5C then (case p of [] \<Rightarrow> None | y # p' \<Rightarrow> Some (CEsc y, p'))
      else
        (case p of
           d # e # p' \<Rightarrow> if d = CHR ''-'' then Some (CRange x e, p') else Some (CChar x, p)
         | _ \<Rightarrow> Some (CChar x, p)))"

fun citem_match :: "bool \<Rightarrow> char \<Rightarrow> citem \<Rightarrow> bool" where
  "citem_match nc ch (CEsc y) \<longleftrightarrow> y = ch"
| "citem_match nc ch (CRange a b) \<longleftrightarrow> chr_between nc a b ch"
| "citem_match nc ch (CChar x) \<longleftrightarrow> chr_same nc x ch"

lemma class_item_rest: "class_item x p = Some (i, q) \<Longrightarrow> length q \<le> length p"
  by (auto simp: class_item_def split: if_splits list.splits)

lemma class_loop_item:
  "class_loop nc c (x # p) m =
     (if x = CHR '']'' then Some (m, p)
      else (case class_item x p of None \<Rightarrow> None
            | Some (i, p') \<Rightarrow> do { ch \<leftarrow> c; class_loop nc c p' (m \<or> citem_match nc ch i) }))"
  unfolding class_loop.simps(2) class_item_def by (simp split: list.split)

declare class_loop.simps(2) [simp del]

lemma class_loop_rest: "class_loop nc c p m = Some (r, q) \<Longrightarrow> length q \<le> length p"
proof (induction "length p" arbitrary: p m rule: less_induct)
  case less
  show ?case
  proof (cases p)
    case (Cons x p')
    show ?thesis
    proof (cases "x = CHR '']''")
      case True
      then show ?thesis using Cons less.prems by (simp add: class_loop_item)
    next
      case False
      then obtain i w ch where w: "class_item x p' = Some (i, w)" "class_loop nc c w (m \<or> citem_match nc ch i) = Some (r, q)"
        using less.prems unfolding Cons class_loop_item by (auto split: option.splits simp: bind_eq_Some_conv)
      show ?thesis using less.hyps [OF _ w(2)] class_item_rest [OF w(1)] Cons by simp
    qed
  qed (use less.prems in simp)
qed

lemma class_match_rest: "class_match nc c p = Some (r, q) \<Longrightarrow> length q \<le> length p"
  by (auto simp: class_match_def Let_def bind_eq_Some_conv simp del: class_loop.simps split: if_splits dest!: class_loop_rest)

text \<open>One turn of the \<open>switch\<close> for every case but the star: \<^term>\<open>Some None\<close> is
  \<open>return 0\<close>, \<^term>\<open>Some (Some (p, s))\<close> the pattern and string after the turn.\<close>

definition glob_step :: "bool \<Rightarrow> char \<Rightarrow> string \<Rightarrow> string option \<Rightarrow> (string \<times> string option) option option" where
  "glob_step nocase x p str =
     (if x = CHR ''?'' then
        (if str = Some [] then Some None else do { str' \<leftarrow> cur_tl str; Some (Some (p, str')) })
      else if x = CHR ''['' then
        do {
          (m, rest) \<leftarrow> class_match nocase (cur_hd str) p;
          (if m then do { str' \<leftarrow> cur_tl str; Some (Some (rest, str')) } else Some None)
        }
      else
        (let (y, p') = (if x = CHR 0x5C \<and> p \<noteq> [] then (hd p, tl p) else (x, p))
         in do {
           ch \<leftarrow> cur_hd str;
           (if chr_same nocase y ch then do { str' \<leftarrow> cur_tl str; Some (Some (p', str')) } else Some None)
         }))"

lemma glob_step_rest: "glob_step nc x p str = Some (Some (q, str')) \<Longrightarrow> length q \<le> length p"
  by (auto simp: glob_step_def Let_def bind_eq_Some_conv split: if_splits prod.splits dest!: class_match_rest)

definition skip_stars :: "string \<Rightarrow> string" where
  "skip_stars p = dropWhile (\<lambda>c. c = CHR ''*'') p"

lemma length_skip_stars: "length (skip_stars p) \<le> length p"
  by (simp add: skip_stars_def length_dropWhile_le)

function (sequential) stringmatchlen :: "bool \<Rightarrow> string \<Rightarrow> string option \<Rightarrow> bool option"
  and stringmatch_star :: "bool \<Rightarrow> string \<Rightarrow> string option \<Rightarrow> bool option" where
  "stringmatchlen nocase [] str = Some (str = Some [])"
| "stringmatchlen nocase (x # p) str =
     (if x = CHR ''*'' then
        (if skip_stars p = [] then Some True else stringmatch_star nocase (skip_stars p) str)
      else
        (case glob_step nocase x p str of
           None \<Rightarrow> None
         | Some None \<Rightarrow> Some False
         | Some (Some (p', str')) \<Rightarrow>
             if str' = Some [] then Some (skip_stars p' = []) else stringmatchlen nocase p' str'))"
| "stringmatch_star nocase q str =
     (if str = Some [] then Some False
      else do {
        r \<leftarrow> stringmatchlen nocase q str;
        (if r then Some True else do { str' \<leftarrow> cur_tl str; stringmatch_star nocase q str' })
      })"
  by pat_completeness auto
termination
proof (relation "measures [\<lambda>a. case a of Inl (nc, p, s) \<Rightarrow> 2 * length p | Inr (nc, q, s) \<Rightarrow> 2 * length q + 1,
      \<lambda>a. case a of Inl (nc, p, s) \<Rightarrow> 0 | Inr (nc, q, s) \<Rightarrow> (case s of None \<Rightarrow> 0 | Some s \<Rightarrow> Suc (length s))]",
    goal_cases)
  case (2 nc x p str)
  then show ?case using length_skip_stars [of p] by simp
next
  case (3 nc x p str a ab ac ad)
  then show ?case using glob_step_rest [of nc x p str] by force
next
  case (5 nc q str r str')
  then show ?case by (cases str rule: cur_tl.cases) auto
qed auto

declare stringmatchlen.simps [simp del] stringmatch_star.simps [simp del]

section \<open>Reference semantics of glob patterns\<close>

datatype gtok = GStar | GAny | GClass bool "citem list" | GChar char

text \<open>The tokens of a pattern, \<^term>\<open>None\<close> if it ends in a backslash inside a class.\<close>

function citems :: "string \<Rightarrow> (citem list \<times> string) option" where
  "citems [] = Some ([], [])"
| "citems (x # p) =
     (if x = CHR '']'' then Some ([], p)
      else (case class_item x p of None \<Rightarrow> None
            | Some (i, p') \<Rightarrow> (case citems p' of None \<Rightarrow> None | Some (is, r) \<Rightarrow> Some (i # is, r))))"
  by pat_completeness auto
termination
  by (relation "measure length") (auto dest: class_item_rest simp: le_imp_less_Suc)

lemma citems_rest: "citems p = Some (is, q) \<Longrightarrow> length q \<le> length p"
proof (induction p arbitrary: "is" rule: citems.induct)
  case (2 x p)
  then show ?case by (auto split: if_splits option.splits dest: class_item_rest) (meson class_item_rest le_SucI le_trans)
qed simp

definition gclass :: "string \<Rightarrow> (gtok \<times> string) option" where
  "gclass p =
     (let neg = (p \<noteq> [] \<and> hd p = CHR ''^'')
      in case citems (if neg then tl p else p) of None \<Rightarrow> None
         | Some (is, r) \<Rightarrow> Some (GClass neg is, r))"

definition gtok :: "char \<Rightarrow> string \<Rightarrow> (gtok \<times> string) option" where
  "gtok x p =
     (if x = CHR ''*'' then Some (GStar, p)
      else if x = CHR ''?'' then Some (GAny, p)
      else if x = CHR ''['' then gclass p
      else if x = CHR 0x5C \<and> p \<noteq> [] then Some (GChar (hd p), tl p)
      else Some (GChar x, p))"

lemma gtok_rest: "gtok x p = Some (t, q) \<Longrightarrow> length q \<le> length p"
  by (auto simp: gtok_def gclass_def Let_def split: if_splits option.splits dest!: citems_rest)

function gtoks :: "string \<Rightarrow> gtok list option" where
  "gtoks [] = Some []"
| "gtoks (x # p) =
     (case gtok x p of None \<Rightarrow> None
      | Some (t, q) \<Rightarrow> (case gtoks q of None \<Rightarrow> None | Some ts \<Rightarrow> Some (t # ts)))"
  by pat_completeness auto
termination
  by (relation "measure length") (auto dest: gtok_rest simp: le_imp_less_Suc)

fun gtok_match :: "bool \<Rightarrow> gtok \<Rightarrow> char \<Rightarrow> bool" where
  "gtok_match nc GStar ch \<longleftrightarrow> True"
| "gtok_match nc GAny ch \<longleftrightarrow> True"
| "gtok_match nc (GClass neg is) ch \<longleftrightarrow> neg \<noteq> list_ex (citem_match nc ch) is"
| "gtok_match nc (GChar x) ch \<longleftrightarrow> chr_same nc x ch"

fun gmatch :: "bool \<Rightarrow> gtok list \<Rightarrow> string \<Rightarrow> bool" where
  "gmatch nc [] s \<longleftrightarrow> s = []"
| "gmatch nc (t # ts) s \<longleftrightarrow>
     (if t = GStar then list_ex (gmatch nc ts) (map (\<lambda>k. drop k s) [0..<Suc (length s)])
      else s \<noteq> [] \<and> gtok_match nc t (hd s) \<and> gmatch nc ts (tl s))"

lemma class_loop_items:
  "citems p = Some (is, q) \<Longrightarrow> class_loop nc (Some ch) p m = Some (m \<or> list_ex (citem_match nc ch) is, q)"
proof (induction p arbitrary: "is" m rule: citems.induct)
  case (2 x p)
  show ?case
  proof (cases "x = CHR '']''")
    case True
    then show ?thesis using "2.prems" by (simp add: class_loop_item)
  next
    case False
    then obtain i w js where w: "class_item x p = Some (i, w)" "citems w = Some (js, q)" "is = i # js"
      using "2.prems" by (auto split: option.splits)
    show ?thesis using "2.IH" [OF False w(1) refl w(2)] False w by (simp add: class_loop_item disj_assoc)
  qed
qed simp

lemma class_match_items:
  "gclass p = Some (t, q) \<Longrightarrow> class_match nc (Some ch) p = Some (gtok_match nc t ch, q)"
  by (auto simp: gclass_def class_match_def Let_def class_loop_items split: option.splits if_splits)

lemma glob_step_tok:
  assumes "gtok x p = Some (t, q)" "x \<noteq> CHR ''*''"
  shows "glob_step nc x p (Some (c # s)) = Some (if gtok_match nc t c then Some (q, Some s) else None)"
  using assms class_match_items [of p t q nc c] by (auto simp: gtok_def glob_step_def Let_def split: if_splits)

lemma gmatch_star: "gmatch nc (GStar # ts) s \<longleftrightarrow> (\<exists>k \<le> length s. gmatch nc ts (drop k s))"
  by (auto simp: list_ex_iff atLeastLessThanSuc_atLeastAtMost simp del: upt_Suc)

lemma gmatch_nil: "gmatch nc ts [] \<longleftrightarrow> list_all (\<lambda>t. t = GStar) ts"
  by (induction ts) auto

lemma gmatch_star_star: "gmatch nc (GStar # GStar # ts) s \<longleftrightarrow> gmatch nc (GStar # ts) s"
proof
  assume "gmatch nc (GStar # GStar # ts) s"
  then obtain k j where "k \<le> length s" "j \<le> length s - k" "gmatch nc ts (drop j (drop k s))"
    unfolding gmatch_star by auto
  then show "gmatch nc (GStar # ts) s" unfolding gmatch_star by (intro exI [of _ "j + k"]) auto
next
  assume "gmatch nc (GStar # ts) s"
  then show "gmatch nc (GStar # GStar # ts) s" by (subst gmatch_star) (auto intro!: exI [of _ 0])
qed

lemma gmatch_stars: "gmatch nc (GStar # replicate n GStar @ ts) s \<longleftrightarrow> gmatch nc (GStar # ts) s"
  by (induction n) (simp_all add: gmatch_star_star del: gmatch.simps)

lemma gtok_not_star: "gtok x p = Some (t, q) \<Longrightarrow> x \<noteq> CHR ''*'' \<Longrightarrow> t \<noteq> GStar"
  by (auto simp: gtok_def gclass_def Let_def split: if_splits option.splits)

text \<open>The stars in front of a pattern are the stars in front of its tokens.\<close>

lemma gtoks_skip_stars:
  assumes "gtoks p = Some ts"
  obtains n ts' where "ts = replicate n GStar @ ts'" "gtoks (skip_stars p) = Some ts'"
    "skip_stars p = [] \<longleftrightarrow> ts' = []" "ts' = [] \<or> hd ts' \<noteq> GStar"
  using assms
proof (induction p arbitrary: ts thesis)
  case Nil
  then show ?case by (intro Nil.prems(1) [of 0 "[]"]) (simp_all add: skip_stars_def)
next
  case (Cons x p)
  show ?case
  proof (cases "x = CHR ''*''")
    case True
    then obtain us where us: "gtoks p = Some us" "ts = GStar # us"
      using Cons.prems(2) by (auto simp: gtok_def split: option.splits)
    obtain n ts' where "us = replicate n GStar @ ts'" "gtoks (skip_stars p) = Some ts'"
      "skip_stars p = [] \<longleftrightarrow> ts' = []" "ts' = [] \<or> hd ts' \<noteq> GStar"
      using Cons.IH [OF _ us(1)] by blast
    then show ?thesis using True us by (intro Cons.prems(1) [of "Suc n" ts']) (simp_all add: skip_stars_def)
  next
    case False
    then have e: "skip_stars (x # p) = x # p" by (simp add: skip_stars_def)
    obtain t q us where "gtok x p = Some (t, q)" "ts = t # us"
      using Cons.prems(2) by (auto split: option.splits)
    then show ?thesis using Cons.prems e gtok_not_star [OF _ False] by (intro Cons.prems(1) [of 0 ts]) auto
  qed
qed

lemma skip_stars_match: "gtoks p = Some ts \<Longrightarrow> skip_stars p = [] \<longleftrightarrow> gmatch nc ts []"
  by (erule gtoks_skip_stars) (auto simp: gmatch_nil list_all_iff)

lemma ex_le_Suc: "(\<exists>k \<le> Suc n. P k) \<longleftrightarrow> P 0 \<or> (\<exists>k \<le> n. P (Suc k))"
proof
  assume "\<exists>k \<le> Suc n. P k"
  then obtain k where "k \<le> Suc n" "P k" by blast
  then show "P 0 \<or> (\<exists>k \<le> n. P (Suc k))" by (cases k) auto
qed auto

lemma stringmatch_star_matches:
  assumes "\<And>s. s \<noteq> [] \<Longrightarrow> stringmatchlen nc q (Some s) = Some (gmatch nc ts s)" "\<not> gmatch nc ts []"
  shows "stringmatch_star nc q (Some s) = Some (gmatch nc (GStar # ts) s)"
proof (induction s)
  case Nil
  then show ?case using assms(2) by (simp add: stringmatch_star.simps)
next
  case (Cons c s)
  have "gmatch nc (GStar # ts) (c # s) \<longleftrightarrow> gmatch nc ts (c # s) \<or> gmatch nc (GStar # ts) s"
    unfolding gmatch_star using ex_le_Suc [of "length s" "\<lambda>k. gmatch nc ts (drop k (c # s))"] by simp
  then show ?case using assms(1) [of "c # s"] Cons
    by (subst stringmatch_star.simps) (simp del: gmatch.simps)
qed

lemma stringmatchlen_matches:
  "gtoks p = Some ts \<Longrightarrow> s \<noteq> [] \<Longrightarrow> stringmatchlen nc p (Some s) = Some (gmatch nc ts s)"
proof (induction "length p" arbitrary: p ts s rule: less_induct)
  case less
  show ?case
  proof (cases p)
    case Nil
    then show ?thesis using less.prems by (simp add: stringmatchlen.simps)
  next
    case (Cons x p')
    then obtain t q us where t: "gtok x p' = Some (t, q)" "gtoks q = Some us" "ts = t # us"
      using less.prems(1) by (auto split: option.splits)
    show ?thesis
    proof (cases "x = CHR ''*''")
      case True
      then have q: "q = p'" "t = GStar" using t(1) by (simp_all add: gtok_def)
      obtain n ts' where n: "us = replicate n GStar @ ts'" "gtoks (skip_stars p') = Some ts'"
        "skip_stars p' = [] \<longleftrightarrow> ts' = []" "ts' = [] \<or> hd ts' \<noteq> GStar"
        using gtoks_skip_stars [OF t(2)] q by metis
      have g: "gmatch nc ts s \<longleftrightarrow> gmatch nc (GStar # ts') s" using t(3) q n(1) gmatch_stars by simp
      show ?thesis
      proof (cases "ts' = []")
        case True
        then show ?thesis using g n(3) \<open>x = _\<close> Cons gmatch_star [of nc "[]" s]
          by (auto simp: stringmatchlen.simps simp del: gmatch.simps(2))
      next
        case False
        have "\<not> gmatch nc ts' []" using False n(4) by (cases ts') (auto simp: gmatch_nil)
        moreover have "length (skip_stars p') < length p" using length_skip_stars [of p'] Cons by simp
        ultimately have "stringmatch_star nc (skip_stars p') (Some s) = Some (gmatch nc (GStar # ts') s)"
          using less.hyps n(2) by (intro stringmatch_star_matches) auto
        then show ?thesis using g n(3) False \<open>x = _\<close> Cons by (simp add: stringmatchlen.simps)
      qed
    next
      case False
      obtain c s' where s: "s = c # s'" using less.prems(2) by (cases s) auto
      have "length q < length p" using gtok_rest [OF t(1)] Cons by simp
      moreover have "t \<noteq> GStar" using gtok_not_star t(1) False by blast
      ultimately show ?thesis
        using False Cons t s glob_step_tok [OF t(1) False, of nc c s'] skip_stars_match [OF t(2), of nc] less.hyps [of q us s']
        by (simp add: stringmatchlen.simps)
    qed
  qed
qed

section \<open>Classes at the ends of the buffers: lemmas\<close>




section \<open>Properties\<close>

text \<open>C14. \<open>stringmatchlen\<close> is the glob matcher: whenever the pattern splits into tokens (no
  class ends in a lone backslash at the end of the pattern) and the string is not empty, it stays
  within both buffers, terminates, and answers whether the tokens match the string, case folded
  or not.\<close>

theorem stringmatchlen_correct:
  assumes "gtoks p = Some ts" "s \<noteq> []"
  shows "stringmatchlen nocase p (Some s) = Some (gmatch nocase ts s)"
  using assms by (rule stringmatchlen_matches)

theorem stringmatchlen_correct_witness:
  "gtoks ''u*[a-c]?'' = Some [GChar CHR ''u'', GStar, GClass False [CRange CHR ''a'' CHR ''c''], GAny] \<and>
   stringmatchlen True ''u*[a-c]?'' (Some ''User:b7'') = Some True"
proof -
  have t: "gtoks ''u*[a-c]?'' = Some [GChar CHR ''u'', GStar, GClass False [CRange CHR ''a'' CHR ''c''], GAny]"
    by code_simp
  have "gmatch True [GChar CHR ''u'', GStar, GClass False [CRange CHR ''a'' CHR ''c''], GAny] ''User:b7''"
    by code_simp
  then show ?thesis using stringmatchlen_correct [OF t, of "''User:b7''" True] t by simp
qed



end
