(* ===== verification/Dict.thy ===== *)
theory Dict
  imports Prelude "HOL-Library.Multiset"
begin

unbundle bit_operations_syntax

text \<open>
  The hash table of \<open>src/redis-stable/src/dict.c\<close>: chained buckets, two tables during
  incremental rehashing, lookups, insertions, deletions. A bucket is the list of the entries of its
  chain, first entry first; a table is \<^term>\<open>None\<close> for \<open>NULL\<close>. Every access to a table is
  checked, \<^term>\<open>None\<close> as the result of an operation is an access outside the allocated cells, a
  failed \<open>assert\<close> or a counter that would wrap below zero. The calls of the key and value
  destructors and of the callback are recorded in a log.
\<close>

section \<open>Data\<close>

text \<open>The value of an entry is \<^term>\<open>None\<close> until it is set.\<close>

record ('k, 'v) dictEntry =
  de_key :: 'k
  de_val :: "'v option"

record ('k, 'v) dictType =
  hashFunction :: "'k \<Rightarrow> u32"
  keyDup :: "('k \<Rightarrow> 'k) option"
  valDup :: "('v \<Rightarrow> 'v) option"
  keyCompare :: "('k \<Rightarrow> 'k \<Rightarrow> bool) option"
  keyDestructor :: bool
  valDestructor :: bool

record ('k, 'v) dictht =
  ht_table :: "('k, 'v) dictEntry list list option"
  ht_size :: nat
  ht_sizemask :: nat
  ht_used :: nat

datatype ('k, 'v) dict_event = FreeKey 'k | FreeVal "'v option" | Callback

record ('k, 'v) dict =
  d_type :: "('k, 'v) dictType"
  d_ht0 :: "('k, 'v) dictht"
  d_ht1 :: "('k, 'v) dictht"
  d_rehashidx :: int
  d_iterators :: int
  d_log :: "('k, 'v) dict_event list"

definition DICT_HT_INITIAL_SIZE :: nat where
  "DICT_HT_INITIAL_SIZE = 4"

definition dict_force_resize_ratio :: nat where
  "dict_force_resize_ratio = 5"

definition LONG_MAX :: nat where
  "LONG_MAX = 2 ^ 63 - 1"

section \<open>Macros of \<open>dict.h\<close>\<close>

definition dictCompareKeys :: "('k, 'v) dictType \<Rightarrow> 'k \<Rightarrow> 'k \<Rightarrow> bool" where
  "dictCompareKeys ty k1 k2 = (case keyCompare ty of Some c \<Rightarrow> c k1 k2 | None \<Rightarrow> k1 = k2)"

text \<open>The test \<open>key==he->key || dictCompareKeys(d, key, he->key)\<close> of every search.\<close>

definition same_key :: "('k, 'v) dictType \<Rightarrow> 'k \<Rightarrow> 'k \<Rightarrow> bool" where
  "same_key ty k1 k2 \<longleftrightarrow> k1 = k2 \<or> dictCompareKeys ty k1 k2"

definition dup_key :: "('k, 'v) dictType \<Rightarrow> 'k \<Rightarrow> 'k" where
  "dup_key ty k = (case keyDup ty of Some f \<Rightarrow> f k | None \<Rightarrow> k)"

definition dup_val :: "('k, 'v) dictType \<Rightarrow> 'v \<Rightarrow> 'v" where
  "dup_val ty v = (case valDup ty of Some f \<Rightarrow> f v | None \<Rightarrow> v)"

definition dictFreeKey :: "('k, 'v) dictType \<Rightarrow> ('k, 'v) dictEntry \<Rightarrow> ('k, 'v) dict_event list" where
  "dictFreeKey ty e = (if keyDestructor ty then [FreeKey (de_key e)] else [])"

definition dictFreeVal :: "('k, 'v) dictType \<Rightarrow> ('k, 'v) dictEntry \<Rightarrow> ('k, 'v) dict_event list" where
  "dictFreeVal ty e = (if valDestructor ty then [FreeVal (de_val e)] else [])"

definition dictIsRehashing :: "('k, 'v) dict \<Rightarrow> bool" where
  "dictIsRehashing d \<longleftrightarrow> d_rehashidx d \<noteq> -1"

definition dictSlots :: "('k, 'v) dict \<Rightarrow> nat" where
  "dictSlots d = ht_size (d_ht0 d) + ht_size (d_ht1 d)"

definition dictSize :: "('k, 'v) dict \<Rightarrow> nat" where
  "dictSize d = ht_used (d_ht0 d) + ht_used (d_ht1 d)"

section \<open>Tables\<close>

definition ht_get :: "('k, 'v) dictht \<Rightarrow> nat \<Rightarrow> ('k, 'v) dictEntry list option" where
  "ht_get t i = (case ht_table t of None \<Rightarrow> None | Some b \<Rightarrow> cell_get b i)"

definition ht_put :: "('k, 'v) dictht \<Rightarrow> nat \<Rightarrow> ('k, 'v) dictEntry list \<Rightarrow> ('k, 'v) dictht option" where
  "ht_put t i es =
     (case ht_table t of None \<Rightarrow> None
      | Some b \<Rightarrow> map_option (\<lambda>b'. t\<lparr>ht_table := Some b'\<rparr>) (cell_set b i es))"

definition used_incr :: "('k, 'v) dictht \<Rightarrow> ('k, 'v) dictht" where
  "used_incr t = t\<lparr>ht_used := ht_used t + 1\<rparr>"

definition used_decr :: "('k, 'v) dictht \<Rightarrow> ('k, 'v) dictht option" where
  "used_decr t = (if ht_used t = 0 then None else Some (t\<lparr>ht_used := ht_used t - 1\<rparr>))"

definition ht_index :: "('k, 'v) dictht \<Rightarrow> u32 \<Rightarrow> nat" where
  "ht_index t h = unat h AND ht_sizemask t"

definition dictReset :: "('k, 'v) dictht" where
  "dictReset = \<lparr>ht_table = None, ht_size = 0, ht_sizemask = 0, ht_used = 0\<rparr>"

definition dictCreate :: "('k, 'v) dictType \<Rightarrow> ('k, 'v) dict" where
  "dictCreate ty = \<lparr>d_type = ty, d_ht0 = dictReset, d_ht1 = dictReset, d_rehashidx = -1,
     d_iterators = 0, d_log = []\<rparr>"

section \<open>Resizing\<close>

function nextPower_loop :: "nat \<Rightarrow> nat \<Rightarrow> nat" where
  "nextPower_loop i sz = (if i \<ge> sz \<or> i = 0 then i else nextPower_loop (i * 2) sz)"
  by pat_completeness auto
termination
  by (relation "measure (\<lambda>(i, sz). sz - i)") auto

declare nextPower_loop.simps [simp del]

definition dictNextPower :: "nat \<Rightarrow> nat" where
  "dictNextPower sz =
     (if sz \<ge> LONG_MAX then LONG_MAX else nextPower_loop DICT_HT_INITIAL_SIZE sz)"

text \<open>The block is allocated with \<open>realsize*sizeof(dictEntry*)\<close> bytes, computed in 64 bits: the
  number of cells it holds.\<close>

definition alloc_cells :: "nat \<Rightarrow> nat" where
  "alloc_cells realsize = (realsize * 8 mod 2 ^ 64) div 8"

text \<open>The result of an operation that returns \<open>DICT_OK\<close> or \<open>DICT_ERR\<close> is a Boolean.\<close>

definition dictExpand :: "('k, 'v) dict \<Rightarrow> nat \<Rightarrow> ('k, 'v) dict \<times> bool" where
  "dictExpand d sz =
     (let realsize = dictNextPower sz
      in if dictIsRehashing d \<or> ht_used (d_ht0 d) > sz then (d, False)
         else if realsize = ht_size (d_ht0 d) then (d, False)
         else
           (let n = \<lparr>ht_table = Some (replicate (alloc_cells realsize) []), ht_size = realsize,
                     ht_sizemask = realsize - 1, ht_used = 0\<rparr>
            in if ht_table (d_ht0 d) = None then (d\<lparr>d_ht0 := n\<rparr>, True)
               else (d\<lparr>d_ht1 := n, d_rehashidx := 0\<rparr>, True)))"

text \<open>\<open>int minimal = d->ht[0].used\<close> keeps the low 32 bits, and \<open>dictExpand\<close> takes an
  \<open>unsigned long\<close>.\<close>

definition dictResize :: "bool \<Rightarrow> ('k, 'v) dict \<Rightarrow> ('k, 'v) dict \<times> bool" where
  "dictResize can_resize d =
     (if \<not> can_resize \<or> dictIsRehashing d then (d, False)
      else
        (let minimal = to_int32 (int (ht_used (d_ht0 d)));
             minimal = (if minimal < int DICT_HT_INITIAL_SIZE then int DICT_HT_INITIAL_SIZE else minimal)
         in dictExpand d (nat minimal)))"

definition dictExpandIfNeeded :: "bool \<Rightarrow> ('k, 'v) dict \<Rightarrow> ('k, 'v) dict \<times> bool" where
  "dictExpandIfNeeded can_resize d =
     (if dictIsRehashing d then (d, True)
      else if ht_size (d_ht0 d) = 0 then dictExpand d DICT_HT_INITIAL_SIZE
      else if ht_used (d_ht0 d) \<ge> ht_size (d_ht0 d) \<and>
              (can_resize \<or> ht_used (d_ht0 d) div ht_size (d_ht0 d) > dict_force_resize_ratio)
      then dictExpand d (ht_used (d_ht0 d) * 2)
      else (d, True))"

section \<open>Incremental rehashing\<close>

text \<open>The search for a non-empty bucket: the index, the empty visits left, and whether they were
  exhausted.\<close>

function rehash_skip :: "('k, 'v) dictht \<Rightarrow> nat \<Rightarrow> int \<Rightarrow> (nat \<times> int \<times> bool) option" where
  "rehash_skip t i visits =
     (case ht_get t i of
        None \<Rightarrow> None
      | Some es \<Rightarrow>
          if es \<noteq> [] then Some (i, visits, False)
          else if visits - 1 = 0 then Some (i + 1, 0, True)
          else rehash_skip t (i + 1) (visits - 1))"
  by pat_completeness auto
termination
  by (relation "measure (\<lambda>(t, i, visits). length (the (ht_table t)) - i)")
     (auto simp: ht_get_def cell_get_def split: option.splits if_splits)

declare rehash_skip.simps [simp del]

text \<open>The entries of one chain move to the second table, each in front of its new bucket.\<close>

primrec rehash_chain ::
  "('k, 'v) dictType \<Rightarrow> ('k, 'v) dictEntry list \<Rightarrow> ('k, 'v) dictht \<times> ('k, 'v) dictht \<Rightarrow>
   (('k, 'v) dictht \<times> ('k, 'v) dictht) option" where
  "rehash_chain ty [] ts = Some ts"
| "rehash_chain ty (e # es) ts =
     (let h = ht_index (snd ts) (hashFunction ty (de_key e))
      in do {
        b \<leftarrow> ht_get (snd ts) h;
        t1 \<leftarrow> ht_put (snd ts) h (e # b);
        t0 \<leftarrow> used_decr (fst ts);
        rehash_chain ty es (t0, used_incr t1)
      })"

text \<open>The dictionary and whether there is more to rehash.\<close>

definition rehash_finish :: "('k, 'v) dict \<Rightarrow> ('k, 'v) dict \<times> bool" where
  "rehash_finish d =
     (if ht_used (d_ht0 d) = 0
      then (d\<lparr>d_ht0 := d_ht1 d, d_ht1 := dictReset, d_rehashidx := -1\<rparr>, False)
      else (d, True))"

primrec rehash_loop :: "nat \<Rightarrow> ('k, 'v) dict \<Rightarrow> int \<Rightarrow> (('k, 'v) dict \<times> bool) option" where
  "rehash_loop 0 d visits = Some (rehash_finish d)"
| "rehash_loop (Suc n) d visits =
     (if ht_used (d_ht0 d) = 0 then Some (rehash_finish d)
      else if \<not> int (ht_size (d_ht0 d)) > d_rehashidx d then None
      else do {
        (i, visits', stop) \<leftarrow> rehash_skip (d_ht0 d) (nat (d_rehashidx d)) visits;
        (if stop then Some (d\<lparr>d_rehashidx := int i\<rparr>, True)
         else do {
           es \<leftarrow> ht_get (d_ht0 d) i;
           (t0, t1) \<leftarrow> rehash_chain (d_type d) es (d_ht0 d, d_ht1 d);
           t0' \<leftarrow> ht_put t0 i [];
           rehash_loop n (d\<lparr>d_ht0 := t0', d_ht1 := t1, d_rehashidx := int i + 1\<rparr>) visits'
         })
      })"

text \<open>\<open>n\<close> is an \<open>int\<close>, and \<open>n*10\<close> overflows from \<open>2 ^ 31 / 10\<close> on; the callers pass 1 and 100, and the
  model counts without a bound.\<close>

definition dictRehash :: "('k, 'v) dict \<Rightarrow> nat \<Rightarrow> (('k, 'v) dict \<times> bool) option" where
  "dictRehash d n =
     (if \<not> dictIsRehashing d then Some (d, False) else rehash_loop n d (int n * 10))"

definition dictRehashStep :: "('k, 'v) dict \<Rightarrow> ('k, 'v) dict option" where
  "dictRehashStep d = (if d_iterators d = 0 then map_option fst (dictRehash d 1) else Some d)"

text \<open>\<open>clock i\<close> is the \<open>i\<close>-th reading of the clock in milliseconds.\<close>

partial_function (option) rehash_ms_loop ::
  "(nat \<Rightarrow> int) \<Rightarrow> int \<Rightarrow> nat \<Rightarrow> ('k, 'v) dict \<Rightarrow> nat \<Rightarrow> (('k, 'v) dict \<times> nat) option" where
  "rehash_ms_loop clock ms i d rehashes =
     do {
       (d', again) \<leftarrow> dictRehash d 100;
       (if \<not> again then Some (d', rehashes)
        else if clock i - clock 0 > ms then Some (d', rehashes + 100)
        else rehash_ms_loop clock ms (i + 1) d' (rehashes + 100))
     }"

definition dictRehashMilliseconds ::
  "(nat \<Rightarrow> int) \<Rightarrow> ('k, 'v) dict \<Rightarrow> int \<Rightarrow> (('k, 'v) dict \<times> nat) option" where
  "dictRehashMilliseconds clock d ms = rehash_ms_loop clock ms 1 d 0"

section \<open>Searching\<close>

text \<open>Position in a chain of the first entry with the key.\<close>

primrec chain_pos :: "('k, 'v) dictType \<Rightarrow> 'k \<Rightarrow> ('k, 'v) dictEntry list \<Rightarrow> nat option" where
  "chain_pos ty k [] = None"
| "chain_pos ty k (e # es) =
     (if same_key ty k (de_key e) then Some 0 else map_option Suc (chain_pos ty k es))"

text \<open>A pointer to an entry: second table or first, bucket, position in the chain.\<close>

type_synonym entry_ref = "bool \<times> nat \<times> nat"

definition ht_of :: "('k, 'v) dict \<Rightarrow> bool \<Rightarrow> ('k, 'v) dictht" where
  "ht_of d second = (if second then d_ht1 d else d_ht0 d)"

definition set_ht :: "('k, 'v) dict \<Rightarrow> bool \<Rightarrow> ('k, 'v) dictht \<Rightarrow> ('k, 'v) dict" where
  "set_ht d second t = (if second then d\<lparr>d_ht1 := t\<rparr> else d\<lparr>d_ht0 := t\<rparr>)"

text \<open>The loop over the two tables of \<open>dictFind\<close>, \<open>dictGenericDelete\<close> and
  \<open>_dictKeyIndex\<close>.\<close>

definition search_tables :: "('k, 'v) dict \<Rightarrow> 'k \<Rightarrow> entry_ref option option" where
  "search_tables d key =
     (let h = hashFunction (d_type d) key;
          i0 = ht_index (d_ht0 d) h
      in do {
        es0 \<leftarrow> ht_get (d_ht0 d) i0;
        (case chain_pos (d_type d) key es0 of
           Some p \<Rightarrow> Some (Some (False, i0, p))
         | None \<Rightarrow>
             if \<not> dictIsRehashing d then Some None
             else
               (let i1 = ht_index (d_ht1 d) h
                in do {
                  es1 \<leftarrow> ht_get (d_ht1 d) i1;
                  (case chain_pos (d_type d) key es1 of
                     Some p \<Rightarrow> Some (Some (True, i1, p))
                   | None \<Rightarrow> Some None)
                }))
      })"

definition rehash_if_needed :: "('k, 'v) dict \<Rightarrow> ('k, 'v) dict option" where
  "rehash_if_needed d = (if dictIsRehashing d then dictRehashStep d else Some d)"

definition dictFind :: "('k, 'v) dict \<Rightarrow> 'k \<Rightarrow> (('k, 'v) dict \<times> entry_ref option) option" where
  "dictFind d key =
     (if dictSize d = 0 then Some (d, None)
      else do {
        d1 \<leftarrow> rehash_if_needed d;
        r \<leftarrow> search_tables d1 key;
        Some (d1, r)
      })"

definition entry_at :: "('k, 'v) dict \<Rightarrow> entry_ref \<Rightarrow> ('k, 'v) dictEntry option" where
  "entry_at d r = (case r of (s, i, p) \<Rightarrow> do { es \<leftarrow> ht_get (ht_of d s) i; cell_get es p })"

definition dictFetchValue :: "('k, 'v) dict \<Rightarrow> 'k \<Rightarrow> (('k, 'v) dict \<times> 'v option) option" where
  "dictFetchValue d key =
     do {
       (d1, r) \<leftarrow> dictFind d key;
       (case r of
          None \<Rightarrow> Some (d1, None)
        | Some he \<Rightarrow> do { e \<leftarrow> entry_at d1 he; Some (d1, de_val e) })
     }"

section \<open>Adding and replacing\<close>

text \<open>\<open>_dictKeyIndex\<close> returns an \<open>int\<close>: an \<open>unsigned int\<close> index from \<open>2^31\<close> up
  becomes negative.\<close>

definition dictKeyIndex :: "bool \<Rightarrow> ('k, 'v) dict \<Rightarrow> 'k \<Rightarrow> (('k, 'v) dict \<times> int) option" where
  "dictKeyIndex can_resize d key =
     (case dictExpandIfNeeded can_resize d of
        (d1, ok) \<Rightarrow>
          if \<not> ok then Some (d1, -1)
          else do {
            r \<leftarrow> search_tables d1 key;
            (case r of
               Some _ \<Rightarrow> Some (d1, -1)
             | None \<Rightarrow>
                 Some (d1, to_int32 (int (ht_index (ht_of d1 (dictIsRehashing d1))
                                           (hashFunction (d_type d1) key)))))
          })"

definition dictAddRaw :: "bool \<Rightarrow> ('k, 'v) dict \<Rightarrow> 'k \<Rightarrow> (('k, 'v) dict \<times> entry_ref option) option" where
  "dictAddRaw can_resize d key =
     do {
       d1 \<leftarrow> rehash_if_needed d;
       (d2, index) \<leftarrow> dictKeyIndex can_resize d1 key;
       (if index = -1 then Some (d2, None)
        else if index < 0 then None
        else
          (let s = dictIsRehashing d2; t = ht_of d2 s; i = nat index;
               e = \<lparr>de_key = dup_key (d_type d2) key, de_val = None\<rparr>
           in do {
             b \<leftarrow> ht_get t i;
             t' \<leftarrow> ht_put t i (e # b);
             Some (set_ht d2 s (used_incr t'), Some (s, i, 0))
           }))
     }"

definition dictSetVal :: "('k, 'v) dict \<Rightarrow> entry_ref \<Rightarrow> 'v \<Rightarrow> ('k, 'v) dict option" where
  "dictSetVal d r v =
     (case r of (s, i, p) \<Rightarrow>
        do {
          es \<leftarrow> ht_get (ht_of d s) i;
          e \<leftarrow> cell_get es p;
          t' \<leftarrow> ht_put (ht_of d s) i (es[p := e\<lparr>de_val := Some (dup_val (d_type d) v)\<rparr>]);
          Some (set_ht d s t')
        })"

definition dictAdd :: "bool \<Rightarrow> ('k, 'v) dict \<Rightarrow> 'k \<Rightarrow> 'v \<Rightarrow> (('k, 'v) dict \<times> bool) option" where
  "dictAdd can_resize d key v =
     do {
       (d1, r) \<leftarrow> dictAddRaw can_resize d key;
       (case r of
          None \<Rightarrow> Some (d1, False)
        | Some entry \<Rightarrow> do { d2 \<leftarrow> dictSetVal d1 entry v; Some (d2, True) })
     }"

text \<open>A missing entry after a failed \<open>dictAdd\<close> is dereferenced.\<close>

definition dictReplace :: "bool \<Rightarrow> ('k, 'v) dict \<Rightarrow> 'k \<Rightarrow> 'v \<Rightarrow> (('k, 'v) dict \<times> bool) option" where
  "dictReplace can_resize d key v =
     do {
       (d1, added) \<leftarrow> dictAdd can_resize d key v;
       (if added then Some (d1, True)
        else do {
          (d2, r) \<leftarrow> dictFind d1 key;
          (case r of
             None \<Rightarrow> None
           | Some entry \<Rightarrow>
               do {
                 auxentry \<leftarrow> entry_at d2 entry;
                 d3 \<leftarrow> dictSetVal d2 entry v;
                 Some (d3\<lparr>d_log := d_log d3 @ dictFreeVal (d_type d3) auxentry\<rparr>, False)
               })
        })
     }"

definition dictReplaceRaw :: "bool \<Rightarrow> ('k, 'v) dict \<Rightarrow> 'k \<Rightarrow> (('k, 'v) dict \<times> entry_ref option) option" where
  "dictReplaceRaw can_resize d key =
     do {
       (d1, r) \<leftarrow> dictFind d key;
       (case r of Some entry \<Rightarrow> Some (d1, Some entry) | None \<Rightarrow> dictAddRaw can_resize d1 key)
     }"

section \<open>Deleting\<close>

definition dictGenericDelete :: "('k, 'v) dict \<Rightarrow> 'k \<Rightarrow> bool \<Rightarrow> (('k, 'v) dict \<times> bool) option" where
  "dictGenericDelete d key nofree =
     (if ht_size (d_ht0 d) = 0 then Some (d, False)
      else do {
        d1 \<leftarrow> rehash_if_needed d;
        r \<leftarrow> search_tables d1 key;
        (case r of
           None \<Rightarrow> Some (d1, False)
         | Some (s, i, p) \<Rightarrow>
             do {
               es \<leftarrow> ht_get (ht_of d1 s) i;
               he \<leftarrow> cell_get es p;
               t1 \<leftarrow> ht_put (ht_of d1 s) i (take p es @ drop (Suc p) es);
               t2 \<leftarrow> used_decr t1;
               (let d2 = set_ht d1 s t2;
                    ev = (if nofree then [] else dictFreeKey (d_type d1) he @ dictFreeVal (d_type d1) he)
                in Some (d2\<lparr>d_log := d_log d2 @ ev\<rparr>, True))
             })
      })"

definition dictDelete :: "('k, 'v) dict \<Rightarrow> 'k \<Rightarrow> (('k, 'v) dict \<times> bool) option" where
  "dictDelete d key = dictGenericDelete d key False"

definition dictDeleteNoFree :: "('k, 'v) dict \<Rightarrow> 'k \<Rightarrow> (('k, 'v) dict \<times> bool) option" where
  "dictDeleteNoFree d key = dictGenericDelete d key True"

section \<open>Clearing\<close>

text \<open>The destructor calls for one chain, with the number of elements left.\<close>

primrec clear_chain ::
  "('k, 'v) dictType \<Rightarrow> ('k, 'v) dictEntry list \<Rightarrow> nat \<Rightarrow> (('k, 'v) dict_event list \<times> nat) option" where
  "clear_chain ty [] used = Some ([], used)"
| "clear_chain ty (e # es) used =
     (if used = 0 then None
      else do {
        (ev, u) \<leftarrow> clear_chain ty es (used - 1);
        Some (dictFreeKey ty e @ dictFreeVal ty e @ ev, u)
      })"

text \<open>\<open>n\<close> is the number of buckets left, \<open>i\<close> the index.\<close>

primrec clear_loop ::
  "bool \<Rightarrow> ('k, 'v) dictType \<Rightarrow> ('k, 'v) dictht \<Rightarrow> nat \<Rightarrow> nat \<Rightarrow> nat \<Rightarrow> ('k, 'v) dict_event list option" where
  "clear_loop cb ty t 0 i used = Some []"
| "clear_loop cb ty t (Suc n) i used =
     (if used = 0 then Some []
      else do {
        es \<leftarrow> ht_get t i;
        (ev, u) \<leftarrow> clear_chain ty es used;
        rest \<leftarrow> clear_loop cb ty t n (i + 1) u;
        Some ((if cb \<and> i AND 65535 = 0 then [Callback] else []) @ ev @ rest)
      })"

definition dictClear :: "bool \<Rightarrow> ('k, 'v) dict \<Rightarrow> bool \<Rightarrow> ('k, 'v) dict option" where
  "dictClear cb d s =
     do {
       ev \<leftarrow> clear_loop cb (d_type d) (ht_of d s) (ht_size (ht_of d s)) 0 (ht_used (ht_of d s));
       Some ((set_ht d s dictReset)\<lparr>d_log := d_log d @ ev\<rparr>)
     }"

text \<open>The destructor calls of \<open>dictRelease\<close>, which also frees the dictionary itself.\<close>

definition dictRelease :: "('k, 'v) dict \<Rightarrow> ('k, 'v) dict_event list option" where
  "dictRelease d =
     do { d1 \<leftarrow> dictClear False d False; d2 \<leftarrow> dictClear False d1 True; Some (d_log d2) }"

definition dictEmpty :: "bool \<Rightarrow> ('k, 'v) dict \<Rightarrow> ('k, 'v) dict option" where
  "dictEmpty cb d =
     do {
       d1 \<leftarrow> dictClear cb d False;
       d2 \<leftarrow> dictClear cb d1 True;
       Some (d2\<lparr>d_rehashidx := -1, d_iterators := 0\<rparr>)
     }"

section \<open>Invariant and abstraction\<close>

definition hash_bits :: "('k, 'v) dictType \<Rightarrow> nat \<Rightarrow> 'k \<Rightarrow> nat" where
  "hash_bits ty k key = take_bit k (unat (hashFunction ty key))"

text \<open>A table with \<open>2^k\<close> buckets, each entry in the bucket its hash selects.\<close>

definition ht_shape :: "('k, 'v) dictType \<Rightarrow> nat \<Rightarrow> ('k, 'v) dictEntry list list \<Rightarrow> ('k, 'v) dictht \<Rightarrow> bool" where
  "ht_shape ty k b t \<longleftrightarrow>
     2 \<le> k \<and> k \<le> 60 \<and> t = \<lparr>ht_table = Some b, ht_size = 2 ^ k, ht_sizemask = 2 ^ k - 1, ht_used = length (concat b)\<rparr> \<and>
     length b = 2 ^ k \<and> (\<forall>i < 2 ^ k. \<forall>e \<in> set (b ! i). hash_bits ty k (de_key e) = i)"

definition ht_wf :: "('k, 'v) dictType \<Rightarrow> ('k, 'v) dictht \<Rightarrow> bool" where
  "ht_wf ty t \<longleftrightarrow> t = dictReset \<or> (\<exists>k b. ht_shape ty k b t)"

definition ht_entries :: "('k, 'v) dictht \<Rightarrow> ('k, 'v) dictEntry list" where
  "ht_entries t = (case ht_table t of None \<Rightarrow> [] | Some b \<Rightarrow> concat b)"

definition dict_entries :: "('k, 'v) dict \<Rightarrow> ('k, 'v) dictEntry list" where
  "dict_entries d = ht_entries (d_ht0 d) @ ht_entries (d_ht1 d)"

definition uniq_keys :: "('k, 'v) dictType \<Rightarrow> ('k, 'v) dictEntry multiset \<Rightarrow> bool" where
  "uniq_keys ty M \<longleftrightarrow> (\<forall>e f. {#e, f#} \<subseteq># M \<longrightarrow> \<not> same_key ty (de_key e) (de_key f))"

definition dict_inv :: "('k, 'v) dictType \<Rightarrow> ('k \<Rightarrow> bool) \<Rightarrow> ('k, 'v) dict \<Rightarrow> bool" where
  "dict_inv ty valid d \<longleftrightarrow>
     d_type d = ty \<and> ht_wf ty (d_ht0 d) \<and> ht_wf ty (d_ht1 d) \<and>
     uniq_keys ty (mset (dict_entries d)) \<and> (\<forall>e \<in> set (dict_entries d). valid (de_key e)) \<and>
     (if d_rehashidx d = -1 then d_ht1 d = dictReset
      else 0 \<le> d_rehashidx d \<and> d_ht0 d \<noteq> dictReset \<and> d_ht1 d \<noteq> dictReset \<and>
           d_rehashidx d \<le> int (ht_size (d_ht0 d)) \<and>
           (\<forall>i < nat (d_rehashidx d). the (ht_table (d_ht0 d)) ! i = []))"

text \<open>The abstract map: the value stored for a key.\<close>

definition dict_get :: "('k, 'v) dict \<Rightarrow> 'k \<Rightarrow> 'v option option" where
  "dict_get d key = map_option de_val (find (\<lambda>e. same_key (d_type d) key (de_key e)) (dict_entries d))"

section \<open>Tables: lemmas\<close>

lemma mset_concat_update:
  "i < length b \<Longrightarrow> mset (concat (b[i := x])) + mset (b ! i) = mset (concat b) + mset x"
proof (induction b arbitrary: i)
  case (Cons y b)
  show ?case
  proof (cases i)
    case 0
    then show ?thesis by (simp add: ac_simps)
  next
    case (Suc j)
    then have "mset (concat (b[j := x])) + mset (b ! j) = mset (concat b) + mset x"
      using Cons by simp
    then show ?thesis using Suc by (simp add: union_assoc)
  qed
qed simp

lemma length_concat_update:
  "i < length b \<Longrightarrow> length (concat (b[i := x])) + length (b ! i) = length (concat b) + length x"
  using mset_concat_update [of i b x] by (metis size_mset size_union)

lemma ht_shapeD:
  assumes "ht_shape ty k b t"
  shows "ht_table t = Some b" "ht_size t = 2 ^ k" "ht_sizemask t = 2 ^ k - 1" "length b = 2 ^ k"
    "ht_used t = length (concat b)" "ht_entries t = concat b" "2 \<le> k" "k \<le> 60" "t \<noteq> dictReset"
  using assms by (auto simp: ht_shape_def ht_entries_def dictReset_def)

lemma ht_shape_index: "ht_shape ty k b t \<Longrightarrow> ht_index t (hashFunction ty key) = hash_bits ty k key"
  by (simp add: ht_index_def ht_shapeD hash_bits_def take_bit_eq_mask mask_eq_exp_minus_1)

lemma hash_bits_less [simp]: "hash_bits ty k key < 2 ^ k"
  by (simp add: hash_bits_def)

lemma ht_shape_get: "ht_shape ty k b t \<Longrightarrow> i < 2 ^ k \<Longrightarrow> ht_get t i = Some (b ! i)"
  by (simp add: ht_get_def ht_shapeD cell_get_def)

lemma ht_shape_bucket:
  assumes "ht_shape ty k b t" "e \<in> set (ht_entries t)"
  shows "e \<in> set (b ! hash_bits ty k (de_key e))"
proof -
  obtain i where "i < length b" "e \<in> set (b ! i)"
    using assms by (auto simp: ht_shapeD in_set_conv_nth [of _ b])
  then show ?thesis using assms(1) by (auto simp: ht_shape_def)
qed

lemma ht_shape_sub: "ht_shape ty k b t \<Longrightarrow> i < 2 ^ k \<Longrightarrow> e \<in> set (b ! i) \<Longrightarrow> e \<in> set (ht_entries t)"
  by (auto simp: ht_shapeD)

text \<open>Storing a chain whose entries belong to the bucket.\<close>

lemma ht_shape_put:
  assumes "ht_shape ty k b t" "i < 2 ^ k" "\<forall>e \<in> set es. hash_bits ty k (de_key e) = i"
    "n + length (b ! i) = length (concat b) + length es"
  shows "ht_put t i es = Some (t\<lparr>ht_table := Some (b[i := es])\<rparr>) \<and>
    ht_shape ty k (b[i := es]) (t\<lparr>ht_table := Some (b[i := es]), ht_used := n\<rparr>)"
proof
  show "ht_put t i es = Some (t\<lparr>ht_table := Some (b[i := es])\<rparr>)"
    using assms by (simp add: ht_put_def ht_shapeD cell_set_def)
  have "n = length (concat (b[i := es]))"
    using assms length_concat_update [of i b es] by (simp add: ht_shapeD)
  moreover have "\<forall>j < 2 ^ k. \<forall>e \<in> set (b[i := es] ! j). hash_bits ty k (de_key e) = j"
    using assms(1,2,3) by (simp add: ht_shape_def nth_list_update)
  ultimately show "ht_shape ty k (b[i := es]) (t\<lparr>ht_table := Some (b[i := es]), ht_used := n\<rparr>)"
    using assms(1) by (simp add: ht_shape_def)
qed

lemma ht_wf_cases:
  assumes "ht_wf ty t"
  obtains "t = dictReset" | k b where "ht_shape ty k b t"
  using assms by (auto simp: ht_wf_def)

lemma ht_entries_reset [simp]: "ht_entries dictReset = []"
  by (simp add: ht_entries_def dictReset_def)

lemma ht_used_entries: "ht_wf ty t \<Longrightarrow> ht_used t = length (ht_entries t)"
  by (erule ht_wf_cases) (auto simp: ht_shapeD dictReset_def ht_entries_def)

lemma ht_shape_empty:
  assumes "2 \<le> k" "k \<le> 60"
  shows "ht_shape ty k (replicate (2 ^ k) [])
    \<lparr>ht_table = Some (replicate (2 ^ k) []), ht_size = 2 ^ k, ht_sizemask = 2 ^ k - 1, ht_used = 0\<rparr>"
  using assms by (simp add: ht_shape_def concat_replicate_trivial)

section \<open>Distinct keys\<close>

lemma uniq_keys_empty [simp]: "uniq_keys ty {#}"
  by (simp add: uniq_keys_def)

lemma uniq_keys_mono: "uniq_keys ty M \<Longrightarrow> N \<subseteq># M \<Longrightarrow> uniq_keys ty N"
  unfolding uniq_keys_def using subset_mset.order_trans by blast

lemma uniq_keys_add:
  "uniq_keys ty (add_mset x M) \<longleftrightarrow>
     uniq_keys ty M \<and> (\<forall>y \<in># M. \<not> same_key ty (de_key x) (de_key y) \<and> \<not> same_key ty (de_key y) (de_key x))"
proof
  assume u: "uniq_keys ty (add_mset x M)"
  have "uniq_keys ty M" using uniq_keys_mono [OF u] by simp
  moreover have "{#x, y#} \<subseteq># add_mset x M" "{#y, x#} \<subseteq># add_mset x M" if "y \<in># M" for y
    using that by (simp_all add: add_mset_commute [of y x])
  ultimately show "uniq_keys ty M \<and> (\<forall>y \<in># M. \<not> same_key ty (de_key x) (de_key y) \<and> \<not> same_key ty (de_key y) (de_key x))"
    using u unfolding uniq_keys_def by blast
next
  assume r: "uniq_keys ty M \<and> (\<forall>y \<in># M. \<not> same_key ty (de_key x) (de_key y) \<and> \<not> same_key ty (de_key y) (de_key x))"
  show "uniq_keys ty (add_mset x M)" unfolding uniq_keys_def
  proof (intro allI impI)
    fix e f assume s: "{#e, f#} \<subseteq># add_mset x M"
    consider "e = x" "f \<in># M" | "f = x" "e \<in># M" | "{#e, f#} \<subseteq># M"
    proof (cases "e = x")
      case True
      then have "{#f#} \<subseteq># M" using s by simp
      then show ?thesis using True that(1) by simp
    next
      case ne: False
      show ?thesis
      proof (cases "f = x")
        case True
        then have "{#e#} \<subseteq># M" using s by (simp add: add_mset_commute [of e x])
        then show ?thesis using True that(2) by simp
      next
        case False
        have "count {#e, f#} a \<le> count M a" for a
          using mset_subset_eq_count [OF s, of a] ne False by (cases "a = x") auto
        then have "{#e, f#} \<subseteq># M" by (rule mset_subset_eqI)
        then show ?thesis by (rule that(3))
      qed
    qed
    then show "\<not> same_key ty (de_key e) (de_key f)" using r unfolding uniq_keys_def by cases blast+
  qed
qed

section \<open>Searching: lemmas\<close>

lemma chain_pos_Some:
  "chain_pos ty key es = Some p \<Longrightarrow> p < length es \<and> same_key ty key (de_key (es ! p))"
proof (induction es arbitrary: p)
  case (Cons e es)
  then show ?case by (auto split: if_splits)
qed simp

lemma chain_pos_None: "chain_pos ty key es = None \<longleftrightarrow> (\<forall>e \<in> set es. \<not> same_key ty key (de_key e))"
  by (induction es) auto

text \<open>The laws of keys that the table relies on: key comparison is an equivalence on the valid
  keys, equal keys have equal hashes, and duplicating a key gives an equal one.\<close>

locale dict_keys =
  fixes ty :: "('k, 'v) dictType" and valid :: "'k \<Rightarrow> bool"
  assumes same_sym: "valid a \<Longrightarrow> valid b \<Longrightarrow> same_key ty a b \<Longrightarrow> same_key ty b a"
    and same_trans: "valid a \<Longrightarrow> valid b \<Longrightarrow> valid c \<Longrightarrow> same_key ty a b \<Longrightarrow> same_key ty b c \<Longrightarrow> same_key ty a c"
    and same_hash: "valid a \<Longrightarrow> valid b \<Longrightarrow> same_key ty a b \<Longrightarrow> hashFunction ty a = hashFunction ty b"
    and dup_valid: "valid a \<Longrightarrow> valid (dup_key ty a)"
    and dup_same: "valid a \<Longrightarrow> same_key ty a (dup_key ty a)"

definition has_key :: "('k, 'v) dictType \<Rightarrow> ('k, 'v) dictEntry multiset \<Rightarrow> 'k \<Rightarrow> bool" where
  "has_key ty M key \<longleftrightarrow> (\<exists>e \<in># M. same_key ty key (de_key e))"

lemma dict_get_None: "dict_get d key = None \<longleftrightarrow> \<not> has_key (d_type d) (mset (dict_entries d)) key"
  by (auto simp: dict_get_def has_key_def find_None_iff)

context dict_keys
begin

text \<open>Two valid entries that match the same key are the same entry.\<close>

lemma uniq_match:
  assumes "uniq_keys ty M" "\<forall>e \<in># M. valid (de_key e)" "valid key"
    "e \<in># M" "f \<in># M" "same_key ty key (de_key e)" "same_key ty key (de_key f)"
  shows "e = f"
proof (rule ccontr)
  assume "e \<noteq> f"
  then have "{#e, f#} \<subseteq># M" using assms(4,5) by (metis insert_DiffM insert_noteq_member mset_subset_eq_add_mset_cancel mset_subset_eq_single)
  moreover have "same_key ty (de_key e) (de_key f)"
    using assms by (meson same_sym same_trans)
  ultimately show False using assms(1) unfolding uniq_keys_def by blast
qed

lemma dict_get_iff:
  assumes "dict_inv ty valid d" "valid key"
  shows "dict_get d key = Some v \<longleftrightarrow> (\<exists>e \<in> set (dict_entries d). same_key ty key (de_key e) \<and> de_val e = v)"
proof -
  have t: "d_type d = ty" "uniq_keys ty (mset (dict_entries d))" "\<forall>e \<in># mset (dict_entries d). valid (de_key e)"
    using assms by (auto simp: dict_inv_def)
  show ?thesis
  proof
    assume "dict_get d key = Some v"
    then obtain e where "find (\<lambda>e. same_key ty key (de_key e)) (dict_entries d) = Some e" "de_val e = v"
      by (auto simp: dict_get_def t)
    then show "\<exists>e \<in> set (dict_entries d). same_key ty key (de_key e) \<and> de_val e = v"
      by (metis (mono_tags, lifting) find_Some_iff nth_mem)
  next
    assume "\<exists>e \<in> set (dict_entries d). same_key ty key (de_key e) \<and> de_val e = v"
    then obtain e where e: "e \<in> set (dict_entries d)" "same_key ty key (de_key e)" "de_val e = v" by blast
    then obtain f where f: "find (\<lambda>e. same_key ty key (de_key e)) (dict_entries d) = Some f"
      by (metis (mono_tags, lifting) find_None_iff option.exhaust)
    then have "f \<in> set (dict_entries d)" "same_key ty key (de_key f)"
      by (metis (mono_tags, lifting) find_Some_iff nth_mem)+
    then have "f = e" using uniq_match [OF t(2,3) assms(2)] e by simp
    then show "dict_get d key = Some v" using f e by (simp add: dict_get_def t)
  qed
qed

text \<open>The map depends on the contents only, not on the place of the entries.\<close>

lemma dict_get_mset:
  assumes "dict_inv ty valid d" "dict_inv ty valid d'" "mset (dict_entries d) = mset (dict_entries d')" "valid key"
  shows "dict_get d key = dict_get d' key"
proof -
  have "set (dict_entries d) = set (dict_entries d')" using assms(3) by (metis set_mset_mset)
  then have "dict_get d key = Some v \<longleftrightarrow> dict_get d' key = Some v" for v
    using dict_get_iff assms by simp
  then show ?thesis by (metis not_None_eq)
qed

lemma hash_bits_same: "valid a \<Longrightarrow> valid b \<Longrightarrow> same_key ty a b \<Longrightarrow> hash_bits ty k a = hash_bits ty k b"
  by (simp add: hash_bits_def same_hash)

text \<open>Searching a table for a key in its bucket.\<close>

lemma bucket_search:
  assumes "ht_shape ty k b t" "\<forall>e \<in> set (ht_entries t). valid (de_key e)" "valid key"
    "e \<in> set (ht_entries t)" "same_key ty key (de_key e)"
  shows "e \<in> set (b ! hash_bits ty k key)"
  using ht_shape_bucket [OF assms(1,4)] hash_bits_same [of key "de_key e"] assms by simp

lemma search_tables_spec:
  assumes "dict_inv ty valid d" "valid key" "d_ht0 d \<noteq> dictReset"
  shows "\<exists>r. search_tables d key = Some r \<and>
    (case r of None \<Rightarrow> \<not> has_key ty (mset (dict_entries d)) key
     | Some (s, i, p) \<Rightarrow> (\<exists>k b. ht_shape ty k b (ht_of d s) \<and> i = hash_bits ty k key \<and> p < length (b ! i) \<and>
         same_key ty key (de_key (b ! i ! p))))"
proof -
  have ty: "d_type d = ty" using assms(1) by (simp add: dict_inv_def)
  have v: "\<forall>e \<in> set (ht_entries (d_ht0 d)). valid (de_key e)" "\<forall>e \<in> set (ht_entries (d_ht1 d)). valid (de_key e)"
    using assms(1) by (auto simp: dict_inv_def dict_entries_def)
  obtain k b where s0: "ht_shape ty k b (d_ht0 d)"
    using assms(1,3) by (auto simp: dict_inv_def ht_wf_def)
  have g0: "ht_get (d_ht0 d) (hash_bits ty k key) = Some (b ! hash_bits ty k key)"
    using ht_shape_get [OF s0] by simp
  show ?thesis
  proof (cases "chain_pos ty key (b ! hash_bits ty k key)")
    case (Some p)
    then show ?thesis using s0 g0 chain_pos_Some [OF Some]
      by (auto simp: search_tables_def ty ht_shape_index [OF s0] Let_def ht_of_def)
  next
    case n0: None
    then have no0: "\<not> has_key ty (mset (ht_entries (d_ht0 d))) key"
      using bucket_search [OF s0 v(1) assms(2)] by (auto simp: has_key_def chain_pos_None)
    show ?thesis
    proof (cases "dictIsRehashing d")
      case False
      then have "ht_entries (d_ht1 d) = []" using assms(1) by (simp add: dict_inv_def dictIsRehashing_def)
      then show ?thesis using False n0 no0 g0
        by (simp add: search_tables_def ty ht_shape_index [OF s0] Let_def dict_entries_def)
    next
      case True
      then obtain k1 b1 where s1: "ht_shape ty k1 b1 (d_ht1 d)"
        using assms(1) by (auto simp: dict_inv_def ht_wf_def dictIsRehashing_def)
      have g1: "ht_get (d_ht1 d) (hash_bits ty k1 key) = Some (b1 ! hash_bits ty k1 key)"
        using ht_shape_get [OF s1] by simp
      show ?thesis
      proof (cases "chain_pos ty key (b1 ! hash_bits ty k1 key)")
        case (Some p)
        then show ?thesis using True n0 g0 g1 s1 chain_pos_Some [OF Some]
          by (auto simp: search_tables_def ty ht_shape_index [OF s0] ht_shape_index [OF s1] Let_def ht_of_def)
      next
        case None
        then have "\<not> has_key ty (mset (ht_entries (d_ht1 d))) key"
          using bucket_search [OF s1 v(2) assms(2)] by (auto simp: has_key_def chain_pos_None)
        then show ?thesis using True n0 g0 g1 None no0
          by (auto simp: search_tables_def ty ht_shape_index [OF s0] ht_shape_index [OF s1] Let_def
              dict_entries_def has_key_def)
      qed
    qed
  qed
qed

end

section \<open>Rehashing: lemmas\<close>

lemma rehash_chain_spec:
  "ht_shape ty k b t1 \<Longrightarrow> length es \<le> ht_used t0 \<Longrightarrow>
    \<exists>b' t1'. rehash_chain ty es (t0, t1) = Some (t0\<lparr>ht_used := ht_used t0 - length es\<rparr>, t1') \<and>
      ht_shape ty k b' t1' \<and> mset (concat b') = mset (concat b) + mset es"
proof (induction es arbitrary: b t0 t1)
  case (Cons e es)
  let ?h = "hash_bits ty k (de_key e)"
  let ?b = "b[?h := e # b ! ?h]"
  let ?t1 = "t1\<lparr>ht_table := Some ?b, ht_used := Suc (ht_used t1)\<rparr>"
  let ?t0 = "t0\<lparr>ht_used := ht_used t0 - 1\<rparr>"
  note s = Cons.prems(1)
  have h: "ht_get t1 ?h = Some (b ! ?h)" using ht_shape_get [OF s] by simp
  have "\<forall>f \<in> set (e # b ! ?h). hash_bits ty k (de_key f) = ?h"
    using s by (auto simp: ht_shape_def)
  then have p: "ht_put t1 ?h (e # b ! ?h) = Some (t1\<lparr>ht_table := Some ?b\<rparr>)" "ht_shape ty k ?b ?t1"
    using ht_shape_put [OF s hash_bits_less, of "e # b ! ?h" ty "de_key e" "Suc (ht_used t1)"] by (auto simp: ht_shapeD [OF s])
  have m: "mset (concat ?b) = add_mset e (mset (concat b))"
    using mset_concat_update [of ?h b "e # b ! ?h"] ht_shapeD(4) [OF s] by simp
  have "length es \<le> ht_used ?t0" using Cons.prems(2) by simp
  then obtain b' t1' where r: "rehash_chain ty es (?t0, ?t1) = Some (?t0\<lparr>ht_used := ht_used ?t0 - length es\<rparr>, t1')"
    "ht_shape ty k b' t1'" "mset (concat b') = mset (concat ?b) + mset es"
    using Cons.IH [OF p(2), of ?t0] by blast
  have "used_incr (t1\<lparr>ht_table := Some ?b\<rparr>) = ?t1" by (simp add: used_incr_def)
  then have "rehash_chain ty (e # es) (t0, t1) = rehash_chain ty es (?t0, ?t1)"
    using h p(1) Cons.prems(2) by (auto simp: Let_def ht_shape_index [OF s] used_decr_def)
  then show ?case using r m by (intro exI [of _ b'] exI [of _ t1']) simp
qed auto

lemma ht_put_used: "ht_put (t\<lparr>ht_used := n\<rparr>) i es = map_option (\<lambda>t. t\<lparr>ht_used := n\<rparr>) (ht_put t i es)"
  by (cases "ht_table t") (auto simp: ht_put_def cell_set_def)

lemma rehash_skip_spec:
  assumes "ht_shape ty k b t" "j < 2 ^ k" "b ! j \<noteq> []" "i \<le> j"
  shows "\<exists>i' v' stop. rehash_skip t i v = Some (i', v', stop) \<and> i \<le> i' \<and> i' \<le> 2 ^ k \<and>
    (\<forall>l. i \<le> l \<and> l < i' \<longrightarrow> b ! l = []) \<and> (stop \<longrightarrow> i < i') \<and> (\<not> stop \<longrightarrow> i' < 2 ^ k \<and> b ! i' \<noteq> [])"
  using assms
proof (induction t i v rule: rehash_skip.induct)
  case (1 t i v)
  have g: "ht_get t i = Some (b ! i)" using ht_shape_get [OF "1.prems"(1)] "1.prems" by simp
  show ?case
  proof (cases "b ! i = []")
    case False
    then have "rehash_skip t i v = Some (i, v, False)" using g by (subst rehash_skip.simps) simp
    then show ?thesis using False "1.prems"
      by (intro exI [of _ i] exI [of _ v] exI [of _ False]) auto
  next
    case e: True
    then have ij: "i + 1 \<le> j" using "1.prems" by (cases "i = j") auto
    show ?thesis
    proof (cases "v - 1 = 0")
      case True
      then have "rehash_skip t i v = Some (i + 1, 0, True)" using g e by (subst rehash_skip.simps) simp
      moreover have "\<forall>l. i \<le> l \<and> l < i + 1 \<longrightarrow> b ! l = []" using e by (auto simp: less_Suc_eq)
      ultimately show ?thesis using ij "1.prems"(2) by (intro exI [of _ "i + 1"]) auto
    next
      case False
      then have r: "rehash_skip t i v = rehash_skip t (i + 1) (v - 1)" using g e by (subst rehash_skip.simps) simp
      obtain i' v' stop where i': "rehash_skip t (i + 1) (v - 1) = Some (i', v', stop)" "i + 1 \<le> i'" "i' \<le> 2 ^ k"
        "\<forall>l. i + 1 \<le> l \<and> l < i' \<longrightarrow> b ! l = []" "stop \<longrightarrow> i + 1 < i'" "\<not> stop \<longrightarrow> i' < 2 ^ k \<and> b ! i' \<noteq> []"
        using "1.IH" [OF g _ False "1.prems"(1,2,3) ij] e by blast
      have "\<forall>l. i \<le> l \<and> l < i' \<longrightarrow> b ! l = []"
        using i'(4) e by (metis Suc_eq_plus1 le_neq_implies_less Suc_leI)
      then show ?thesis using i' unfolding r by (intro exI [of _ i'] exI [of _ v'] exI [of _ stop]) auto
    qed
  qed
qed

text \<open>What rehashing keeps: everything but the tables and the index, and the contents.\<close>

definition keeps :: "('k, 'v) dict \<Rightarrow> ('k, 'v) dict \<Rightarrow> bool" where
  "keeps d d' \<longleftrightarrow> mset (dict_entries d') = mset (dict_entries d) \<and> d_type d' = d_type d \<and>
     d_iterators d' = d_iterators d \<and> d_log d' = d_log d"

text \<open>The size of the larger table.\<close>

definition dict_cap :: "('k, 'v) dict \<Rightarrow> nat" where
  "dict_cap d = max (ht_size (d_ht0 d)) (ht_size (d_ht1 d))"

lemma keeps_refl [simp]: "keeps d d"
  by (simp add: keeps_def)

lemma keeps_trans: "keeps a b \<Longrightarrow> keeps b c \<Longrightarrow> keeps a c"
  by (simp add: keeps_def)

lemma dict_inv_keeps:
  assumes "dict_inv ty valid d" "keeps d d'" "ht_wf ty (d_ht0 d')" "ht_wf ty (d_ht1 d')"
    "if d_rehashidx d' = -1 then d_ht1 d' = dictReset
      else 0 \<le> d_rehashidx d' \<and> d_ht0 d' \<noteq> dictReset \<and> d_ht1 d' \<noteq> dictReset \<and>
           d_rehashidx d' \<le> int (ht_size (d_ht0 d')) \<and>
           (\<forall>i < nat (d_rehashidx d'). the (ht_table (d_ht0 d')) ! i = [])"
  shows "dict_inv ty valid d'"
proof -
  have "set (dict_entries d') = set (dict_entries d)"
    using assms(2) by (metis keeps_def set_mset_mset)
  then show ?thesis using assms unfolding dict_inv_def keeps_def by auto
qed

lemma rehash_finish_spec:
  assumes "dict_inv ty valid d" "dictIsRehashing d"
  shows "case rehash_finish d of (d', again) \<Rightarrow> dict_inv ty valid d' \<and> keeps d d' \<and> dict_cap d' \<le> dict_cap d \<and>
    again = dictIsRehashing d' \<and> (again \<longrightarrow> d' = d) \<and> d_ht0 d' \<noteq> dictReset"
proof (cases "ht_used (d_ht0 d) = 0")
  case True
  have "ht_wf ty (d_ht0 d)" "d_ht1 d \<noteq> dictReset" "ht_wf ty (d_ht1 d)"
    using assms by (auto simp: dict_inv_def dictIsRehashing_def)
  then have "ht_entries (d_ht0 d) = []" using True ht_used_entries by fastforce
  then have r: "keeps d (d\<lparr>d_ht0 := d_ht1 d, d_ht1 := dictReset, d_rehashidx := -1\<rparr>)"
    by (simp add: keeps_def dict_entries_def)
  have "dict_inv ty valid (d\<lparr>d_ht0 := d_ht1 d, d_ht1 := dictReset, d_rehashidx := -1\<rparr>)"
    using \<open>ht_wf ty (d_ht1 d)\<close> by (intro dict_inv_keeps [OF assms(1) r]) (auto simp: ht_wf_def)
  then show ?thesis using True r \<open>d_ht1 d \<noteq> dictReset\<close>
    by (simp add: rehash_finish_def dictIsRehashing_def dict_cap_def) (simp add: dictReset_def)
next
  case False
  then show ?thesis using assms by (auto simp: rehash_finish_def dict_inv_def dictIsRehashing_def)
qed

lemma rehash_bucket:
  assumes inv: "dict_inv ty valid d" "dictIsRehashing d" and s0: "ht_shape ty k b (d_ht0 d)"
    and i: "i < 2 ^ k" "\<forall>l < i. b ! l = []"
  shows "\<exists>t0 t1 t0'. rehash_chain (d_type d) (b ! i) (d_ht0 d, d_ht1 d) = Some (t0, t1) \<and> ht_put t0 i [] = Some t0' \<and>
    (let d' = d\<lparr>d_ht0 := t0', d_ht1 := t1, d_rehashidx := int i + 1\<rparr>
     in dict_inv ty valid d' \<and> keeps d d' \<and> ht_size t0' = ht_size (d_ht0 d) \<and> ht_size t1 = ht_size (d_ht1 d))"
proof -
  have ty: "d_type d = ty" using inv by (simp add: dict_inv_def)
  obtain k1 b1 where s1: "ht_shape ty k1 b1 (d_ht1 d)"
    using inv by (auto simp: dict_inv_def dictIsRehashing_def ht_wf_def)
  note S0 = ht_shapeD [OF s0]
  let ?u = "length (concat b) - length (b ! i)"
  have ibl: "i < length b" using i S0 by simp
  have le: "length (b ! i) \<le> length (concat b)"
    using length_concat_update [OF ibl, of "[]"] by simp
  obtain b1' t1 where c: "rehash_chain ty (b ! i) (d_ht0 d, d_ht1 d) = Some ((d_ht0 d)\<lparr>ht_used := ?u\<rparr>, t1)"
    "ht_shape ty k1 b1' t1" "mset (concat b1') = mset (concat b1) + mset (b ! i)"
    using rehash_chain_spec [OF s1, of "b ! i" "d_ht0 d"] S0 le by auto
  let ?t0 = "(d_ht0 d)\<lparr>ht_table := Some (b[i := []]), ht_used := ?u\<rparr>"
  have p: "ht_put (d_ht0 d) i [] = Some ((d_ht0 d)\<lparr>ht_table := Some (b[i := []])\<rparr>)" "ht_shape ty k (b[i := []]) ?t0"
    using ht_shape_put [OF s0 i(1), of "[]" ?u] le by auto
  let ?d = "d\<lparr>d_ht0 := ?t0, d_ht1 := t1, d_rehashidx := int i + 1\<rparr>"
  have "mset (concat (b[i := []])) + mset (b ! i) = mset (concat b)"
    using mset_concat_update [OF ibl, of "[]"] by simp
  then have r: "keeps d ?d"
    using c(3) ht_shapeD(6) [OF p(2)] ht_shapeD(6) [OF c(2)] ht_shapeD(6) [OF s1] S0(6)
    by (simp add: keeps_def dict_entries_def ac_simps)
  have "\<forall>l < Suc i. b[i := []] ! l = []" using i(2) ibl by (auto simp: less_Suc_eq)
  moreover have "int i + 1 \<le> 2 ^ k" using i(1) by (metis of_nat_Suc of_nat_le_iff of_nat_numeral of_nat_power Suc_leI add.commute)
  ultimately have "dict_inv ty valid ?d"
    using p(2) c(2) i(1) ht_shapeD(9) [OF p(2)] ht_shapeD(9) [OF c(2)] S0
    by (intro dict_inv_keeps [OF inv(1) r]) (auto simp: ht_wf_def nat_add_distrib)
  then show ?thesis using c(1) p(1) r ht_shapeD(2) [OF c(2)] ht_shapeD(2) [OF s1] by (simp add: ty ht_put_used Let_def)
qed

text \<open>A run of \<open>dictRehash\<close> never fails, keeps the invariant and the contents, reports whether
  rehashing goes on, and moves the index forward if it does.\<close>

lemma rehash_loop_spec:
  assumes "dict_inv ty valid d" "dictIsRehashing d"
  shows "\<exists>d' again. rehash_loop n d v = Some (d', again) \<and> dict_inv ty valid d' \<and> keeps d d' \<and> dict_cap d' \<le> dict_cap d \<and>
    again = dictIsRehashing d' \<and> d_ht0 d' \<noteq> dictReset \<and>
    (again \<longrightarrow> ht_size (d_ht0 d') = ht_size (d_ht0 d) \<and> d_rehashidx d \<le> d_rehashidx d' \<and> (0 < n \<longrightarrow> d_rehashidx d < d_rehashidx d'))"
  using assms
proof (induction n arbitrary: d v)
  case 0
  then show ?case using rehash_finish_spec [OF 0] by (cases "rehash_finish d") auto
next
  case (Suc n)
  note inv = Suc.prems
  obtain k b where s0: "ht_shape ty k b (d_ht0 d)"
    using inv by (auto simp: dict_inv_def dictIsRehashing_def ht_wf_def)
  note S0 = ht_shapeD [OF s0]
  show ?case
  proof (cases "ht_used (d_ht0 d) = 0")
    case True
    then have "rehash_finish d = (d\<lparr>d_ht0 := d_ht1 d, d_ht1 := dictReset, d_rehashidx := -1\<rparr>, False)"
      by (simp add: rehash_finish_def)
    then show ?thesis using True rehash_finish_spec [OF inv] by auto
  next
    case False
    define r where "r = nat (d_rehashidx d)"
    have r: "d_rehashidx d = int r" "\<forall>i < r. b ! i = []"
      using inv S0(1) by (auto simp: dict_inv_def dictIsRehashing_def r_def)
    obtain j where j: "j < 2 ^ k" "b ! j \<noteq> []"
      using False S0 by (metis (no_types, lifting) concat_eq_Nil_conv in_set_conv_nth length_0_conv)
    then have rj: "r \<le> j" using r(2) by (meson not_le)
    obtain i v' stop where i: "rehash_skip (d_ht0 d) r v = Some (i, v', stop)" "r \<le> i" "i \<le> 2 ^ k"
      "\<forall>l. r \<le> l \<and> l < i \<longrightarrow> b ! l = []" "stop \<longrightarrow> r < i" "\<not> stop \<longrightarrow> i < 2 ^ k \<and> b ! i \<noteq> []"
      using rehash_skip_spec [OF s0 j rj] by blast
    have bi: "\<forall>l < i. b ! l = []" using r(2) i(4) by (meson not_le)
    have sz: "d_rehashidx d < int (ht_size (d_ht0 d))" using r(1) rj j(1) S0(2) by simp
    show ?thesis
    proof (cases stop)
      case True
      have same: "keeps d (d\<lparr>d_rehashidx := int i\<rparr>)" by (simp add: keeps_def dict_entries_def)
      have "dict_inv ty valid (d\<lparr>d_rehashidx := int i\<rparr>)"
        using inv i(3) bi S0 by (intro dict_inv_keeps [OF inv(1) same]) (auto simp: dict_inv_def dictIsRehashing_def)
      then show ?thesis using True i(1,5) False sz r same ht_shapeD(9) [OF s0] by (simp add: dictIsRehashing_def dict_cap_def)
    next
      case ns: False
      obtain t0 t1 t0' where m: "rehash_chain (d_type d) (b ! i) (d_ht0 d, d_ht1 d) = Some (t0, t1)" "ht_put t0 i [] = Some t0'"
        "dict_inv ty valid (d\<lparr>d_ht0 := t0', d_ht1 := t1, d_rehashidx := int i + 1\<rparr>)"
        "keeps d (d\<lparr>d_ht0 := t0', d_ht1 := t1, d_rehashidx := int i + 1\<rparr>)" "ht_size t0' = ht_size (d_ht0 d)" "ht_size t1 = ht_size (d_ht1 d)"
        using rehash_bucket [OF inv s0 _ bi] i(6) ns by (auto simp: Let_def)
      let ?d = "d\<lparr>d_ht0 := t0', d_ht1 := t1, d_rehashidx := int i + 1\<rparr>"
      have e: "rehash_loop (Suc n) d v = rehash_loop n ?d v'"
        using False sz r(1) i(1) ns m(1,2) ht_shape_get [OF s0] i(6) by simp
      have reh: "dictIsRehashing ?d" by (simp add: dictIsRehashing_def)
      obtain d' again where d': "rehash_loop n ?d v' = Some (d', again)" "dict_inv ty valid d'" "keeps ?d d'" "dict_cap d' \<le> dict_cap ?d"
        "again = dictIsRehashing d'" "d_ht0 d' \<noteq> dictReset" "again \<longrightarrow> ht_size (d_ht0 d') = ht_size (d_ht0 ?d) \<and> d_rehashidx ?d \<le> d_rehashidx d'"
        using Suc.IH [OF m(3) reh, of v'] by blast
      moreover have "dict_cap ?d = dict_cap d" using m(5,6) by (simp add: dict_cap_def)
      ultimately show ?thesis using e r(1) i(2) m(5) keeps_trans [OF m(4) d'(3)]
        by (auto simp del: rehash_loop.simps)
    qed
  qed
qed

lemma dictRehash_spec:
  assumes "dict_inv ty valid d"
  shows "\<exists>d' again. dictRehash d n = Some (d', again) \<and> dict_inv ty valid d' \<and> keeps d d' \<and> dict_cap d' \<le> dict_cap d \<and>
    again = dictIsRehashing d' \<and> (\<not> dictIsRehashing d \<longrightarrow> d' = d) \<and>
    (again \<longrightarrow> ht_size (d_ht0 d') = ht_size (d_ht0 d) \<and> (0 < n \<longrightarrow> d_rehashidx d < d_rehashidx d'))"
  using rehash_loop_spec [OF assms, of n] assms
  by (cases "dictIsRehashing d") (fastforce simp: dictRehash_def)+

lemma rehash_if_needed_spec:
  assumes "dict_inv ty valid d"
  shows "\<exists>d'. rehash_if_needed d = Some d' \<and> dict_inv ty valid d' \<and> keeps d d' \<and> dict_cap d' \<le> dict_cap d \<and>
    (\<not> dictIsRehashing d \<longrightarrow> d' = d)"
proof (cases "dictIsRehashing d \<and> d_iterators d = 0")
  case True
  then show ?thesis using dictRehash_spec [OF assms, of 1] by (auto simp: rehash_if_needed_def dictRehashStep_def)
next
  case False
  then show ?thesis using assms by (auto simp: rehash_if_needed_def dictRehashStep_def)
qed

section \<open>Resizing: lemmas\<close>

lemma nextPower_loop_spec:
  "\<exists>k. nextPower_loop (2 ^ a) sz = 2 ^ k \<and> a \<le> k \<and> sz \<le> 2 ^ k \<and> (k = a \<or> 2 ^ (k - 1) < sz)"
proof (induction "sz - 2 ^ a" arbitrary: a rule: less_induct)
  case less
  show ?case
  proof (cases "sz \<le> 2 ^ a")
    case True
    then show ?thesis by (subst nextPower_loop.simps) auto
  next
    case False
    have "(2::nat) ^ a < 2 ^ Suc a" by simp
    then have "sz - 2 ^ Suc a < sz - 2 ^ a" using False by linarith
    then obtain k where k: "nextPower_loop (2 ^ Suc a) sz = 2 ^ k" "Suc a \<le> k" "sz \<le> 2 ^ k" "k = Suc a \<or> 2 ^ (k - 1) < sz"
      using less by blast
    have "nextPower_loop (2 ^ a) sz = nextPower_loop (2 ^ Suc a) sz"
      using False by (subst nextPower_loop.simps) (simp add: mult.commute)
    then show ?thesis using k False by (intro exI [of _ k]) auto
  qed
qed

lemma dictNextPower_spec:
  assumes "sz \<le> 2 ^ n" "2 \<le> n" "n \<le> 60"
  shows "\<exists>k. dictNextPower sz = 2 ^ k \<and> 2 \<le> k \<and> k \<le> n \<and> sz \<le> 2 ^ k"
proof -
  have "(2::nat) ^ n \<le> 2 ^ 60" using assms(3) by (rule power_increasing) simp
  then have "sz < LONG_MAX" using assms(1) by (simp add: LONG_MAX_def)
  then have e: "dictNextPower sz = nextPower_loop (2 ^ 2) sz" by (simp add: dictNextPower_def DICT_HT_INITIAL_SIZE_def)
  obtain k where k: "nextPower_loop (2 ^ 2) sz = 2 ^ k" "2 \<le> k" "sz \<le> 2 ^ k" "k = 2 \<or> 2 ^ (k - 1) < sz"
    using nextPower_loop_spec by blast
  have "k \<le> n" using k(4)
  proof
    assume "2 ^ (k - 1) < sz"
    then have "2 ^ (k - 1) < (2::nat) ^ n" using assms(1) by (rule less_le_trans)
    then show ?thesis by simp
  qed (use assms in simp)
  then show ?thesis using k e by auto
qed

lemma alloc_cells_power: "k \<le> 60 \<Longrightarrow> alloc_cells (2 ^ k) = 2 ^ k"
proof -
  assume "k \<le> 60"
  then have "(2::nat) ^ k \<le> 2 ^ 60" by (rule power_increasing) simp
  then show ?thesis by (simp add: alloc_cells_def)
qed

lemma dictExpand_spec:
  fixes d :: "('k, 'v) dict"
  assumes inv: "dict_inv ty valid d" and n: "sz \<le> 2 ^ n" "2 \<le> n" "n \<le> 60"
  shows "case dictExpand d sz of (d', ok) \<Rightarrow> dict_inv ty valid d' \<and> keeps d d' \<and> (\<not> ok \<longrightarrow> d' = d) \<and>
    dict_cap d' \<le> max (dict_cap d) (2 ^ n) \<and> (ok \<longrightarrow> d_ht0 d' \<noteq> dictReset)"
proof -
  obtain k where k: "dictNextPower sz = 2 ^ k" "2 \<le> k" "k \<le> n" "sz \<le> 2 ^ k"
    using dictNextPower_spec [OF n] by blast
  let ?n = "\<lparr>ht_table = Some (replicate (2 ^ k) []), ht_size = 2 ^ k, ht_sizemask = 2 ^ k - 1, ht_used = 0\<rparr> :: ('k, 'v) dictht"
  have s: "ht_shape ty k (replicate (2 ^ k) []) ?n" by (rule ht_shape_empty) (use k n in linarith)+
  have kn: "(2::nat) ^ k \<le> 2 ^ n" using k(3) by (rule power_increasing) simp
  have e: "ht_entries ?n = []" using ht_shapeD(6) [OF s] by simp
  show ?thesis
  proof (cases "dictIsRehashing d \<or> ht_used (d_ht0 d) > sz \<or> 2 ^ k = ht_size (d_ht0 d)")
    case True
    then show ?thesis using inv k(1) by (auto simp: dictExpand_def Let_def)
  next
    case False
    then have nr: "d_rehashidx d = -1" "d_ht1 d = dictReset" using inv by (auto simp: dict_inv_def dictIsRehashing_def)
    show ?thesis
    proof (cases "ht_table (d_ht0 d) = None")
      case True
      then have d0: "d_ht0 d = dictReset" using inv by (auto simp: dict_inv_def ht_wf_def ht_shape_def)
      have kp: "keeps d (d\<lparr>d_ht0 := ?n\<rparr>)" using d0 e by (simp add: keeps_def dict_entries_def)
      have "dict_inv ty valid (d\<lparr>d_ht0 := ?n\<rparr>)"
        using nr s by (intro dict_inv_keeps [OF inv kp]) (auto simp: ht_wf_def)
      moreover have "dict_cap (d\<lparr>d_ht0 := ?n\<rparr>) \<le> max (dict_cap d) (2 ^ n)"
        using nr kn by (simp add: dict_cap_def dictReset_def max.coboundedI2)
      ultimately show ?thesis using False True k(1,3) n(3) kp ht_shapeD(9) [OF s]
        by (simp add: dictExpand_def Let_def alloc_cells_power)
    next
      case t: False
      then have d0: "d_ht0 d \<noteq> dictReset" by (auto simp: dictReset_def)
      have kp: "keeps d (d\<lparr>d_ht1 := ?n, d_rehashidx := 0\<rparr>)" using nr e by (simp add: keeps_def dict_entries_def)
      have "dict_inv ty valid (d\<lparr>d_ht1 := ?n, d_rehashidx := 0\<rparr>)"
        using inv d0 s ht_shapeD(9) [OF s] by (intro dict_inv_keeps [OF inv kp]) (auto simp: ht_wf_def dict_inv_def)
      moreover have "dict_cap (d\<lparr>d_ht1 := ?n, d_rehashidx := 0\<rparr>) \<le> max (dict_cap d) (2 ^ n)"
        using kn nr by (auto simp: dict_cap_def dictReset_def intro: max.coboundedI2)
      ultimately show ?thesis using False t k(1,3) n(3) kp d0
        by (auto simp: dictExpand_def Let_def alloc_cells_power)
    qed
  qed
qed

lemma dictExpandIfNeeded_spec:
  assumes inv: "dict_inv ty valid d" and u: "2 * dictSize d \<le> 2 ^ 31"
  shows "\<exists>d'. dictExpandIfNeeded can_resize d = (d', True) \<and> dict_inv ty valid d' \<and> keeps d d' \<and>
    dict_cap d' \<le> max (dict_cap d) (2 ^ 31) \<and> d_ht0 d' \<noteq> dictReset"
proof -
  have w0: "ht_wf ty (d_ht0 d)" using inv by (simp add: dict_inv_def)
  consider (reh) "dictIsRehashing d" | (new) "\<not> dictIsRehashing d" "ht_size (d_ht0 d) = 0"
    | (grow) "\<not> dictIsRehashing d" "ht_size (d_ht0 d) \<noteq> 0"
    by blast
  then show ?thesis
  proof cases
    case reh
    then show ?thesis using inv by (auto simp: dictExpandIfNeeded_def dict_inv_def dictIsRehashing_def)
  next
    case new
    then have d0: "d_ht0 d = dictReset" using w0 by (auto elim!: ht_wf_cases simp: ht_shapeD)
    obtain k where k: "dictNextPower 4 = 2 ^ k" using dictNextPower_spec [of 4 2] by auto
    have "snd (dictExpand d 4)" using new d0 k by (simp add: dictExpand_def Let_def dictReset_def)
    moreover have "dictExpandIfNeeded can_resize d = dictExpand d 4"
      using new by (simp add: dictExpandIfNeeded_def DICT_HT_INITIAL_SIZE_def)
    ultimately show ?thesis using dictExpand_spec [OF inv, of 4 31] by (cases "dictExpand d 4") auto
  next
    case grow
    then have d0: "d_ht0 d \<noteq> dictReset" by (auto simp: dictReset_def)
    show ?thesis
    proof (cases "ht_used (d_ht0 d) \<ge> ht_size (d_ht0 d) \<and>
        (can_resize \<or> ht_used (d_ht0 d) div ht_size (d_ht0 d) > dict_force_resize_ratio)")
      case False
      then have "dictExpandIfNeeded can_resize d = (d, True)" using grow by (auto simp: dictExpandIfNeeded_def)
      then show ?thesis using inv d0 by simp
    next
      case True
      let ?u = "ht_used (d_ht0 d) * 2"
      have u31: "?u \<le> 2 ^ 31" using u by (simp add: dictSize_def)
      obtain k where k: "dictNextPower ?u = 2 ^ k" "?u \<le> 2 ^ k" using dictNextPower_spec [OF u31] by auto
      have "snd (dictExpand d ?u)" using grow True k by (auto simp: dictExpand_def Let_def)
      moreover have "dictExpandIfNeeded can_resize d = dictExpand d ?u" using grow True by (simp add: dictExpandIfNeeded_def)
      ultimately show ?thesis using dictExpand_spec [OF inv u31] by (cases "dictExpand d ?u") auto
    qed
  qed
qed

section \<open>Storing a chain\<close>

lemma set_ht_simps [simp]:
  "d_type (set_ht d s t) = d_type d" "d_rehashidx (set_ht d s t) = d_rehashidx d"
  "d_iterators (set_ht d s t) = d_iterators d" "d_log (set_ht d s t) = d_log d"
  "ht_of (set_ht d s t) s = t" "dictIsRehashing (set_ht d s t) = dictIsRehashing d"
  by (simp_all add: set_ht_def ht_of_def dictIsRehashing_def)

lemma mset_entries_set_ht:
  "mset (dict_entries (set_ht d s t)) + mset (ht_entries (ht_of d s)) = mset (dict_entries d) + mset (ht_entries t)"
  by (cases s) (simp_all add: set_ht_def ht_of_def dict_entries_def ac_simps)

lemma mset_exchange:
  assumes "(T :: 'a multiset) + B = C + E" "A + C = D + T"
  shows "A + B = D + E"
proof -
  have "A + B + C = D + (T + B)" using assms(2) by (simp add: ac_simps)
  also have "\<dots> = D + E + C" unfolding assms(1) by (simp add: ac_simps)
  finally show ?thesis by simp
qed

text \<open>Replacing the chain of bucket \<open>i\<close> by one of entries that belong there.\<close>

lemma store_chain:
  assumes inv: "dict_inv ty valid d" and s: "ht_shape ty k b (ht_of d s)" "i < 2 ^ k"
    and es: "\<forall>e \<in> set es. hash_bits ty k (de_key e) = i \<and> valid (de_key e)"
    and n: "n + length (b ! i) = length (concat b) + length es"
    and c: "s = dictIsRehashing d \<or> b ! i \<noteq> []"
    and u: "\<And>M. M + mset (b ! i) = mset (dict_entries d) + mset es \<Longrightarrow> uniq_keys ty M"
  defines "d' \<equiv> set_ht d s ((ht_of d s)\<lparr>ht_table := Some (b[i := es]), ht_used := n\<rparr>)"
  shows "ht_put (ht_of d s) i es = Some ((ht_of d s)\<lparr>ht_table := Some (b[i := es])\<rparr>) \<and> dict_inv ty valid d' \<and>
    mset (dict_entries d') + mset (b ! i) = mset (dict_entries d) + mset es \<and> dict_cap d' = dict_cap d \<and>
    ht_get (ht_of d' s) i = Some es"
proof -
  let ?t = "(ht_of d s)\<lparr>ht_table := Some (b[i := es]), ht_used := n\<rparr>"
  note S = ht_shapeD [OF s(1)]
  have p: "ht_put (ht_of d s) i es = Some ((ht_of d s)\<lparr>ht_table := Some (b[i := es])\<rparr>)" "ht_shape ty k (b[i := es]) ?t"
    using ht_shape_put [OF s _ n] es by auto
  have "mset (ht_entries ?t) + mset (b ! i) = mset (ht_entries (ht_of d s)) + mset es"
    using mset_concat_update [of i b es] s(2) S(4,6) ht_shapeD(6) [OF p(2)] by simp
  from this mset_entries_set_ht [of d s ?t]
  have m: "mset (dict_entries d') + mset (b ! i) = mset (dict_entries d) + mset es"
    unfolding d'_def by (rule mset_exchange)
  have "set (dict_entries d') \<subseteq> set (dict_entries d) \<union> set es"
    using arg_cong [OF m, of set_mset] by auto
  then have v: "\<forall>e \<in> set (dict_entries d'). valid (de_key e)" using inv es by (auto simp: dict_inv_def)
  have wt: "ht_wf ty ?t" using p(2) by (auto simp: ht_wf_def)
  have "ht_wf ty (d_ht0 d)" "ht_wf ty (d_ht1 d)" using inv by (simp_all add: dict_inv_def)
  then have w: "ht_wf ty (d_ht0 d')" "ht_wf ty (d_ht1 d')"
    using wt unfolding d'_def set_ht_def ht_of_def by auto
  have sz: "ht_size (d_ht0 d') = ht_size (d_ht0 d)" "ht_size (d_ht1 d') = ht_size (d_ht1 d)"
    unfolding d'_def set_ht_def ht_of_def by auto
  have "i \<ge> nat (d_rehashidx d)" if "\<not> s" "dictIsRehashing d"
    using inv c that S(1) by (auto simp: dict_inv_def dictIsRehashing_def ht_of_def not_less [symmetric])
  then have "if d_rehashidx d' = -1 then d_ht1 d' = dictReset
      else 0 \<le> d_rehashidx d' \<and> d_ht0 d' \<noteq> dictReset \<and> d_ht1 d' \<noteq> dictReset \<and>
           d_rehashidx d' \<le> int (ht_size (d_ht0 d')) \<and>
           (\<forall>i < nat (d_rehashidx d'). the (ht_table (d_ht0 d')) ! i = [])"
    using inv c sz(1) ht_shapeD(9) [OF p(2)] S(1,9) unfolding d'_def
    by (cases s) (auto simp: set_ht_def ht_of_def dict_inv_def dictIsRehashing_def)
  then have "dict_inv ty valid d'" using w u [OF m] v inv unfolding dict_inv_def by (simp add: d'_def)
  then show ?thesis using p(1) m sz ht_shape_get [OF p(2) s(2)] s(2) S(4) by (simp add: dict_cap_def d'_def)
qed

section \<open>Operations: lemmas\<close>

lemma dictSize_entries: "dict_inv ty valid d \<Longrightarrow> dictSize d = length (dict_entries d)"
  by (simp add: dictSize_def dict_entries_def dict_inv_def ht_used_entries [of ty])

lemma keeps_size: "dict_inv ty valid d \<Longrightarrow> dict_inv ty valid d' \<Longrightarrow> keeps d d' \<Longrightarrow> dictSize d' = dictSize d"
  by (metis dictSize_entries keeps_def size_mset)

lemma keeps_has_key: "keeps d d' \<Longrightarrow> has_key ty (mset (dict_entries d')) key = has_key ty (mset (dict_entries d)) key"
  by (simp add: keeps_def)

lemma ht_of_nonreset:
  assumes "dict_inv ty valid d" "d_ht0 d \<noteq> dictReset"
  obtains k b where "ht_shape ty k b (ht_of d (dictIsRehashing d))"
  using assms by (auto simp: dict_inv_def ht_of_def ht_wf_def dictIsRehashing_def split: if_splits)

text \<open>Room for one more element: indexes fit in an \<open>int\<close>.\<close>

definition dict_room :: "('k, 'v) dict \<Rightarrow> bool" where
  "dict_room d \<longleftrightarrow> dict_cap d \<le> 2 ^ 31 \<and> 2 * dictSize d \<le> 2 ^ 31"

lemma uniq_keys_swap:
  "de_key e = de_key f \<Longrightarrow> uniq_keys ty (add_mset e M) \<longleftrightarrow> uniq_keys ty (add_mset f M)"
  by (simp add: uniq_keys_add)

lemma entry_at_shape:
  assumes "dict_inv ty valid d" "entry_at d (s, i, p) = Some e"
  obtains k b where "ht_shape ty k b (ht_of d s)" "i < 2 ^ k" "p < length (b ! i)" "b ! i ! p = e"
proof -
  obtain es where es: "ht_get (ht_of d s) i = Some es" "cell_get es p = Some e"
    using assms(2) by (auto simp: entry_at_def bind_eq_Some_conv)
  have "ht_wf ty (ht_of d s)" using assms(1) by (auto simp: dict_inv_def ht_of_def)
  then obtain k b where s: "ht_shape ty k b (ht_of d s)" using es(1) by (auto simp: ht_wf_def ht_get_def dictReset_def)
  have "i < 2 ^ k" "es = b ! i" using es(1) ht_shapeD(1,4) [OF s] by (auto simp: ht_get_def cell_get_def split: if_splits)
  then show ?thesis using that s es(2) by (auto simp: cell_get_def split: if_splits)
qed

lemma entry_at_entries: "dict_inv ty valid d \<Longrightarrow> entry_at d r = Some e \<Longrightarrow> e \<in> set (dict_entries d)"
proof -
  assume a: "dict_inv ty valid d" "entry_at d r = Some e"
  obtain s i p where r: "r = (s, i, p)" by (cases r)
  from a r obtain k b where "ht_shape ty k b (ht_of d s)" "i < 2 ^ k" "p < length (b ! i)" "b ! i ! p = e"
    by (auto elim: entry_at_shape)
  then have "e \<in> set (ht_entries (ht_of d s))" by (metis ht_shape_sub nth_mem)
  then show ?thesis by (auto simp: dict_entries_def ht_of_def split: if_splits)
qed

lemma bucket_ok:
  assumes "dict_inv ty valid d" "ht_shape ty k b (ht_of d s)" "i < 2 ^ k"
  shows "\<forall>f \<in> set (b ! i). hash_bits ty k (de_key f) = i \<and> valid (de_key f)"
proof
  fix f assume f: "f \<in> set (b ! i)"
  have "hash_bits ty k (de_key f) = i" using assms f unfolding ht_shape_def by blast
  moreover have "f \<in> set (dict_entries d)"
    using ht_shape_sub [OF assms(2,3) f] by (auto simp: dict_entries_def ht_of_def split: if_splits)
  then have "valid (de_key f)" using assms(1) unfolding dict_inv_def by blast
  ultimately show "hash_bits ty k (de_key f) = i \<and> valid (de_key f)" by blast
qed

lemma dictSetVal_spec:
  assumes inv: "dict_inv ty valid d" and e: "entry_at d r = Some e"
  shows "\<exists>d'. dictSetVal d r v = Some d' \<and> dict_inv ty valid d' \<and> d_iterators d' = d_iterators d \<and> d_log d' = d_log d \<and>
    dict_cap d' = dict_cap d \<and>
    add_mset e (mset (dict_entries d')) = add_mset (e\<lparr>de_val := Some (dup_val ty v)\<rparr>) (mset (dict_entries d))"
proof -
  obtain s i p where r: "r = (s, i, p)" by (cases r)
  obtain k b where s: "ht_shape ty k b (ht_of d s)" "i < 2 ^ k" and p: "p < length (b ! i)" "b ! i ! p = e"
    using entry_at_shape [OF inv] e r by blast
  have ty: "d_type d = ty" using inv by (simp add: dict_inv_def)
  let ?e = "e\<lparr>de_val := Some (dup_val ty v)\<rparr>"
  let ?es = "(b ! i)[p := ?e]"
  have es: "mset ?es + {#e#} = mset (b ! i) + {#?e#}"
    using p nth_mem [OF p(1)] by (simp add: mset_update del: nth_mem)
  have sub: "set ?es \<subseteq> insert ?e (set (b ! i))" by (rule set_update_subset_insert)
  have es1: "\<forall>f \<in> set ?es. hash_bits ty k (de_key f) = i \<and> valid (de_key f)"
    using bucket_ok [OF inv s] sub p nth_mem [OF p(1)] by auto
  have u1: "uniq_keys ty M" if "M + mset (b ! i) = mset (dict_entries d) + mset ?es" for M
  proof -
    have M: "add_mset e M = add_mset ?e (mset (dict_entries d))"
      using mset_exchange [OF es [symmetric], of "mset (dict_entries d)" M] that by (simp add: ac_simps)
    have "e \<in># mset (dict_entries d)" using entry_at_entries [OF inv e] by simp
    then obtain N where N: "mset (dict_entries d) = add_mset e N" by (metis mset_add)
    then have "M = add_mset ?e N" using M by (simp add: add_mset_commute)
    then show ?thesis using inv N uniq_keys_swap [of e ?e] by (simp add: dict_inv_def)
  qed
  have "length (concat b) + length (b ! i) = length (concat b) + length ?es" "s = dictIsRehashing d \<or> b ! i \<noteq> []"
    using p by auto
  note st = store_chain [OF inv s es1 this u1]
  have us: "(ht_of d s)\<lparr>ht_table := Some (b[i := ?es]), ht_used := length (concat b)\<rparr> = (ht_of d s)\<lparr>ht_table := Some (b[i := ?es])\<rparr>"
    using ht_shapeD(5) [OF s(1)] by simp
  have "dictSetVal d r v = Some (set_ht d s ((ht_of d s)\<lparr>ht_table := Some (b[i := ?es])\<rparr>))"
    using st ht_shape_get [OF s] p by (simp add: dictSetVal_def r cell_get_def ty)
  moreover have "mset (dict_entries (set_ht d s ((ht_of d s)\<lparr>ht_table := Some (b[i := ?es])\<rparr>))) + {#e#}
      = mset (dict_entries d) + {#?e#}"
    using st unfolding us by (intro mset_exchange [OF es]) simp
  ultimately show ?thesis using st unfolding us by simp
qed

lemma nonempty_nonreset: "dict_inv ty valid d \<Longrightarrow> dictSize d \<noteq> 0 \<Longrightarrow> d_ht0 d \<noteq> dictReset"
  by (auto simp: dict_inv_def dictSize_def dictReset_def split: if_splits)

lemma rehash_nonreset:
  assumes "dict_inv ty valid d" "d_ht0 d \<noteq> dictReset" "rehash_if_needed d = Some d'"
  shows "d_ht0 d' \<noteq> dictReset"
proof (cases "dictIsRehashing d")
  case False
  then show ?thesis using assms by (simp add: rehash_if_needed_def)
next
  case True
  then show ?thesis using assms rehash_loop_spec [OF assms(1) True, of 1 10]
    by (auto simp del: rehash_loop.simps simp: rehash_if_needed_def dictRehashStep_def dictRehash_def split: if_splits)
qed

lemma shape_entry_at:
  "ht_shape ty k b (ht_of d s) \<Longrightarrow> i < 2 ^ k \<Longrightarrow> p < length (b ! i) \<Longrightarrow> entry_at d (s, i, p) = Some (b ! i ! p)"
  by (simp add: entry_at_def ht_shape_get cell_get_def)

context dict_keys
begin

lemma search_found:
  assumes "dict_inv ty valid d" "valid key" "d_ht0 d \<noteq> dictReset"
  shows "\<exists>r. search_tables d key = Some r \<and>
    (case r of None \<Rightarrow> \<not> has_key ty (mset (dict_entries d)) key
     | Some he \<Rightarrow> \<exists>e. entry_at d he = Some e \<and> same_key ty key (de_key e))"
proof -
  obtain r where r: "search_tables d key = Some r"
    "case r of None \<Rightarrow> \<not> has_key ty (mset (dict_entries d)) key
     | Some (s, i, p) \<Rightarrow> (\<exists>k b. ht_shape ty k b (ht_of d s) \<and> i = hash_bits ty k key \<and> p < length (b ! i) \<and>
         same_key ty key (de_key (b ! i ! p)))"
    using search_tables_spec [OF assms] by blast
  show ?thesis
  proof (cases r)
    case None
    then show ?thesis using r by simp
  next
    case (Some he)
    then obtain s i p k b where "he = (s, i, p)" "ht_shape ty k b (ht_of d s)" "i = hash_bits ty k key" "p < length (b ! i)"
      "same_key ty key (de_key (b ! i ! p))"
      using r(2) by (cases he) auto
    then show ?thesis using r(1) Some shape_entry_at by fastforce
  qed
qed

lemma entry_at_has_key:
  "dict_inv ty valid d \<Longrightarrow> entry_at d he = Some e \<Longrightarrow> same_key ty key (de_key e) \<Longrightarrow> has_key ty (mset (dict_entries d)) key"
  using entry_at_entries by (fastforce simp: has_key_def)

lemma dictFind_spec:
  assumes "dict_inv ty valid d" "valid key"
  shows "\<exists>d' r. dictFind d key = Some (d', r) \<and> dict_inv ty valid d' \<and> keeps d d' \<and> dict_cap d' \<le> dict_cap d \<and>
    (case r of None \<Rightarrow> \<not> has_key ty (mset (dict_entries d)) key
     | Some he \<Rightarrow> \<exists>e. entry_at d' he = Some e \<and> same_key ty key (de_key e))"
proof (cases "dictSize d = 0")
  case True
  then have "dict_entries d = []" using dictSize_entries [OF assms(1)] by simp
  then show ?thesis using True assms by (simp add: dictFind_def has_key_def)
next
  case False
  obtain d1 where d1: "rehash_if_needed d = Some d1" "dict_inv ty valid d1" "keeps d d1" "dict_cap d1 \<le> dict_cap d"
    using rehash_if_needed_spec [OF assms(1)] by blast
  have "d_ht0 d1 \<noteq> dictReset" using False keeps_size [OF assms(1) d1(2,3)] nonempty_nonreset [OF d1(2)] by simp
  then obtain r where r: "search_tables d1 key = Some r"
    "case r of None \<Rightarrow> \<not> has_key ty (mset (dict_entries d1)) key
     | Some he \<Rightarrow> \<exists>e. entry_at d1 he = Some e \<and> same_key ty key (de_key e)"
    using search_found [OF d1(2) assms(2)] by blast
  then show ?thesis using False d1 keeps_has_key [OF d1(3)] by (auto simp: dictFind_def split: option.splits)
qed

lemma dictKeyIndex_spec:
  assumes "dict_inv ty valid d" "valid key" "dict_room d"
  shows "\<exists>d' i. dictKeyIndex can_resize d key = Some (d', i) \<and> dict_inv ty valid d' \<and> keeps d d' \<and> dict_cap d' \<le> 2 ^ 31 \<and>
    (if has_key ty (mset (dict_entries d)) key then i = -1
     else \<exists>k b. ht_shape ty k b (ht_of d' (dictIsRehashing d')) \<and> i = int (hash_bits ty k key))"
proof -
  obtain d1 where d1: "dictExpandIfNeeded can_resize d = (d1, True)" "dict_inv ty valid d1" "keeps d d1"
    "dict_cap d1 \<le> max (dict_cap d) (2 ^ 31)" "d_ht0 d1 \<noteq> dictReset"
    using dictExpandIfNeeded_spec [OF assms(1)] assms(3) by (auto simp: dict_room_def)
  have cap: "dict_cap d1 \<le> 2 ^ 31" using d1(4) assms(3) by (simp add: dict_room_def)
  obtain r where r: "search_tables d1 key = Some r"
    "case r of None \<Rightarrow> \<not> has_key ty (mset (dict_entries d1)) key
     | Some he \<Rightarrow> \<exists>e. entry_at d1 he = Some e \<and> same_key ty key (de_key e)"
    using search_found [OF d1(2) assms(2) d1(5)] by blast
  show ?thesis
  proof (cases r)
    case (Some he)
    then have "has_key ty (mset (dict_entries d)) key"
      using r(2) entry_at_has_key [OF d1(2)] keeps_has_key [OF d1(3)] by fastforce
    then show ?thesis using Some r(1) d1 cap by (simp add: dictKeyIndex_def)
  next
    case None
    then have nk: "\<not> has_key ty (mset (dict_entries d)) key" using r(2) keeps_has_key [OF d1(3)] by simp
    obtain k b where s: "ht_shape ty k b (ht_of d1 (dictIsRehashing d1))" using ht_of_nonreset [OF d1(2,5)] by blast
    have "2 ^ k \<le> dict_cap d1" using ht_shapeD(2) [OF s] by (auto simp: dict_cap_def ht_of_def split: if_splits)
    then have "hash_bits ty k key < 2 ^ 31" using cap hash_bits_less [of ty k key] by linarith
    then have "to_int32 (int (hash_bits ty k key)) = int (hash_bits ty k key)"
      by (intro to_int32_id) (simp add: int32_def)
    then show ?thesis using None r(1) d1 cap nk s
      by (auto simp: dictKeyIndex_def dict_inv_def ht_shape_index [OF s])
  qed
qed

lemma dictAddRaw_spec:
  assumes "dict_inv ty valid d" "valid key" "dict_room d"
  shows "\<exists>d' r. dictAddRaw can_resize d key = Some (d', r) \<and> dict_inv ty valid d' \<and> dict_cap d' \<le> 2 ^ 31 \<and>
    d_iterators d' = d_iterators d \<and> d_log d' = d_log d \<and>
    (if has_key ty (mset (dict_entries d)) key then r = None \<and> keeps d d'
     else \<exists>he. r = Some he \<and> entry_at d' he = Some \<lparr>de_key = dup_key ty key, de_val = None\<rparr> \<and>
       mset (dict_entries d') = add_mset \<lparr>de_key = dup_key ty key, de_val = None\<rparr> (mset (dict_entries d)))"
proof -
  obtain d1 where d1: "rehash_if_needed d = Some d1" "dict_inv ty valid d1" "keeps d d1" "dict_cap d1 \<le> dict_cap d"
    using rehash_if_needed_spec [OF assms(1)] by blast
  have room: "dict_room d1" using assms(3) d1(4) keeps_size [OF assms(1) d1(2,3)] by (simp add: dict_room_def)
  obtain d2 i where d2: "dictKeyIndex can_resize d1 key = Some (d2, i)" "dict_inv ty valid d2" "keeps d1 d2" "dict_cap d2 \<le> 2 ^ 31"
    "if has_key ty (mset (dict_entries d1)) key then i = -1
     else \<exists>k b. ht_shape ty k b (ht_of d2 (dictIsRehashing d2)) \<and> i = int (hash_bits ty k key)"
    using dictKeyIndex_spec [OF d1(2) assms(2) room] by blast
  have kp: "keeps d d2" using keeps_trans [OF d1(3) d2(3)] .
  have hk: "has_key ty (mset (dict_entries d1)) key = has_key ty (mset (dict_entries d)) key"
    using keeps_has_key [OF d1(3)] .
  show ?thesis
  proof (cases "has_key ty (mset (dict_entries d)) key")
    case True
    then show ?thesis using d1(1) d2 hk kp by (auto simp: dictAddRaw_def keeps_def)
  next
    case False
    let ?s = "dictIsRehashing d2" and ?e = "\<lparr>de_key = dup_key ty key, de_val = None\<rparr>"
    obtain k b where s: "ht_shape ty k b (ht_of d2 ?s)" "i = int (hash_bits ty k key)" using d2(5) hk False by auto
    let ?h = "hash_bits ty k key"
    have ty: "d_type d2 = ty" using d2(2) by (simp add: dict_inv_def)
    have dk: "hash_bits ty k (dup_key ty key) = ?h" "valid (dup_key ty key)"
      using hash_bits_same [OF assms(2) dup_valid dup_same] dup_valid assms(2) by auto
    have nk: "\<not> has_key ty (mset (dict_entries d2)) key" using False keeps_has_key [OF kp] by simp
    have diff: "\<not> same_key ty (de_key ?e) (de_key f) \<and> \<not> same_key ty (de_key f) (de_key ?e)" if "f \<in># mset (dict_entries d2)" for f
    proof -
      have vf: "valid (de_key f)" using that d2(2) by (simp add: dict_inv_def)
      have "\<not> same_key ty key (de_key f)" using nk that by (auto simp: has_key_def)
      then show ?thesis using vf dk(2) dup_same [OF assms(2)] assms(2) same_sym same_trans by (metis dictEntry.select_convs(1))
    qed
    have es1: "\<forall>f \<in> set (?e # b ! ?h). hash_bits ty k (de_key f) = ?h \<and> valid (de_key f)" using bucket_ok [OF d2(2) s(1) hash_bits_less] dk by simp
    have n1: "Suc (length (concat b)) + length (b ! ?h) = length (concat b) + length (?e # b ! ?h)" by simp
    have u1: "uniq_keys ty M" if "M + mset (b ! ?h) = mset (dict_entries d2) + mset (?e # b ! ?h)" for M
    proof -
      have "M = add_mset ?e (mset (dict_entries d2))" using that by simp
      then show ?thesis using diff d2(2) by (simp add: uniq_keys_add dict_inv_def)
    qed
    note st = store_chain [OF d2(2) s(1) hash_bits_less es1 n1 disjI1 [OF refl] u1]
    let ?t = "(ht_of d2 ?s)\<lparr>ht_table := Some (b[?h := ?e # b ! ?h])\<rparr>"
    have inc: "used_incr ?t = (ht_of d2 ?s)\<lparr>ht_table := Some (b[?h := ?e # b ! ?h]), ht_used := Suc (length (concat b))\<rparr>"
      using ht_shapeD(5) [OF s(1)] by (simp add: used_incr_def)
    have "dictAddRaw can_resize d key = Some (set_ht d2 ?s (used_incr ?t), Some (?s, ?h, 0))"
      using d1(1) d2(1) s(2) st ht_shape_get [OF s(1), of ?h] ty by (simp add: dictAddRaw_def Let_def)
    moreover have "entry_at (set_ht d2 ?s (used_incr ?t)) (?s, ?h, 0) = Some ?e"
      unfolding inc using st by (simp add: entry_at_def cell_get_def)
    ultimately show ?thesis using st d2(4) kp False unfolding inc by (simp add: keeps_def)
  qed
qed

end

section \<open>The table as a map\<close>

lemma option_eqI: "(\<And>v. x = Some v \<longleftrightarrow> y = Some v) \<Longrightarrow> x = y"
  by (metis option.exhaust)

context dict_keys
begin

lemma same_key_class:
  assumes "valid key" "valid k" "valid k'" "same_key ty key k'"
  shows "same_key ty k k' \<longleftrightarrow> same_key ty k key"
  using assms by (meson same_sym same_trans)

lemma dict_get_add:
  assumes "dict_inv ty valid d" "dict_inv ty valid d'" "mset (dict_entries d') = add_mset e (mset (dict_entries d))"
    "valid key" "same_key ty key (de_key e)" "valid k"
  shows "dict_get d' k = (if same_key ty k key then Some (de_val e) else dict_get d k)"
proof (rule option_eqI)
  fix v
  have s: "set (dict_entries d') = insert e (set (dict_entries d))"
    using arg_cong [OF assms(3), of set_mset] by simp
  have ve: "valid (de_key e)" using assms(2) s by (auto simp: dict_inv_def)
  have c: "same_key ty k (de_key e) \<longleftrightarrow> same_key ty k key" using same_key_class [OF assms(4,6) ve assms(5)] .
  have ne: "\<not> same_key ty (de_key e) (de_key f)" if "f \<in> set (dict_entries d)" for f
    using assms(2,3) that by (simp add: dict_inv_def uniq_keys_add)
  show "dict_get d' k = Some v \<longleftrightarrow> (if same_key ty k key then Some (de_val e) else dict_get d k) = Some v"
  proof (cases "same_key ty k key")
    case True
    have "\<not> same_key ty k (de_key f)" if f: "f \<in> set (dict_entries d)" for f
    proof
      assume "same_key ty k (de_key f)"
      moreover have "valid (de_key f)" using assms(1) f by (auto simp: dict_inv_def)
      ultimately show False using ne [OF f] True c ve assms(6) by (meson same_sym same_trans)
    qed
    then show ?thesis using dict_get_iff [OF assms(2,6)] True c s by auto
  next
    case False
    then show ?thesis using dict_get_iff [OF assms(2,6)] dict_get_iff [OF assms(1,6)] c s by auto
  qed
qed

text \<open>Read backwards, the same for a removed entry; and an entry replaced by one with its key.\<close>

lemma dict_get_remove:
  assumes "dict_inv ty valid d" "dict_inv ty valid d'" "mset (dict_entries d) = add_mset e (mset (dict_entries d'))"
    "valid key" "same_key ty key (de_key e)" "valid k"
  shows "dict_get d' k = (if same_key ty k key then None else dict_get d k)"
proof (cases "same_key ty k key")
  case True
  have ve: "valid (de_key e)" using assms(1,3) by (metis dict_inv_def mset_add set_mset_mset union_single_eq_member)
  have "\<not> has_key ty (mset (dict_entries d')) k"
  proof
    assume "has_key ty (mset (dict_entries d')) k"
    then obtain f where f: "f \<in># mset (dict_entries d')" "same_key ty k (de_key f)" by (auto simp: has_key_def)
    have "valid (de_key f)" using f(1) assms(2) by (simp add: dict_inv_def)
    then have "same_key ty (de_key e) (de_key f)"
      using f(2) True ve assms(4,5,6) by (meson same_sym same_trans)
    then show False using f(1) assms(1,3) by (simp add: dict_inv_def uniq_keys_add)
  qed
  then show ?thesis using True assms(2) dict_get_None [of d' k] by (simp add: dict_inv_def)
next
  case False
  then show ?thesis using dict_get_add [OF assms(2,1,3,4,5,6)] by simp
qed

lemma dict_get_update:
  assumes "dict_inv ty valid d" "dict_inv ty valid d'" "e \<in> set (dict_entries d)" "de_key f = de_key e"
    "add_mset e (mset (dict_entries d')) = add_mset f (mset (dict_entries d))"
    "valid key" "same_key ty key (de_key e)" "valid k"
  shows "dict_get d' k = (if same_key ty k key then Some (de_val f) else dict_get d k)"
proof (rule option_eqI)
  fix v
  obtain N where N: "mset (dict_entries d) = add_mset e N" using assms(3) by (metis mset_add set_mset_mset)
  then have N': "mset (dict_entries d') = add_mset f N" using assms(5) by (simp add: add_mset_commute)
  have s: "set (dict_entries d) = insert e (set_mset N)" "set (dict_entries d') = insert f (set_mset N)"
    using arg_cong [OF N, of set_mset] arg_cong [OF N', of set_mset] by auto
  have ve: "valid (de_key e)" using assms(1,3) by (auto simp: dict_inv_def)
  have c: "same_key ty k (de_key e) \<longleftrightarrow> same_key ty k key" using same_key_class [OF assms(6,8) ve assms(7)] .
  have "\<not> same_key ty k (de_key g)" if "same_key ty k key" and g: "g \<in># N" for g
  proof
    assume "same_key ty k (de_key g)"
    moreover have "valid (de_key g)" using g s assms(1) by (auto simp: dict_inv_def)
    ultimately have "same_key ty (de_key e) (de_key g)" using that(1) c ve assms(8) by (meson same_sym same_trans)
    then show False using g N assms(1) by (simp add: dict_inv_def uniq_keys_add)
  qed
  then show "dict_get d' k = Some v \<longleftrightarrow> (if same_key ty k key then Some (de_val f) else dict_get d k) = Some v"
    using dict_get_iff [OF assms(2,8)] dict_get_iff [OF assms(1,8)] c s assms(4) by auto
qed

lemma entry_at_get:
  assumes "dict_inv ty valid d" "valid key" "entry_at d he = Some e" "same_key ty key (de_key e)"
  shows "dict_get d key = Some (de_val e)"
  using dict_get_iff [OF assms(1,2)] entry_at_entries [OF assms(1,3)] assms(4) by blast

lemma dict_get_has: "dict_inv ty valid d \<Longrightarrow> has_key ty (mset (dict_entries d)) key \<longleftrightarrow> dict_get d key \<noteq> None"
  using dict_get_None [of d key] by (simp add: dict_inv_def)

lemma keeps_get: "dict_inv ty valid d \<Longrightarrow> dict_inv ty valid d' \<Longrightarrow> keeps d d' \<Longrightarrow> valid k \<Longrightarrow> dict_get d' k = dict_get d k"
  using dict_get_mset [of d d' k] by (simp add: keeps_def)

section \<open>Operations on the map\<close>

lemma dictFetchValue_spec:
  assumes "dict_inv ty valid d" "valid key"
  shows "\<exists>d'. dictFetchValue d key = Some (d', case dict_get d key of None \<Rightarrow> None | Some v \<Rightarrow> v) \<and>
    dict_inv ty valid d' \<and> keeps d d'"
proof -
  obtain d' r where d': "dictFind d key = Some (d', r)" "dict_inv ty valid d'" "keeps d d'"
    "case r of None \<Rightarrow> \<not> has_key ty (mset (dict_entries d)) key
     | Some he \<Rightarrow> \<exists>e. entry_at d' he = Some e \<and> same_key ty key (de_key e)"
    using dictFind_spec [OF assms] by blast
  show ?thesis
  proof (cases r)
    case None
    then show ?thesis using d' dict_get_has [OF assms(1)] by (auto simp: dictFetchValue_def)
  next
    case (Some he)
    then obtain e where e: "entry_at d' he = Some e" "same_key ty key (de_key e)" using d'(4) by auto
    have "dict_get d key = Some (de_val e)"
      using entry_at_get [OF d'(2) assms(2) e] keeps_get [OF assms(1) d'(2,3) assms(2)] by simp
    then show ?thesis using d' Some e by (auto simp: dictFetchValue_def)
  qed
qed

lemma dictAdd_spec:
  assumes "dict_inv ty valid d" "valid key" "dict_room d"
  shows "\<exists>d'. dictAdd can_resize d key v = Some (d', dict_get d key = None) \<and> dict_inv ty valid d' \<and>
    dict_cap d' \<le> 2 ^ 31 \<and> d_iterators d' = d_iterators d \<and> d_log d' = d_log d \<and>
    dictSize d' = dictSize d + (if dict_get d key = None then 1 else 0) \<and>
    (\<forall>k. valid k \<longrightarrow> dict_get d' k = (if dict_get d key = None \<and> same_key ty k key then Some (Some (dup_val ty v)) else dict_get d k))"
proof -
  let ?e = "\<lparr>de_key = dup_key ty key, de_val = None\<rparr>"
  obtain d1 r where d1: "dictAddRaw can_resize d key = Some (d1, r)" "dict_inv ty valid d1" "dict_cap d1 \<le> 2 ^ 31"
    "d_iterators d1 = d_iterators d" "d_log d1 = d_log d"
    "if has_key ty (mset (dict_entries d)) key then r = None \<and> keeps d d1
     else \<exists>he. r = Some he \<and> entry_at d1 he = Some ?e \<and> mset (dict_entries d1) = add_mset ?e (mset (dict_entries d))"
    using dictAddRaw_spec [OF assms] by blast
  show ?thesis
  proof (cases "dict_get d key = None")
    case False
    then have "r = None" "keeps d d1" using d1(6) dict_get_has [OF assms(1)] by auto
    then show ?thesis using False d1 keeps_get [OF assms(1) d1(2)] keeps_size [OF assms(1) d1(2)] by (auto simp: dictAdd_def)
  next
    case True
    then obtain he where he: "r = Some he" "entry_at d1 he = Some ?e" "mset (dict_entries d1) = add_mset ?e (mset (dict_entries d))"
      using d1(6) dict_get_has [OF assms(1)] by auto
    obtain d2 where d2: "dictSetVal d1 he v = Some d2" "dict_inv ty valid d2" "d_iterators d2 = d_iterators d1" "d_log d2 = d_log d1"
      "dict_cap d2 = dict_cap d1"
      "add_mset ?e (mset (dict_entries d2)) = add_mset (?e\<lparr>de_val := Some (dup_val ty v)\<rparr>) (mset (dict_entries d1))"
      using dictSetVal_spec [OF d1(2) he(2)] by blast
    let ?f = "\<lparr>de_key = dup_key ty key, de_val = Some (dup_val ty v)\<rparr>"
    have m: "mset (dict_entries d2) = add_mset ?f (mset (dict_entries d))"
      using d2(6) he(3) by (simp add: add_mset_commute)
    have "dictSize d2 = dictSize d + 1"
      using dictSize_entries [OF d2(2)] dictSize_entries [OF assms(1)] arg_cong [OF m, of size] by simp
    moreover have "dict_get d2 k = (if same_key ty k key then Some (Some (dup_val ty v)) else dict_get d k)" if "valid k" for k
      using dict_get_add [OF assms(1) d2(2) m assms(2) _ that] dup_same [OF assms(2)] by simp
    ultimately show ?thesis using True d1 d2 he(1) by (simp add: dictAdd_def)
  qed
qed

lemma dictReplace_spec:
  assumes "dict_inv ty valid d" "valid key" "dict_room d"
  shows "\<exists>d'. dictReplace can_resize d key v = Some (d', dict_get d key = None) \<and> dict_inv ty valid d' \<and>
    dict_cap d' \<le> 2 ^ 31 \<and> d_iterators d' = d_iterators d \<and>
    dictSize d' = dictSize d + (if dict_get d key = None then 1 else 0) \<and>
    d_log d' = d_log d @ (case dict_get d key of None \<Rightarrow> [] | Some old \<Rightarrow> if valDestructor ty then [FreeVal old] else []) \<and>
    (\<forall>k. valid k \<longrightarrow> dict_get d' k = (if same_key ty k key then Some (Some (dup_val ty v)) else dict_get d k))"
proof -
  obtain d1 where d1: "dictAdd can_resize d key v = Some (d1, dict_get d key = None)" "dict_inv ty valid d1"
    "dict_cap d1 \<le> 2 ^ 31" "d_iterators d1 = d_iterators d" "d_log d1 = d_log d"
    "\<forall>k. valid k \<longrightarrow> dict_get d1 k = (if dict_get d key = None \<and> same_key ty k key then Some (Some (dup_val ty v)) else dict_get d k)"
    "dictSize d1 = dictSize d + (if dict_get d key = None then 1 else 0)"
    using dictAdd_spec [OF assms] by blast
  show ?thesis
  proof (cases "dict_get d key = None")
    case True
    then show ?thesis using d1 by (simp add: dictReplace_def)
  next
    case False
    then have g1: "dict_get d1 k = dict_get d k" if "valid k" for k using d1(6) that by auto
    obtain d2 r where d2: "dictFind d1 key = Some (d2, r)" "dict_inv ty valid d2" "keeps d1 d2" "dict_cap d2 \<le> dict_cap d1"
      "case r of None \<Rightarrow> \<not> has_key ty (mset (dict_entries d1)) key
       | Some he \<Rightarrow> \<exists>e. entry_at d2 he = Some e \<and> same_key ty key (de_key e)"
      using dictFind_spec [OF d1(2) assms(2)] by blast
    have "has_key ty (mset (dict_entries d1)) key" using False g1 assms(2) dict_get_has [OF d1(2)] by simp
    then obtain he e where he: "r = Some he" "entry_at d2 he = Some e" "same_key ty key (de_key e)"
      using d2(5) by (cases r) auto
    let ?f = "e\<lparr>de_val := Some (dup_val ty v)\<rparr>"
    obtain d3 where d3: "dictSetVal d2 he v = Some d3" "dict_inv ty valid d3" "d_iterators d3 = d_iterators d2" "d_log d3 = d_log d2"
      "dict_cap d3 = dict_cap d2" "add_mset e (mset (dict_entries d3)) = add_mset ?f (mset (dict_entries d2))"
      using dictSetVal_spec [OF d2(2) he(2)] by blast
    have g2: "dict_get d2 k = dict_get d k" if "valid k" for k using keeps_get [OF d1(2) d2(2,3) that] g1 [OF that] by simp
    have old: "dict_get d key = Some (de_val e)" using entry_at_get [OF d2(2) assms(2) he(2,3)] g2 [OF assms(2)] by simp
    let ?d = "d3\<lparr>d_log := d_log d3 @ dictFreeVal (d_type d3) e\<rparr>"
    have ent: "dict_entries ?d = dict_entries d3" by (simp add: dict_entries_def)
    have inv: "dict_inv ty valid ?d" using d3(2) unfolding dict_inv_def ent by simp
    have g: "dict_get ?d k = (if same_key ty k key then Some (Some (dup_val ty v)) else dict_get d k)" if "valid k" for k
      using dict_get_update [OF d2(2) inv entry_at_entries [OF d2(2) he(2)], of ?f key k] d3(6) assms(2) he(3) that g2 [OF that]
      unfolding ent by simp
    have "size (add_mset e (mset (dict_entries d3))) = size (add_mset ?f (mset (dict_entries d2)))" using d3(6) by simp
    then have "dictSize d3 = dictSize d2" using dictSize_entries [OF d3(2)] dictSize_entries [OF d2(2)] by simp
    then have sz: "dictSize ?d = dictSize d" using keeps_size [OF d1(2) d2(2,3)] d1(7) False by (simp add: dictSize_def)
    have "d_type d3 = ty" using d3(2) by (simp add: dict_inv_def)
    then have "d_log ?d = d_log d @ (if valDestructor ty then [FreeVal (de_val e)] else [])"
      using d1(5) d2(3) d3(4) by (simp add: keeps_def dictFreeVal_def)
    moreover have "dict_cap ?d = dict_cap d3" by (simp add: dict_cap_def)
    moreover have "d_iterators ?d = d_iterators d" using d1(4) d2(3) d3(3) by (simp add: keeps_def)
    moreover have "dictReplace can_resize d key v = Some (?d, False)"
      using d1(1) False d2(1) he(1,2) d3(1) by (simp add: dictReplace_def)
    ultimately show ?thesis using old inv g d2(4) d3(5) d1(3) sz by (intro exI [of _ ?d]) simp
  qed
qed

end

lemma dict_log_simps [simp]:
  "dict_entries (d\<lparr>d_log := l\<rparr>) = dict_entries d" "dict_cap (d\<lparr>d_log := l\<rparr>) = dict_cap d"
  "dict_inv ty valid (d\<lparr>d_log := l\<rparr>) = dict_inv ty valid d"
  by (simp_all add: dict_entries_def dict_cap_def dict_inv_def)

text \<open>Unlinking an entry from its chain.\<close>

lemma unlink_entry:
  assumes inv: "dict_inv ty valid d" and e: "entry_at d (s, i, p) = Some e"
  shows "\<exists>es t1 t2. ht_get (ht_of d s) i = Some es \<and> cell_get es p = Some e \<and>
    ht_put (ht_of d s) i (take p es @ drop (Suc p) es) = Some t1 \<and> used_decr t1 = Some t2 \<and>
    dict_inv ty valid (set_ht d s t2) \<and> dict_cap (set_ht d s t2) = dict_cap d \<and>
    mset (dict_entries d) = add_mset e (mset (dict_entries (set_ht d s t2)))"
proof -
  obtain k b where sh: "ht_shape ty k b (ht_of d s)" "i < 2 ^ k" and p: "p < length (b ! i)" "b ! i ! p = e"
    using entry_at_shape [OF inv e] by blast
  let ?es = "take p (b ! i) @ drop (Suc p) (b ! i)"
  let ?t = "(ht_of d s)\<lparr>ht_table := Some (b[i := ?es]), ht_used := length (concat b) - 1\<rparr>"
  have m: "mset (b ! i) = add_mset e (mset ?es)"
    using p id_take_nth_drop [OF p(1)] by (metis mset.simps(2) mset_append union_mset_add_mset_right)
  have es1: "\<forall>f \<in> set ?es. hash_bits ty k (de_key f) = i \<and> valid (de_key f)"
    using bucket_ok [OF inv sh] by (auto dest: in_set_takeD in_set_dropD)
  have le: "length (b ! i) \<le> length (concat b)"
    using length_concat_update [of i b "[]"] sh(2) ht_shapeD(4) [OF sh(1)] by simp
  have n1: "length (concat b) - 1 + length (b ! i) = length (concat b) + length ?es" using p le by auto
  have cancel: "mset (dict_entries d) = add_mset e M" if "M + mset (b ! i) = mset (dict_entries d) + mset ?es" for M
  proof -
    have "add_mset e M + mset ?es = mset (dict_entries d) + mset ?es" using that unfolding m by simp
    then show ?thesis by (simp only: add_right_cancel)
  qed
  then have u1: "uniq_keys ty M" if "M + mset (b ! i) = mset (dict_entries d) + mset ?es" for M
    using that inv by (metis dict_inv_def uniq_keys_add)
  have c1: "s = dictIsRehashing d \<or> b ! i \<noteq> []" using p by auto
  note st = store_chain [OF inv sh es1 n1 c1 u1]
  have "0 < length (concat b)" using p(1) le by linarith
  then have "concat b \<noteq> []" by (metis length_greater_0_conv)
  then have "used_decr ((ht_of d s)\<lparr>ht_table := Some (b[i := ?es])\<rparr>) = Some ?t"
    using ht_shapeD(5) [OF sh(1)] by (simp add: used_decr_def)
  moreover have "mset (dict_entries d) = add_mset e (mset (dict_entries (set_ht d s ?t)))"
    using st by (intro cancel) blast
  ultimately show ?thesis using st p ht_shape_get [OF sh]
    by (intro exI [of _ "b ! i"] exI [of _ "(ht_of d s)\<lparr>ht_table := Some (b[i := ?es])\<rparr>"] exI [of _ ?t] conjI)
       (simp_all add: cell_get_def)
qed

context dict_keys
begin

lemma dictGenericDelete_spec:
  assumes "dict_inv ty valid d" "valid key"
  shows "\<exists>d'. dictGenericDelete d key nofree = Some (d', dict_get d key \<noteq> None) \<and> dict_inv ty valid d' \<and>
    dict_cap d' \<le> dict_cap d \<and> d_iterators d' = d_iterators d \<and>
    dictSize d = dictSize d' + (if dict_get d key = None then 0 else 1) \<and>
    (\<forall>k. valid k \<longrightarrow> dict_get d' k = (if same_key ty k key then None else dict_get d k)) \<and>
    (dict_get d key = None \<or> nofree \<longrightarrow> d_log d' = d_log d) \<and>
    (\<forall>v. dict_get d key = Some v \<and> \<not> nofree \<longrightarrow>
      (\<exists>k'. same_key ty key k' \<and> d_log d' = d_log d @ (if keyDestructor ty then [FreeKey k'] else [])
         @ (if valDestructor ty then [FreeVal v] else [])))"
proof (cases "ht_size (d_ht0 d) = 0")
  case True
  then have "d_ht0 d = dictReset" using assms(1) by (auto simp: dict_inv_def elim!: ht_wf_cases simp: ht_shapeD)
  moreover from this have "d_ht1 d = dictReset" using assms(1) by (auto simp: dict_inv_def split: if_splits)
  ultimately have e: "dict_entries d = []" by (simp add: dict_entries_def)
  then have "dict_get d k = None" for k by (simp add: dict_get_def)
  then show ?thesis using True assms by (simp add: dictGenericDelete_def)
next
  case False
  then have n0: "d_ht0 d \<noteq> dictReset" by (auto simp: dictReset_def)
  obtain d1 where d1: "rehash_if_needed d = Some d1" "dict_inv ty valid d1" "keeps d d1" "dict_cap d1 \<le> dict_cap d"
    "\<not> dictIsRehashing d \<longrightarrow> d1 = d"
    using rehash_if_needed_spec [OF assms(1)] by blast
  have "d_ht0 d1 \<noteq> dictReset"
    using rehash_nonreset [OF assms(1) n0 d1(1)] .
  then obtain r where r: "search_tables d1 key = Some r"
    "case r of None \<Rightarrow> \<not> has_key ty (mset (dict_entries d1)) key
     | Some he \<Rightarrow> \<exists>e. entry_at d1 he = Some e \<and> same_key ty key (de_key e)"
    using search_found [OF d1(2) assms(2)] by blast
  have g1: "dict_get d1 k = dict_get d k" if "valid k" for k using keeps_get [OF assms(1) d1(2,3) that] .
  show ?thesis
  proof (cases r)
    case None
    then have n: "dict_get d key = None" using r(2) dict_get_has [OF d1(2)] g1 [OF assms(2)] by simp
    have "dict_get d k = None" if "valid k" "same_key ty k key" for k
    proof (rule ccontr)
      assume "dict_get d k \<noteq> None"
      then obtain e where "e \<in> set (dict_entries d)" "same_key ty k (de_key e)"
        using dict_get_has [OF assms(1)] by (auto simp: has_key_def)
      moreover from this have "valid (de_key e)" using assms(1) by (auto simp: dict_inv_def)
      ultimately have "dict_get d key \<noteq> None"
        using dict_get_iff [OF assms(1,2)] that assms(2) same_sym same_trans by (metis not_None_eq)
      then show False using n by simp
    qed
    then show ?thesis using None n False d1 r(1) g1 keeps_size [OF assms(1) d1(2,3)]
      by (auto simp: dictGenericDelete_def keeps_def)
  next
    case (Some he)
    then obtain e where e: "entry_at d1 he = Some e" "same_key ty key (de_key e)" using r(2) by auto
    obtain s i p where he: "he = (s, i, p)" by (cases he)
    obtain es t1 t2 where un: "ht_get (ht_of d1 s) i = Some es" "cell_get es p = Some e"
      "ht_put (ht_of d1 s) i (take p es @ drop (Suc p) es) = Some t1" "used_decr t1 = Some t2"
      "dict_inv ty valid (set_ht d1 s t2)" "dict_cap (set_ht d1 s t2) = dict_cap d1"
      "mset (dict_entries d1) = add_mset e (mset (dict_entries (set_ht d1 s t2)))"
      using unlink_entry [OF d1(2)] e(1) he by blast
    have v: "dict_get d key = Some (de_val e)" using entry_at_get [OF d1(2) assms(2) e] g1 [OF assms(2)] by simp
    let ?ev = "if nofree then [] else dictFreeKey ty e @ dictFreeVal ty e"
    let ?d = "(set_ht d1 s t2)\<lparr>d_log := d_log d1 @ ?ev\<rparr>"
    have ty: "d_type d1 = ty" using d1(2) by (simp add: dict_inv_def)
    have res: "dictGenericDelete d key nofree = Some (?d, True)"
      using False d1(1) r(1) Some he un ty by (simp add: dictGenericDelete_def Let_def)
    have inv: "dict_inv ty valid ?d" using un(5) by simp
    have g: "dict_get ?d k = (if same_key ty k key then None else dict_get d k)" if "valid k" for k
      using dict_get_remove [OF d1(2) inv _ assms(2) e(2) that] un(7) g1 [OF that] by simp
    have sz: "dictSize d = dictSize ?d + 1"
      using dictSize_entries [OF inv] dictSize_entries [OF d1(2)] keeps_size [OF assms(1) d1(2,3)] arg_cong [OF un(7), of size]
      by simp
    have cap: "dict_cap ?d \<le> dict_cap d" using un(6) d1(4) by simp
    have it: "d_iterators ?d = d_iterators d" "d_log ?d = d_log d @ ?ev" using d1(3) by (simp_all add: keeps_def)
    define d' where "d' = ?d"
    note facts = res inv g sz cap it
    show ?thesis using v e(2) facts [folded d'_def]
      by (intro exI [of _ d'] conjI) (auto simp: dictFreeKey_def dictFreeVal_def)
  qed
qed

end

section \<open>Clearing: lemmas\<close>

definition free_entry :: "('k, 'v) dictType \<Rightarrow> ('k, 'v) dictEntry \<Rightarrow> ('k, 'v) dict_event list" where
  "free_entry ty e = dictFreeKey ty e @ dictFreeVal ty e"

definition no_callback :: "('k, 'v) dict_event list \<Rightarrow> ('k, 'v) dict_event list" where
  "no_callback = filter (\<lambda>ev. ev \<noteq> Callback)"

lemma no_callback_simps [simp]:
  "no_callback [] = []" "no_callback (xs @ ys) = no_callback xs @ no_callback ys"
  "no_callback [Callback] = []" "no_callback (free_entry ty e) = free_entry ty e"
  by (simp_all add: no_callback_def free_entry_def dictFreeKey_def dictFreeVal_def)

lemma no_callback_frees [simp]: "no_callback (concat (map (free_entry ty) es)) = concat (map (free_entry ty) es)"
  by (induction es) auto

lemma clear_chain_spec:
  "length es \<le> u \<Longrightarrow> clear_chain ty es u = Some (concat (map (free_entry ty) es), u - length es)"
  by (induction es arbitrary: u) (auto simp: free_entry_def Suc_le_eq)

lemma clear_loop_spec:
  assumes "ht_table t = Some b" "i + n = length b" "u = length (concat (drop i b))"
  shows "\<exists>ev. clear_loop cb ty t n i u = Some ev \<and> no_callback ev = concat (map (free_entry ty) (concat (drop i b))) \<and>
    (\<not> cb \<longrightarrow> ev = no_callback ev)"
  using assms(2,3)
proof (induction n arbitrary: i u)
  case 0
  then show ?case by simp
next
  case (Suc n)
  show ?case
  proof (cases "u = 0")
    case True
    then have "concat (drop i b) = []" using Suc.prems(2) by (metis length_0_conv)
    then show ?thesis using True by (simp del: concat_eq_Nil_conv)
  next
    case False
    have i: "i < length b" using Suc.prems(1) by simp
    then have d: "drop i b = b ! i # drop (i + 1) b" by (simp add: Cons_nth_drop_Suc)
    have g: "ht_get t i = Some (b ! i)" using assms(1) i by (simp add: ht_get_def cell_get_def)
    have "u = length (b ! i) + length (concat (drop (i + 1) b))" using Suc.prems(2) unfolding d by simp
    then have c: "clear_chain ty (b ! i) u = Some (concat (map (free_entry ty) (b ! i)), length (concat (drop (i + 1) b)))"
      using clear_chain_spec [of "b ! i" u] by simp
    obtain ev where ev: "clear_loop cb ty t n (i + 1) (length (concat (drop (i + 1) b))) = Some ev"
      "no_callback ev = concat (map (free_entry ty) (concat (drop (i + 1) b)))" "\<not> cb \<longrightarrow> ev = no_callback ev"
      using Suc.IH [of "i + 1"] Suc.prems(1) by auto
    let ?cb = "if cb \<and> i AND 65535 = 0 then [Callback] else []"
    have "clear_loop cb ty t (Suc n) i u = Some (?cb @ concat (map (free_entry ty) (b ! i)) @ ev)"
      using False g c ev(1) by simp
    moreover have "no_callback ?cb = []" by simp
    ultimately show ?thesis using ev(2,3) unfolding d by simp
  qed
qed

lemma dictClear_spec:
  assumes "dict_inv ty valid d \<or> d_type d = ty \<and> ht_wf ty (ht_of d s)"
  shows "\<exists>ev. dictClear cb d s = Some ((set_ht d s dictReset)\<lparr>d_log := d_log d @ ev\<rparr>) \<and>
    no_callback ev = concat (map (free_entry ty) (ht_entries (ht_of d s))) \<and> (\<not> cb \<longrightarrow> ev = no_callback ev)"
proof -
  have ty: "d_type d = ty" and wf: "ht_wf ty (ht_of d s)" using assms by (auto simp: dict_inv_def ht_of_def)
  from wf show ?thesis
  proof (cases rule: ht_wf_cases)
    case 1
    then have "dictClear cb d s = Some ((set_ht d s dictReset)\<lparr>d_log := d_log d @ []\<rparr>)"
      by (simp add: dictClear_def) (simp add: dictReset_def)
    then show ?thesis using 1 by (intro exI [of _ "[]"]) simp
  next
    case (2 k b)
    note S = ht_shapeD [OF 2]
    have "0 + 2 ^ k = length b" "length (concat b) = length (concat (drop 0 b))" using S(4) by simp_all
    from clear_loop_spec [OF S(1) this] obtain ev where "clear_loop cb ty (ht_of d s) (2 ^ k) 0 (length (concat b)) = Some ev"
      "no_callback ev = concat (map (free_entry ty) (concat b))" "\<not> cb \<longrightarrow> ev = no_callback ev"
      by (metis drop0)
    then show ?thesis using S by (intro exI [of _ ev]) (simp add: dictClear_def ty)
  qed
qed

lemma dictEmpty_spec:
  assumes "dict_inv ty valid d"
  shows "\<exists>ev. dictEmpty cb d = Some ((dictCreate ty)\<lparr>d_log := d_log d @ ev\<rparr>) \<and>
    no_callback ev = concat (map (free_entry ty) (dict_entries d)) \<and> (\<not> cb \<longrightarrow> ev = no_callback ev) \<and>
    (\<not> cb \<longrightarrow> dictRelease d = Some (d_log d @ ev))"
proof -
  obtain ev0 where ev0: "dictClear cb d False = Some ((set_ht d False dictReset)\<lparr>d_log := d_log d @ ev0\<rparr>)"
    "no_callback ev0 = concat (map (free_entry ty) (ht_entries (d_ht0 d)))" "\<not> cb \<longrightarrow> ev0 = no_callback ev0"
    using dictClear_spec [of ty valid d False cb] assms by (auto simp: ht_of_def)
  let ?d = "(set_ht d False dictReset)\<lparr>d_log := d_log d @ ev0\<rparr>"
  have h: "ht_of ?d True = d_ht1 d" by (simp add: set_ht_def ht_of_def)
  have "d_type ?d = ty \<and> ht_wf ty (ht_of ?d True)" unfolding h using assms by (simp add: dict_inv_def)
  then obtain ev1 where ev1: "dictClear cb ?d True = Some ((set_ht ?d True dictReset)\<lparr>d_log := d_log ?d @ ev1\<rparr>)"
    "no_callback ev1 = concat (map (free_entry ty) (ht_entries (d_ht1 d)))" "\<not> cb \<longrightarrow> ev1 = no_callback ev1"
    using dictClear_spec [of ty valid ?d True cb] unfolding h by blast
  have "dictEmpty cb d = Some ((dictCreate ty)\<lparr>d_log := d_log d @ (ev0 @ ev1)\<rparr>)"
    using ev0(1) ev1(1) assms by (simp add: dictEmpty_def dictCreate_def set_ht_def dict_inv_def)
  moreover have "\<not> cb \<longrightarrow> dictRelease d = Some (d_log d @ (ev0 @ ev1))"
    using ev0(1) ev1(1) by (auto simp: dictRelease_def)
  moreover have "no_callback (ev0 @ ev1) = concat (map (free_entry ty) (dict_entries d))"
    using ev0(2) ev1(2) by (simp add: dict_entries_def)
  ultimately show ?thesis using ev0(3) ev1(3) by (intro exI [of _ "ev0 @ ev1"]) auto
qed

section \<open>Timed rehashing\<close>

lemma rehash_ms_spec:
  assumes "dict_inv ty valid d"
  shows "\<exists>d' r. rehash_ms_loop clock ms i d n = Some (d', r) \<and> dict_inv ty valid d' \<and> keeps d d' \<and>
    (dictIsRehashing d' \<longrightarrow> (\<exists>j. clock j - clock 0 > ms))"
  using assms
proof (induction "nat (int (ht_size (d_ht0 d)) - d_rehashidx d)" arbitrary: d i n rule: less_induct)
  case less
  obtain d1 again where d1: "dictRehash d 100 = Some (d1, again)" "dict_inv ty valid d1" "keeps d d1"
    "again = dictIsRehashing d1" "\<not> dictIsRehashing d \<longrightarrow> d1 = d"
    "again \<longrightarrow> ht_size (d_ht0 d1) = ht_size (d_ht0 d) \<and> d_rehashidx d < d_rehashidx d1"
    using dictRehash_spec [OF less.prems, of 100] by auto
  show ?case
  proof (cases "\<not> again \<or> clock i - clock 0 > ms")
    case True
    then show ?thesis using d1 by (subst rehash_ms_loop.simps) auto
  next
    case False
    have "d_rehashidx d1 \<le> int (ht_size (d_ht0 d1))" using d1(2,4) False by (auto simp: dict_inv_def dictIsRehashing_def)
    then have "nat (int (ht_size (d_ht0 d1)) - d_rehashidx d1) < nat (int (ht_size (d_ht0 d)) - d_rehashidx d)"
      using d1(6) False by auto
    from less.hyps [OF this d1(2), of "i + 1" "n + 100"] show ?thesis using d1(1,3) False keeps_trans
      by (subst rehash_ms_loop.simps) fastforce
  qed
qed

section \<open>The empty dictionary\<close>

lemma dict_inv_create: "dict_inv ty valid (dictCreate ty)"
  by (simp add: dict_inv_def dictCreate_def ht_wf_def dict_entries_def)

lemma dict_create_simps [simp]:
  "dict_get (dictCreate ty) k = None" "dictSize (dictCreate ty) = 0" "dict_room (dictCreate ty)" "d_log (dictCreate ty) = []"
  by (simp_all add: dict_get_def dictCreate_def dict_entries_def dictSize_def dict_room_def dict_cap_def)
     (simp_all add: dictReset_def)

end
