(* ===== verification/DictMap.thy ===== *)
theory DictMap
  imports Dict
begin

text \<open>
  What a dictionary promises: a finite map. The operations of \<open>dict.c\<close> are put side by side
  with the operations of a map, and runs of one simulate runs of the other, whatever resizing and
  incremental rehashing happen in between.
\<close>

section \<open>Operations and results\<close>

datatype ('k, 'v) dict_op = DAdd 'k 'v | DReplace 'k 'v | DDelete 'k | DFetch 'k | DRehash nat | DResize

datatype 'v dict_res = RBool bool | RVal "'v option" | RUnit

primrec dict_step :: "bool \<Rightarrow> ('k, 'v) dict \<Rightarrow> ('k, 'v) dict_op \<Rightarrow> (('k, 'v) dict \<times> 'v dict_res) option" where
  "dict_step can_resize d (DAdd k v) = map_option (\<lambda>(d', ok). (d', RBool ok)) (dictAdd can_resize d k v)"
| "dict_step can_resize d (DReplace k v) = map_option (\<lambda>(d', new). (d', RBool new)) (dictReplace can_resize d k v)"
| "dict_step can_resize d (DDelete k) = map_option (\<lambda>(d', ok). (d', RBool ok)) (dictDelete d k)"
| "dict_step can_resize d (DFetch k) = map_option (\<lambda>(d', v). (d', RVal v)) (dictFetchValue d k)"
| "dict_step can_resize d (DRehash n) = map_option (\<lambda>(d', again). (d', RUnit)) (dictRehash d n)"
| "dict_step can_resize d DResize = Some (fst (dictResize can_resize d), RUnit)"

text \<open>The setting of \<open>dict_can_resize\<close> may change between any two operations.\<close>

primrec dict_run :: "('k, 'v) dict \<Rightarrow> (bool \<times> ('k, 'v) dict_op) list \<Rightarrow> (('k, 'v) dict \<times> 'v dict_res list) option" where
  "dict_run d [] = Some (d, [])"
| "dict_run d (x # xs) =
     do {
       (d1, r) \<leftarrow> dict_step (fst x) d (snd x);
       (d2, rs) \<leftarrow> dict_run d1 xs;
       Some (d2, r # rs)
     }"

section \<open>The same operations on a map\<close>

definition map_put :: "('k \<Rightarrow> 'k \<Rightarrow> bool) \<Rightarrow> ('k \<Rightarrow> 'v option) \<Rightarrow> 'k \<Rightarrow> 'v option \<Rightarrow> 'k \<Rightarrow> 'v option" where
  "map_put eq m k v = (\<lambda>k'. if eq k' k then v else m k')"

primrec map_step :: "('k \<Rightarrow> 'k \<Rightarrow> bool) \<Rightarrow> ('k \<Rightarrow> 'v option) \<Rightarrow> ('k, 'v) dict_op \<Rightarrow> ('k \<Rightarrow> 'v option) \<times> 'v dict_res" where
  "map_step eq m (DAdd k v) = (if m k = None then (map_put eq m k (Some v), RBool True) else (m, RBool False))"
| "map_step eq m (DReplace k v) = (map_put eq m k (Some v), RBool (m k = None))"
| "map_step eq m (DDelete k) = (map_put eq m k None, RBool (m k \<noteq> None))"
| "map_step eq m (DFetch k) = (m, RVal (m k))"
| "map_step eq m (DRehash n) = (m, RUnit)"
| "map_step eq m DResize = (m, RUnit)"

primrec map_run :: "('k \<Rightarrow> 'k \<Rightarrow> bool) \<Rightarrow> ('k \<Rightarrow> 'v option) \<Rightarrow> ('k, 'v) dict_op list \<Rightarrow> ('k \<Rightarrow> 'v option) \<times> 'v dict_res list" where
  "map_run eq m [] = (m, [])"
| "map_run eq m (x # xs) =
     (case map_step eq m x of (m1, r) \<Rightarrow> case map_run eq m1 xs of (m2, rs) \<Rightarrow> (m2, r # rs))"

primrec op_keys :: "('k, 'v) dict_op \<Rightarrow> 'k list" where
  "op_keys (DAdd k v) = [k]"
| "op_keys (DReplace k v) = [k]"
| "op_keys (DDelete k) = [k]"
| "op_keys (DFetch k) = [k]"
| "op_keys (DRehash n) = []"
| "op_keys DResize = []"

section \<open>The simulation\<close>

definition dict_sim ::
  "('k, 'v) dictType \<Rightarrow> ('k \<Rightarrow> bool) \<Rightarrow> nat \<Rightarrow> ('k \<Rightarrow> 'v option) \<Rightarrow> ('k, 'v) dict \<Rightarrow> bool" where
  "dict_sim ty valid n m d \<longleftrightarrow>
     dict_inv ty valid d \<and> dict_cap d \<le> 2 ^ 31 \<and> dictSize d \<le> n \<and>
     (\<forall>k. valid k \<longrightarrow> dict_get d k = map_option Some (m k))"

lemma dict_sim_room: "dict_sim ty valid n m d \<Longrightarrow> n \<le> 2 ^ 30 \<Longrightarrow> dict_room d"
  by (simp add: dict_sim_def dict_room_def)

lemma dict_sim_create: "dict_sim ty valid 0 (\<lambda>k. None) (dictCreate ty)"
  using dict_create_simps(3) [of ty] by (simp add: dict_sim_def dict_inv_create dict_room_def)

lemma dictResize_spec:
  fixes d :: "('k, 'v) dict"
  assumes "dict_inv ty valid d" "dictSize d < 2 ^ 31"
  shows "case dictResize can_resize d of (d', ok) \<Rightarrow> dict_inv ty valid d' \<and> keeps d d' \<and>
    dict_cap d' \<le> max (dict_cap d) (2 ^ 31)"
proof -
  let ?u = "ht_used (d_ht0 d)"
  have u: "int32 (int ?u)" using assms(2) by (simp add: dictSize_def int32_def)
  define sz where "sz = nat (if int ?u < 4 then 4 else int ?u)"
  have sz: "sz \<le> 2 ^ 31" using assms(2) by (simp add: sz_def dictSize_def)
  have eq: "dictResize can_resize d = (if \<not> can_resize \<or> dictIsRehashing d then (d, False) else dictExpand d sz)"
    by (simp add: dictResize_def to_int32_id [OF u] DICT_HT_INITIAL_SIZE_def sz_def)
  show ?thesis
  proof (cases "\<not> can_resize \<or> dictIsRehashing d")
    case True
    then show ?thesis unfolding eq using assms(1) by simp
  next
    case False
    then show ?thesis unfolding eq using dictExpand_spec [OF assms(1) sz] by auto
  qed
qed

context dict_keys
begin

lemma dict_sim_keeps:
  assumes "dict_sim ty valid n m d" "dict_inv ty valid d'" "keeps d d'" "dict_cap d' \<le> 2 ^ 31"
  shows "dict_sim ty valid (Suc n) m d'"
proof -
  have inv: "dict_inv ty valid d" using assms(1) by (simp add: dict_sim_def)
  have "dict_get d' k = map_option Some (m k)" if "valid k" for k
    using keeps_get [OF inv assms(2,3) that] assms(1) that by (simp add: dict_sim_def)
  then show ?thesis using assms keeps_size [OF inv assms(2,3)] by (simp add: dict_sim_def)
qed

lemma dict_step_sim:
  assumes sim: "dict_sim ty valid n m d" and n: "n < 2 ^ 30" and ks: "\<forall>k \<in> set (op_keys opn). valid k"
    and dup: "valDup ty = None" and eq: "\<And>a b. valid a \<Longrightarrow> valid b \<Longrightarrow> eq a b \<longleftrightarrow> same_key ty a b"
  shows "\<exists>d'. dict_step can_resize d opn = Some (d', snd (map_step eq m opn)) \<and>
    dict_sim ty valid (Suc n) (fst (map_step eq m opn)) d'"
proof -
  have inv: "dict_inv ty valid d" and cap: "dict_cap d \<le> 2 ^ 31" and sz: "dictSize d \<le> n"
    and get: "\<And>k. valid k \<Longrightarrow> dict_get d k = map_option Some (m k)" using sim by (simp_all add: dict_sim_def)
  have room: "dict_room d" using dict_sim_room [OF sim] n by simp
  have dv: "dup_val ty v = v" for v using dup by (simp add: dup_val_def)
  show ?thesis
  proof (cases opn)
    case (DAdd k v)
    then have k: "valid k" using ks by simp
    show ?thesis using dictAdd_spec [OF inv k room, of can_resize v] get k sz eq
      unfolding DAdd by (cases "m k") (auto simp: dict_sim_def dv map_put_def)
  next
    case (DReplace k v)
    then have k: "valid k" using ks by simp
    show ?thesis using dictReplace_spec [OF inv k room, of can_resize v] get k sz eq
      unfolding DReplace by (cases "m k") (auto simp: dict_sim_def dv map_put_def)
  next
    case (DDelete k)
    then have k: "valid k" using ks by simp
    obtain d' where d': "dictGenericDelete d k False = Some (d', dict_get d k \<noteq> None)" "dict_inv ty valid d'"
      "dict_cap d' \<le> dict_cap d" "dictSize d = dictSize d' + (if dict_get d k = None then 0 else 1)"
      "\<forall>k'. valid k' \<longrightarrow> dict_get d' k' = (if same_key ty k' k then None else dict_get d k')"
      using dictGenericDelete_spec [OF inv k, of False] by blast
    have "dict_sim ty valid (Suc n) (map_put eq m k None) d'"
      using d' cap sz get k eq by (auto simp: dict_sim_def map_put_def)
    moreover have "(dict_get d k \<noteq> None) = (m k \<noteq> None)" using get [OF k] by simp
    ultimately show ?thesis using d'(1) unfolding DDelete by (simp add: dictDelete_def)
  next
    case (DFetch k)
    then have k: "valid k" using ks by simp
    obtain d1 r where F: "dictFind d k = Some (d1, r)" "dict_cap d1 \<le> dict_cap d"
      using dictFind_spec [OF inv k] by blast
    obtain d' where d': "dictFetchValue d k = Some (d', case dict_get d k of None \<Rightarrow> None | Some v \<Rightarrow> v)"
      "dict_inv ty valid d'" "keeps d d'" using dictFetchValue_spec [OF inv k] by blast
    have "d' = d1" using d'(1) F(1) by (auto simp: dictFetchValue_def bind_eq_Some_conv split: option.splits)
    then have "dict_sim ty valid (Suc n) m d'" using dict_sim_keeps [OF sim d'(2,3)] F(2) cap by simp
    then show ?thesis using d'(1) get [OF k] unfolding DFetch by (cases "m k") auto
  next
    case (DRehash i)
    obtain d' again where d': "dictRehash d i = Some (d', again)" "dict_inv ty valid d'" "keeps d d'" "dict_cap d' \<le> dict_cap d"
      using dictRehash_spec [OF inv, of i] by blast
    show ?thesis using dict_sim_keeps [OF sim d'(2,3)] d'(1,4) cap unfolding DRehash by simp
  next
    case DResize
    obtain d' ok where d': "dictResize can_resize d = (d', ok)" by (cases "dictResize can_resize d")
    have "dictSize d < 2 ^ 31" using sz n by simp
    from dictResize_spec [OF inv this, of can_resize] dict_sim_keeps [OF sim, of d'] cap show ?thesis
      unfolding DResize d' by (simp add: d')
  qed
qed

lemma dict_run_sim:
  assumes "dict_sim ty valid n m d" "n + length xs \<le> 2 ^ 30" "\<forall>x \<in> set xs. \<forall>k \<in> set (op_keys (snd x)). valid k"
    "valDup ty = None" "\<And>a b. valid a \<Longrightarrow> valid b \<Longrightarrow> eq a b \<longleftrightarrow> same_key ty a b"
  shows "\<exists>d'. dict_run d xs = Some (d', snd (map_run eq m (map snd xs))) \<and>
    dict_sim ty valid (n + length xs) (fst (map_run eq m (map snd xs))) d'"
  using assms(1-3)
proof (induction xs arbitrary: n m d)
  case Nil
  then show ?case by simp
next
  case (Cons x xs)
  obtain m1 r where M: "map_step eq m (snd x) = (m1, r)" by (cases "map_step eq m (snd x)")
  obtain d1 where d1: "dict_step (fst x) d (snd x) = Some (d1, r)" "dict_sim ty valid (Suc n) m1 d1"
    using dict_step_sim [OF Cons.prems(1) _ _ assms(4,5), of "snd x" "fst x"] Cons.prems(2,3) M by auto
  from Cons.IH [OF d1(2)] Cons.prems(2,3) obtain d2 where
    "dict_run d1 xs = Some (d2, snd (map_run eq m1 (map snd xs)))"
    "dict_sim ty valid (Suc n + length xs) (fst (map_run eq m1 (map snd xs))) d2" by auto
  then show ?case using d1(1) M by (auto split: prod.splits)
qed

end

section \<open>Rehashing ends\<close>

text \<open>\<open>n\<close> calls of \<open>dictRehash\<close> in a row.\<close>

primrec rehash_times :: "nat \<Rightarrow> nat \<Rightarrow> ('k, 'v) dict \<Rightarrow> ('k, 'v) dict option" where
  "rehash_times 0 n d = Some d"
| "rehash_times (Suc c) n d = do { (d', again) \<leftarrow> dictRehash d n; rehash_times c n d' }"

lemma rehash_times_spec:
  assumes "dict_inv ty valid d" "0 < n"
  shows "\<exists>d'. rehash_times c n d = Some d' \<and> dict_inv ty valid d' \<and> keeps d d' \<and>
    (dictIsRehashing d' \<longrightarrow> ht_size (d_ht0 d') = ht_size (d_ht0 d) \<and> d_rehashidx d + int c \<le> d_rehashidx d')"
  using assms(1)
proof (induction c arbitrary: d)
  case (Suc c)
  obtain d1 again where d1: "dictRehash d n = Some (d1, again)" "dict_inv ty valid d1" "keeps d d1"
    "again = dictIsRehashing d1" "again \<longrightarrow> ht_size (d_ht0 d1) = ht_size (d_ht0 d) \<and> d_rehashidx d < d_rehashidx d1"
    using dictRehash_spec [OF Suc.prems, of n] assms(2) by auto
  obtain d2 where d2: "rehash_times c n d1 = Some d2" "dict_inv ty valid d2" "keeps d1 d2"
    "dictIsRehashing d2 \<longrightarrow> ht_size (d_ht0 d2) = ht_size (d_ht0 d1) \<and> d_rehashidx d1 + int c \<le> d_rehashidx d2"
    using Suc.IH [OF d1(2)] by blast
  have "\<not> dictIsRehashing d2" if "\<not> again"
  proof -
    have "dictRehash d1 n = Some (d1, False)" using that d1(4) by (simp add: dictRehash_def)
    then have "rehash_times c' n d1 = Some d1" for c' by (induction c') auto
    then show ?thesis using d2(1) that d1(4) by simp
  qed
  then show ?case using d1 d2 keeps_trans [OF d1(3) d2(3)] by auto
qed simp

lemma rehash_times_done:
  assumes "dict_inv ty valid d" "0 < n"
  shows "\<exists>d'. rehash_times (Suc (ht_size (d_ht0 d))) n d = Some d' \<and> \<not> dictIsRehashing d' \<and>
    mset (dict_entries d') = mset (dict_entries d)"
proof -
  obtain d' where d': "rehash_times (Suc (ht_size (d_ht0 d))) n d = Some d'" "dict_inv ty valid d'" "keeps d d'"
    "dictIsRehashing d' \<longrightarrow> ht_size (d_ht0 d') = ht_size (d_ht0 d) \<and> d_rehashidx d + int (Suc (ht_size (d_ht0 d))) \<le> d_rehashidx d'"
    using rehash_times_spec [OF assms] by blast
  have "-1 \<le> d_rehashidx d" using assms(1) by (auto simp: dict_inv_def split: if_splits)
  show ?thesis
  proof (cases "dictIsRehashing d")
    case True
    then have "0 \<le> d_rehashidx d" using assms(1) by (simp add: dict_inv_def dictIsRehashing_def)
    moreover have "d_rehashidx d' \<le> int (ht_size (d_ht0 d'))" if "dictIsRehashing d'"
      using d'(2) that by (simp add: dict_inv_def dictIsRehashing_def)
    ultimately have "\<not> dictIsRehashing d'" using d'(4) by force
    then show ?thesis using d'(1,3) by (simp add: keeps_def)
  next
    case False
    then have "dictRehash d n = Some (d, False)" by (simp add: dictRehash_def)
    then have "rehash_times c n d = Some d" for c by (induction c) auto
    then show ?thesis using False by simp
  qed
qed

end
