(* ===== verification/Object.thy ===== *)
theory Object
  imports Util
begin

text \<open>
  Redis objects, \<open>src/redis-stable/src/object.c\<close>: creation, reference counting, the encodings of
  strings, comparison, and conversion to numbers. Objects live in a heap of addresses; a freed object
  is no longer in it, so using it gives \<^term>\<open>None\<close>, as does a failed \<open>serverAssert\<close> or a
  \<open>serverPanic\<close>. The payload of an object that is not a string is of the type \<open>'p\<close>, and its
  release is recorded.
\<close>

section \<open>Data\<close>

datatype obj_type = OBJ_STRING | OBJ_LIST | OBJ_SET | OBJ_ZSET | OBJ_HASH

datatype obj_encoding = OBJ_ENCODING_RAW | OBJ_ENCODING_INT | OBJ_ENCODING_HT | OBJ_ENCODING_ZIPMAP
  | OBJ_ENCODING_LINKEDLIST | OBJ_ENCODING_ZIPLIST | OBJ_ENCODING_INTSET | OBJ_ENCODING_SKIPLIST
  | OBJ_ENCODING_EMBSTR | OBJ_ENCODING_QUICKLIST

text \<open>What \<open>ptr\<close> holds: an sds string with its free space, an integer stored in the pointer
  itself, or the data of a collection.\<close>

datatype 'p obj_ptr = PSds string nat | PInt int | PData 'p

record 'p robj =
  o_type :: obj_type
  o_encoding :: obj_encoding
  o_lru :: nat
  o_refcount :: int
  o_ptr :: "'p obj_ptr"

text \<open>\<open>oh_shared\<close> gives the addresses of the preallocated \<open>shared.integers\<close>.\<close>

record 'p oheap =
  oh_objs :: "nat \<rightharpoonup> 'p robj"
  oh_brk :: nat
  oh_shared :: "nat \<Rightarrow> nat"
  oh_lruclock :: nat
  oh_released :: "'p list"

definition OBJ_SHARED_INTEGERS :: int where
  "OBJ_SHARED_INTEGERS = 10000"

definition OBJ_ENCODING_EMBSTR_SIZE_LIMIT :: nat where
  "OBJ_ENCODING_EMBSTR_SIZE_LIMIT = 44"

definition LRU_CLOCK_MAX :: nat where
  "LRU_CLOCK_MAX = 2 ^ 24 - 1"

definition LRU_CLOCK_RESOLUTION :: nat where
  "LRU_CLOCK_RESOLUTION = 1000"

definition sdsEncodedObject :: "'p robj \<Rightarrow> bool" where
  "sdsEncodedObject o' \<longleftrightarrow> o_encoding o' = OBJ_ENCODING_RAW \<or> o_encoding o' = OBJ_ENCODING_EMBSTR"

text \<open>\<open>o->ptr\<close> read as an sds string, and as a \<open>long\<close>.\<close>

fun ptr_sds :: "'p obj_ptr \<Rightarrow> string option" where
  "ptr_sds (PSds s av) = Some s"
| "ptr_sds _ = None"

fun ptr_int :: "'p obj_ptr \<Rightarrow> int option" where
  "ptr_int (PInt v) = Some v"
| "ptr_int _ = None"

section \<open>Creation\<close>

definition obj_new :: "'p oheap \<Rightarrow> 'p robj \<Rightarrow> nat \<times> 'p oheap" where
  "obj_new h r = (oh_brk h, h\<lparr>oh_objs := (oh_objs h)(oh_brk h \<mapsto> r), oh_brk := oh_brk h + 1\<rparr>)"

definition obj_upd :: "'p oheap \<Rightarrow> nat \<Rightarrow> ('p robj \<Rightarrow> 'p robj) \<Rightarrow> 'p oheap option" where
  "obj_upd h a f = (case oh_objs h a of None \<Rightarrow> None | Some r \<Rightarrow> Some (h\<lparr>oh_objs := (oh_objs h)(a \<mapsto> f r)\<rparr>))"

definition createObject :: "'p oheap \<Rightarrow> obj_type \<Rightarrow> 'p obj_ptr \<Rightarrow> nat \<times> 'p oheap" where
  "createObject h ty p = obj_new h \<lparr>o_type = ty, o_encoding = OBJ_ENCODING_RAW, o_lru = oh_lruclock h,
     o_refcount = 1, o_ptr = p\<rparr>"

definition createRawStringObject :: "'p oheap \<Rightarrow> string \<Rightarrow> nat \<times> 'p oheap" where
  "createRawStringObject h s = createObject h OBJ_STRING (PSds s 0)"

text \<open>The length field of the embedded header has 8 bits.\<close>

definition createEmbeddedStringObject :: "'p oheap \<Rightarrow> string \<Rightarrow> nat \<times> 'p oheap" where
  "createEmbeddedStringObject h s = obj_new h \<lparr>o_type = OBJ_STRING, o_encoding = OBJ_ENCODING_EMBSTR,
     o_lru = oh_lruclock h, o_refcount = 1, o_ptr = PSds (take (length s mod 256) s) 0\<rparr>"

definition createStringObject :: "'p oheap \<Rightarrow> string \<Rightarrow> nat \<times> 'p oheap" where
  "createStringObject h s =
     (if length s \<le> OBJ_ENCODING_EMBSTR_SIZE_LIMIT then createEmbeddedStringObject h s
      else createRawStringObject h s)"

text \<open>The counts are \<open>int\<close> fields of the source; the model's do not overflow, so it describes heaps
  in which no object has \<open>2 ^ 31 - 1\<close> references.\<close>

definition incrRefCount :: "'p oheap \<Rightarrow> nat \<Rightarrow> 'p oheap option" where
  "incrRefCount h a = obj_upd h a (\<lambda>r. r\<lparr>o_refcount := o_refcount r + 1\<rparr>)"

definition createIntObject :: "'p oheap \<Rightarrow> int \<Rightarrow> nat \<times> 'p oheap" where
  "createIntObject h v = obj_new h \<lparr>o_type = OBJ_STRING, o_encoding = OBJ_ENCODING_INT, o_lru = oh_lruclock h,
     o_refcount = 1, o_ptr = PInt v\<rparr>"

text \<open>A \<open>long\<close> has the range of a \<open>long long\<close> here, so the last branch is not reached.\<close>

definition createStringObjectFromLongLong :: "'p oheap \<Rightarrow> int \<Rightarrow> (nat \<times> 'p oheap) option" where
  "createStringObjectFromLongLong h v =
     (if 0 \<le> v \<and> v < OBJ_SHARED_INTEGERS then
        (let a = oh_shared h (nat v) in map_option (\<lambda>h'. (a, h')) (incrRefCount h a))
      else if - (2 ^ 63) \<le> v \<and> v \<le> 2 ^ 63 - 1 then Some (createIntObject h v)
      else map_option (\<lambda>s. createObject h OBJ_STRING (PSds s 0)) (sdsll2str v))"

definition dupStringObject :: "'p oheap \<Rightarrow> nat \<Rightarrow> (nat \<times> 'p oheap) option" where
  "dupStringObject h a =
     do {
       r \<leftarrow> oh_objs h a;
       (if o_type r \<noteq> OBJ_STRING then None
        else case o_encoding r of
          OBJ_ENCODING_RAW \<Rightarrow> map_option (createRawStringObject h) (ptr_sds (o_ptr r))
        | OBJ_ENCODING_EMBSTR \<Rightarrow> map_option (createEmbeddedStringObject h) (ptr_sds (o_ptr r))
        | OBJ_ENCODING_INT \<Rightarrow> map_option (createIntObject h) (ptr_int (o_ptr r))
        | _ \<Rightarrow> None)
     }"

text \<open>The creation functions of the collections.\<close>

definition createCollection :: "'p oheap \<Rightarrow> obj_type \<Rightarrow> obj_encoding \<Rightarrow> 'p \<Rightarrow> nat \<times> 'p oheap" where
  "createCollection h ty enc p = obj_new h \<lparr>o_type = ty, o_encoding = enc, o_lru = oh_lruclock h, o_refcount = 1, o_ptr = PData p\<rparr>"

definition createQuicklistObject :: "'p oheap \<Rightarrow> 'p \<Rightarrow> nat \<times> 'p oheap" where
  "createQuicklistObject h l = createCollection h OBJ_LIST OBJ_ENCODING_QUICKLIST l"

definition createZiplistObject :: "'p oheap \<Rightarrow> 'p \<Rightarrow> nat \<times> 'p oheap" where
  "createZiplistObject h zl = createCollection h OBJ_LIST OBJ_ENCODING_ZIPLIST zl"

definition createSetObject :: "'p oheap \<Rightarrow> 'p \<Rightarrow> nat \<times> 'p oheap" where
  "createSetObject h d = createCollection h OBJ_SET OBJ_ENCODING_HT d"

definition createIntsetObject :: "'p oheap \<Rightarrow> 'p \<Rightarrow> nat \<times> 'p oheap" where
  "createIntsetObject h s = createCollection h OBJ_SET OBJ_ENCODING_INTSET s"

definition createHashObject :: "'p oheap \<Rightarrow> 'p \<Rightarrow> nat \<times> 'p oheap" where
  "createHashObject h zl = createCollection h OBJ_HASH OBJ_ENCODING_ZIPLIST zl"

definition createZsetObject :: "'p oheap \<Rightarrow> 'p \<Rightarrow> nat \<times> 'p oheap" where
  "createZsetObject h z = createCollection h OBJ_ZSET OBJ_ENCODING_SKIPLIST z"

definition createZsetZiplistObject :: "'p oheap \<Rightarrow> 'p \<Rightarrow> nat \<times> 'p oheap" where
  "createZsetZiplistObject h zl = createCollection h OBJ_ZSET OBJ_ENCODING_ZIPLIST zl"

section \<open>Release\<close>

text \<open>The encodings each release function accepts; any other one panics. A string object releases
  its sds only when it is a separate block.\<close>

definition free_accepts :: "obj_type \<Rightarrow> obj_encoding \<Rightarrow> bool" where
  "free_accepts ty enc = (case ty of
     OBJ_STRING \<Rightarrow> True
   | OBJ_LIST \<Rightarrow> enc = OBJ_ENCODING_QUICKLIST
   | OBJ_SET \<Rightarrow> enc = OBJ_ENCODING_HT \<or> enc = OBJ_ENCODING_INTSET
   | OBJ_ZSET \<Rightarrow> enc = OBJ_ENCODING_SKIPLIST \<or> enc = OBJ_ENCODING_ZIPLIST
   | OBJ_HASH \<Rightarrow> enc = OBJ_ENCODING_HT \<or> enc = OBJ_ENCODING_ZIPLIST)"

definition payload :: "'p obj_ptr \<Rightarrow> 'p list" where
  "payload p = (case p of PData d \<Rightarrow> [d] | _ \<Rightarrow> [])"

definition decrRefCount :: "'p oheap \<Rightarrow> nat \<Rightarrow> 'p oheap option" where
  "decrRefCount h a =
     do {
       r \<leftarrow> oh_objs h a;
       (if o_refcount r \<le> 0 then None
        else if o_refcount r = 1 then
          (if free_accepts (o_type r) (o_encoding r)
           then Some (h\<lparr>oh_objs := (oh_objs h)(a := None), oh_released := oh_released h @ payload (o_ptr r)\<rparr>)
           else None)
        else obj_upd h a (\<lambda>r. r\<lparr>o_refcount := o_refcount r - 1\<rparr>))
     }"

definition resetRefCount :: "'p oheap \<Rightarrow> nat \<Rightarrow> 'p oheap option" where
  "resetRefCount h a = obj_upd h a (\<lambda>r. r\<lparr>o_refcount := 0\<rparr>)"

section \<open>Encoding and decoding\<close>

definition isObjectRepresentableAsLongLong :: "'p robj \<Rightarrow> int option option" where
  "isObjectRepresentableAsLongLong r =
     (if o_type r \<noteq> OBJ_STRING then None
      else if o_encoding r = OBJ_ENCODING_INT then map_option Some (ptr_int (o_ptr r))
      else map_option string2ll (ptr_sds (o_ptr r)))"

text \<open>\<open>shared_ok\<close>: no \<open>maxmemory\<close> limit, or an eviction policy that does not use the LRU
  clock.\<close>

definition tryObjectEncoding :: "bool \<Rightarrow> 'p oheap \<Rightarrow> nat \<Rightarrow> (nat \<times> 'p oheap) option" where
  "tryObjectEncoding shared_ok h a =
     do {
       r \<leftarrow> oh_objs h a;
       (if o_type r \<noteq> OBJ_STRING then None
        else if \<not> sdsEncodedObject r then Some (a, h)
        else if o_refcount r > 1 then Some (a, h)
        else case o_ptr r of
          PSds s avail \<Rightarrow>
            (let len = length s
             in case (if len \<le> 20 then string2l s else None) of
               Some v \<Rightarrow>
                 if shared_ok \<and> v \<ge> 0 \<and> v < OBJ_SHARED_INTEGERS then
                   do {
                     h1 \<leftarrow> decrRefCount h a;
                     h2 \<leftarrow> incrRefCount h1 (oh_shared h1 (nat v));
                     Some (oh_shared h1 (nat v), h2)
                   }
                 else
                   map_option (\<lambda>h'. (a, h')) (obj_upd h a (\<lambda>r. r\<lparr>o_encoding := OBJ_ENCODING_INT, o_ptr := PInt v\<rparr>))
             | None \<Rightarrow>
                 if len \<le> OBJ_ENCODING_EMBSTR_SIZE_LIMIT then
                   (if o_encoding r = OBJ_ENCODING_EMBSTR then Some (a, h)
                    else
                      (case createEmbeddedStringObject h s of
                         (emb, h1) \<Rightarrow> map_option (\<lambda>h2. (emb, h2)) (decrRefCount h1 a)))
                 else if o_encoding r = OBJ_ENCODING_RAW \<and> avail > len div 10 then
                   map_option (\<lambda>h'. (a, h')) (obj_upd h a (\<lambda>r. r\<lparr>o_ptr := PSds s 0\<rparr>))
                 else Some (a, h))
        | _ \<Rightarrow> None)
     }"

text \<open>The text of an integer through the 32 byte buffer of the callers of \<open>ll2string\<close>.\<close>

definition ll_text :: "nat \<Rightarrow> int \<Rightarrow> string option" where
  "ll_text n v = map_option (\<lambda>(d, len). take len d) (ll2string (replicate n NUL) v)"

definition getDecodedObject :: "'p oheap \<Rightarrow> nat \<Rightarrow> (nat \<times> 'p oheap) option" where
  "getDecodedObject h a =
     do {
       r \<leftarrow> oh_objs h a;
       (if sdsEncodedObject r then map_option (\<lambda>h'. (a, h')) (incrRefCount h a)
        else if o_type r = OBJ_STRING \<and> o_encoding r = OBJ_ENCODING_INT then
          do { v \<leftarrow> ptr_int (o_ptr r); s \<leftarrow> ll_text 32 v; Some (createStringObject h s) }
        else None)
     }"

section \<open>Comparison\<close>

text \<open>The sign of \<open>memcmp\<close> on two blocks of the same length.\<close>

fun memcmp :: "string \<Rightarrow> string \<Rightarrow> int" where
  "memcmp (c # cs) (d # ds) = (if c = d then memcmp cs ds else if chr_code c < chr_code d then -1 else 1)"
| "memcmp _ _ = 0"

text \<open>The characters of a string object and the integer ones through a 128 byte buffer.\<close>

definition obj_chars :: "'p robj \<Rightarrow> string option" where
  "obj_chars r = (if sdsEncodedObject r then ptr_sds (o_ptr r) else do { v \<leftarrow> ptr_int (o_ptr r); ll_text 128 v })"

text \<open>The binary comparison; \<open>alen-blen\<close> is converted to \<open>int\<close>.\<close>

definition compareStringObjects :: "'p oheap \<Rightarrow> nat \<Rightarrow> nat \<Rightarrow> int option" where
  "compareStringObjects h a b =
     do {
       ra \<leftarrow> oh_objs h a;
       rb \<leftarrow> oh_objs h b;
       (if \<not> (o_type ra = OBJ_STRING \<and> o_type rb = OBJ_STRING) then None
        else if a = b then Some 0
        else do {
          astr \<leftarrow> obj_chars ra;
          bstr \<leftarrow> obj_chars rb;
          (let minlen = (if length astr < length bstr then length astr else length bstr);
               cmp = memcmp (take minlen astr) (take minlen bstr)
           in if cmp = 0 then Some (to_int32 (int (length astr) - int (length bstr))) else Some cmp)
        })
     }"

definition equalStringObjects :: "'p oheap \<Rightarrow> nat \<Rightarrow> nat \<Rightarrow> bool option" where
  "equalStringObjects h a b =
     do {
       ra \<leftarrow> oh_objs h a;
       rb \<leftarrow> oh_objs h b;
       (if o_encoding ra = OBJ_ENCODING_INT \<and> o_encoding rb = OBJ_ENCODING_INT
        then do { x \<leftarrow> ptr_int (o_ptr ra); y \<leftarrow> ptr_int (o_ptr rb); Some (x = y) }
        else map_option (\<lambda>c. c = 0) (compareStringObjects h a b))
     }"

definition stringObjectLen :: "'p robj \<Rightarrow> nat option" where
  "stringObjectLen r =
     (if o_type r \<noteq> OBJ_STRING then None
      else if sdsEncodedObject r then map_option length (ptr_sds (o_ptr r))
      else map_option sdigits10 (ptr_int (o_ptr r)))"

section \<open>Numbers\<close>

text \<open>The outer \<^term>\<open>None\<close> is a panic, the inner one \<open>C_ERR\<close>; a missing object is zero.\<close>

definition getLongLongFromObject :: "'p robj option \<Rightarrow> int option option" where
  "getLongLongFromObject obj =
     (case obj of
        None \<Rightarrow> Some (Some 0)
      | Some r \<Rightarrow>
          if o_type r \<noteq> OBJ_STRING then None
          else if sdsEncodedObject r then map_option string2ll (ptr_sds (o_ptr r))
          else if o_encoding r = OBJ_ENCODING_INT then map_option Some (ptr_int (o_ptr r))
          else None)"

text \<open>The replies of the \<open>OrReply\<close> variants are the error texts.\<close>

definition getLongLongFromObjectOrReply :: "'p robj option \<Rightarrow> string option \<Rightarrow> (string + int) option" where
  "getLongLongFromObjectOrReply obj msg =
     do {
       r \<leftarrow> getLongLongFromObject obj;
       (case r of
          Some v \<Rightarrow> Some (Inr v)
        | None \<Rightarrow>
            Some (Inl (case msg of Some m \<Rightarrow> m | None \<Rightarrow> ''value is not an integer or out of range'')))
     }"

definition getLongFromObjectOrReply :: "'p robj option \<Rightarrow> string option \<Rightarrow> (string + int) option" where
  "getLongFromObjectOrReply obj msg =
     do {
       r \<leftarrow> getLongLongFromObjectOrReply obj msg;
       (case r of
          Inl e \<Rightarrow> Some (Inl e)
        | Inr v \<Rightarrow>
            if v < - (2 ^ 63) \<or> v > 2 ^ 63 - 1
            then Some (Inl (case msg of Some m \<Rightarrow> m | None \<Rightarrow> ''value is out of range''))
            else Some (Inr v))
     }"

definition strEncoding :: "obj_encoding \<Rightarrow> string" where
  "strEncoding enc = (case enc of
     OBJ_ENCODING_RAW \<Rightarrow> ''raw'' | OBJ_ENCODING_INT \<Rightarrow> ''int'' | OBJ_ENCODING_HT \<Rightarrow> ''hashtable''
   | OBJ_ENCODING_QUICKLIST \<Rightarrow> ''quicklist'' | OBJ_ENCODING_ZIPLIST \<Rightarrow> ''ziplist''
   | OBJ_ENCODING_INTSET \<Rightarrow> ''intset'' | OBJ_ENCODING_SKIPLIST \<Rightarrow> ''skiplist''
   | OBJ_ENCODING_EMBSTR \<Rightarrow> ''embstr'' | _ \<Rightarrow> ''unknown'')"

definition estimateObjectIdleTime :: "nat \<Rightarrow> 'p robj \<Rightarrow> nat" where
  "estimateObjectIdleTime lruclock r =
     (if lruclock \<ge> o_lru r then (lruclock - o_lru r) * LRU_CLOCK_RESOLUTION
      else (lruclock + (LRU_CLOCK_MAX - o_lru r)) * LRU_CLOCK_RESOLUTION)"

section \<open>Well-formed string objects and their text\<close>

definition str_obj :: "'p robj \<Rightarrow> bool" where
  "str_obj r \<longleftrightarrow> o_type r = OBJ_STRING \<and> 1 \<le> o_refcount r \<and>
     (case o_ptr r of
        PSds s av \<Rightarrow> o_encoding r = OBJ_ENCODING_RAW \<or> o_encoding r = OBJ_ENCODING_EMBSTR
      | PInt v \<Rightarrow> o_encoding r = OBJ_ENCODING_INT \<and> int64 v
      | PData p \<Rightarrow> False)"

definition obj_text :: "'p robj \<Rightarrow> string" where
  "obj_text r = (case o_ptr r of PSds s av \<Rightarrow> s | PInt v \<Rightarrow> dec_int v | PData p \<Rightarrow> [])"

text \<open>Addresses are allocated upwards, and the shared integers are in place.\<close>

definition oheap_wf :: "'p oheap \<Rightarrow> bool" where
  "oheap_wf h \<longleftrightarrow> (\<forall>a \<ge> oh_brk h. oh_objs h a = None) \<and>
     (\<forall>n < 10000. \<exists>r. oh_objs h (oh_shared h n) = Some r \<and> o_type r = OBJ_STRING \<and>
        o_encoding r = OBJ_ENCODING_INT \<and> o_ptr r = PInt (int n) \<and> 1 \<le> o_refcount r)"

lemma str_obj_cases:
  assumes "str_obj r"
  obtains (sds) s av where "o_ptr r = PSds s av" "sdsEncodedObject r" "obj_text r = s"
  | (num) v where "o_ptr r = PInt v" "\<not> sdsEncodedObject r" "o_encoding r = OBJ_ENCODING_INT" "int64 v" "obj_text r = dec_int v"
  using assms by (cases "o_ptr r") (auto simp: str_obj_def sdsEncodedObject_def obj_text_def)

lemma ll_text_spec: "int64 v \<Longrightarrow> 21 \<le> n \<Longrightarrow> ll_text n v = Some (dec_int v)"
proof -
  assume "int64 v" "21 \<le> n"
  then have "length (dec_int v) < n" using length_dec_int64 [of v] by simp
  then show ?thesis by (simp add: ll_text_def ll2string_spec)
qed

lemma obj_chars_spec: "str_obj r \<Longrightarrow> obj_chars r = Some (obj_text r)"
  by (erule str_obj_cases) (simp_all add: obj_chars_def ll_text_spec)

lemma stringObjectLen_spec: "str_obj r \<Longrightarrow> stringObjectLen r = Some (length (obj_text r))"
  by (cases rule: str_obj_cases [of r])
     (auto simp: stringObjectLen_def str_obj_def sdigits10_def length_dec_int sdsEncodedObject_def)

lemma string2ll_dec_int [simp]: "int64 v \<Longrightarrow> string2ll (dec_int v) = Some v"
  by (simp add: string2ll_iff)

lemma getLongLong_spec: "str_obj r \<Longrightarrow> getLongLongFromObject (Some r) = Some (string2ll (obj_text r))"
  by (cases rule: str_obj_cases [of r])
     (auto simp: getLongLongFromObject_def str_obj_def sdsEncodedObject_def)

lemma isRepresentable_spec: "str_obj r \<Longrightarrow> isObjectRepresentableAsLongLong r = Some (string2ll (obj_text r))"
  by (cases rule: str_obj_cases [of r])
     (auto simp: isObjectRepresentableAsLongLong_def str_obj_def sdsEncodedObject_def)

section \<open>Comparison: lemmas\<close>

lemma memcmp_refl [simp]: "memcmp a a = 0"
  by (induction a) auto

lemma chr_code_inj: "chr_code c = chr_code d \<longleftrightarrow> c = d"
  by simp

lemma compare_spec:
  fixes a b :: string
  defines "m \<equiv> (if length a < length b then length a else length b)"
  defines "c \<equiv> memcmp (take m a) (take m b)"
  defines "r \<equiv> (if c = 0 then int (length a) - int (length b) else c)"
  shows "(r = 0 \<longleftrightarrow> a = b) \<and> (r < 0 \<longleftrightarrow> ord_class.lexordp (map chr_code a) (map chr_code b))"
  unfolding m_def c_def r_def
proof (induction a arbitrary: b)
  case Nil
  then show ?case by (cases b) auto
next
  case (Cons x a)
  show ?case
  proof (cases b)
    case Nil
    then show ?thesis by simp
  next
    case (Cons y b')
    show ?thesis
    proof (cases "x = y")
      case True
      then show ?thesis using Cons Cons.IH [of b'] by (simp split: if_splits)
    next
      case False
      then have "chr_code x < chr_code y \<longleftrightarrow> \<not> chr_code y < chr_code x" by (metis chr_code_inj linorder_neqE_nat not_less_iff_gr_or_eq)
      then show ?thesis using Cons False by auto
    qed
  qed
qed

lemma compareStringObjects_spec:
  assumes "oh_objs h a = Some ra" "oh_objs h b = Some rb" "str_obj ra" "str_obj rb"
    "length (obj_text ra) < 2 ^ 31" "length (obj_text rb) < 2 ^ 31"
  shows "\<exists>c. compareStringObjects h a b = Some c \<and> (c = 0 \<longleftrightarrow> obj_text ra = obj_text rb) \<and>
    (c < 0 \<longleftrightarrow> ord_class.lexordp (map chr_code (obj_text ra)) (map chr_code (obj_text rb)))"
proof (cases "a = b")
  case True
  then show ?thesis using assms lexordp_irreflexive' [of "map chr_code (obj_text ra)"]
    by (auto simp: compareStringObjects_def str_obj_def)
next
  case False
  let ?a = "obj_text ra" and ?b = "obj_text rb"
  have "to_int32 (int (length ?a) - int (length ?b)) = int (length ?a) - int (length ?b)"
    using assms(5,6) by (intro to_int32_id) (simp add: int32_def)
  then show ?thesis using assms(1-4) False compare_spec [of ?a ?b] obj_chars_spec [OF assms(3)] obj_chars_spec [OF assms(4)]
    by (simp add: compareStringObjects_def str_obj_def Let_def split: if_splits)
qed

lemma equalStringObjects_spec:
  assumes "oh_objs h a = Some ra" "oh_objs h b = Some rb" "str_obj ra" "str_obj rb"
    "length (obj_text ra) < 2 ^ 31" "length (obj_text rb) < 2 ^ 31"
  shows "equalStringObjects h a b = Some (obj_text ra = obj_text rb)"
proof (cases "o_encoding ra = OBJ_ENCODING_INT \<and> o_encoding rb = OBJ_ENCODING_INT")
  case True
  then obtain x y where "o_ptr ra = PInt x" "o_ptr rb = PInt y" "int64 x" "int64 y"
    using assms(3,4) by (auto simp: str_obj_def split: obj_ptr.splits)
  moreover from this have "dec_int x = dec_int y \<longleftrightarrow> x = y" by (metis option.inject string2ll_dec_int)
  ultimately show ?thesis using True assms(1,2) by (simp add: equalStringObjects_def obj_text_def)
next
  case False
  then show ?thesis using assms compareStringObjects_spec [OF assms] by (auto simp: equalStringObjects_def)
qed

section \<open>Encoding: lemmas\<close>

lemma string2l_eq: "string2l s = string2ll s"
proof (cases "string2ll s")
  case (Some y)
  then have "int64 y" by (simp only: string2ll_iff)
  then show ?thesis unfolding string2l_def Some int64_def by simp
qed (simp add: string2l_def)

text \<open>Where \<open>tryObjectEncoding\<close> leaves the string, and every other object as it was: in its own
  object, in a fresh embedded one, or in the shared integer, which gains one reference.\<close>

definition encoded_at :: "bool \<Rightarrow> 'p oheap \<Rightarrow> nat \<Rightarrow> 'p robj \<Rightarrow> nat \<Rightarrow> 'p oheap \<Rightarrow> 'p robj \<Rightarrow> bool" where
  "encoded_at ok h a r a' h' r' \<longleftrightarrow>
     a' = a \<and> oh_objs h' = (oh_objs h)(a \<mapsto> r') \<and> o_refcount r' = o_refcount r \<or>
     o_refcount r = 1 \<and> a' = oh_brk h \<and> oh_objs h' = (oh_objs h)(a := None, a' \<mapsto> r') \<and> o_refcount r' = 1 \<or>
     o_refcount r = 1 \<and> ok \<and> (\<exists>n q. n < 10000 \<and> a' = oh_shared h n \<and> a' \<noteq> a \<and> oh_objs h a' = Some q \<and>
       r' = q\<lparr>o_refcount := o_refcount q + 1\<rparr> \<and> oh_objs h' = (oh_objs h)(a := None, a' \<mapsto> r'))"

lemma encoded_at_same:
  "oh_objs h' = (oh_objs h)(a \<mapsto> r') \<Longrightarrow> o_refcount r' = o_refcount r \<Longrightarrow> encoded_at ok h a r a h' r'"
  by (simp add: encoded_at_def)

text \<open>An unshared string object: the three outcomes.\<close>

lemma encode_sds:
  assumes "oh_objs h a = Some r" "o_type r = OBJ_STRING" "sdsEncodedObject r" "o_refcount r = 1" "o_ptr r = PSds s avail"
  shows "tryObjectEncoding ok h a =
    (case string2ll s of
       Some v \<Rightarrow>
         if ok \<and> v \<ge> 0 \<and> v < OBJ_SHARED_INTEGERS then
           do { h1 \<leftarrow> decrRefCount h a; h2 \<leftarrow> incrRefCount h1 (oh_shared h1 (nat v)); Some (oh_shared h1 (nat v), h2) }
         else Some (a, h\<lparr>oh_objs := (oh_objs h)(a \<mapsto> r\<lparr>o_encoding := OBJ_ENCODING_INT, o_ptr := PInt v\<rparr>)\<rparr>)
     | None \<Rightarrow>
         if length s \<le> OBJ_ENCODING_EMBSTR_SIZE_LIMIT then
           (if o_encoding r = OBJ_ENCODING_EMBSTR then Some (a, h)
            else case createEmbeddedStringObject h s of (emb, h1) \<Rightarrow> map_option (\<lambda>h2. (emb, h2)) (decrRefCount h1 a))
         else if o_encoding r = OBJ_ENCODING_RAW \<and> avail > length s div 10
         then Some (a, h\<lparr>oh_objs := (oh_objs h)(a \<mapsto> r\<lparr>o_ptr := PSds s 0\<rparr>)\<rparr>)
         else Some (a, h))"
proof -
  have "(if length s \<le> 20 then string2l s else None) = string2ll s"
  proof (cases "string2ll s")
    case (Some v)
    then have "int64 v \<and> s = dec_int v" by (simp only: string2ll_iff)
    then have "length s \<le> 20" using length_dec_int64 by simp
    then show ?thesis by (simp add: string2l_eq)
  qed (simp add: string2l_eq)
  then show ?thesis unfolding tryObjectEncoding_def obj_upd_def Let_def
    by (simp only: assms bind.bind_lunit obj_ptr.case option.case option.map less_irrefl simp_thms if_True if_False)
qed

lemma free_string:
  assumes "oh_objs h a = Some r" "o_type r = OBJ_STRING" "o_refcount r = 1" "o_ptr r = PSds s avail"
  shows "decrRefCount h a = Some (h\<lparr>oh_objs := (oh_objs h)(a := None)\<rparr>)"
  using assms by (simp add: decrRefCount_def free_accepts_def payload_def)

definition encoded_ok :: "bool \<Rightarrow> 'p oheap \<Rightarrow> nat \<Rightarrow> 'p robj \<Rightarrow> (nat \<times> 'p oheap) option \<Rightarrow> bool" where
  "encoded_ok ok h a r res \<longleftrightarrow> (\<exists>a' h' r'. res = Some (a', h') \<and> oh_objs h' a' = Some r' \<and> str_obj r' \<and>
    obj_text r' = obj_text r \<and> encoded_at ok h a r a' h' r' \<and> oh_released h' = oh_released h \<and>
    (o_encoding r' = OBJ_ENCODING_INT \<longleftrightarrow>
       o_encoding r = OBJ_ENCODING_INT \<or> o_refcount r = 1 \<and> string2ll (obj_text r) \<noteq> None) \<and>
    (\<forall>n < 10000. ok \<and> o_refcount r = 1 \<and> o_encoding r \<noteq> OBJ_ENCODING_INT \<and> string2ll (obj_text r) = Some (int n)
       \<longrightarrow> a' = oh_shared h n))"

lemma encoded_okI:
  assumes "res = Some (a', h')" "oh_objs h' a' = Some r'" "str_obj r'" "obj_text r' = obj_text r"
    "encoded_at ok h a r a' h' r'" "oh_released h' = oh_released h"
    "o_encoding r' = OBJ_ENCODING_INT \<longleftrightarrow> o_encoding r = OBJ_ENCODING_INT \<or> o_refcount r = 1 \<and> string2ll (obj_text r) \<noteq> None"
    "\<And>n. n < 10000 \<Longrightarrow> ok \<Longrightarrow> o_refcount r = 1 \<Longrightarrow> o_encoding r \<noteq> OBJ_ENCODING_INT \<Longrightarrow>
       string2ll (obj_text r) = Some (int n) \<Longrightarrow> a' = oh_shared h n"
  shows "encoded_ok ok h a r res"
  using assms unfolding encoded_ok_def by blast

lemma encoded_ok_kept:
  assumes "res = Some (a, h)" "oh_objs h a = Some r" "str_obj r"
    "o_encoding r = OBJ_ENCODING_INT \<or> o_refcount r \<noteq> 1 \<or> string2ll (obj_text r) = None"
  shows "encoded_ok ok h a r res"
  by (rule encoded_okI [OF assms(1-3)]) (use assms in \<open>auto intro!: encoded_at_same\<close>)

lemma encode_int:
  assumes wf: "oheap_wf h" and r: "oh_objs h a = Some r" "str_obj r" "sdsEncodedObject r" "o_refcount r = 1" "o_ptr r = PSds s avail"
    and v: "string2ll s = Some v" and sh: "\<forall>n < 10000. oh_shared h n \<noteq> a"
  shows "encoded_ok ok h a r (tryObjectEncoding ok h a)"
proof (cases "ok \<and> v \<ge> 0 \<and> v < OBJ_SHARED_INTEGERS")
  case True
  have ty: "o_type r = OBJ_STRING" using r(2) by (simp add: str_obj_def)
  have n: "nat v < 10000" "int (nat v) = v" using True by (auto simp: OBJ_SHARED_INTEGERS_def)
  let ?b = "oh_shared h (nat v)"
  have ab: "?b \<noteq> a" using sh n(1) by blast
  obtain q where q: "oh_objs h ?b = Some q" "o_type q = OBJ_STRING" "o_encoding q = OBJ_ENCODING_INT" "o_ptr q = PInt v" "1 \<le> o_refcount q"
    using wf n unfolding oheap_wf_def by metis
  let ?q = "q\<lparr>o_refcount := o_refcount q + 1\<rparr>"
  let ?h = "h\<lparr>oh_objs := (oh_objs h)(a := None, ?b \<mapsto> ?q)\<rparr>"
  have vv: "int64 v" "dec_int v = s" using v string2ll_iff by auto
  have "tryObjectEncoding ok h a = Some (?b, ?h)"
    using True v ab q(1) unfolding encode_sds [OF r(1) ty r(3,4,5)] free_string [OF r(1) ty r(4,5)]
    by (simp add: incrRefCount_def obj_upd_def)
  moreover have "str_obj ?q" "obj_text ?q = obj_text r" using q vv r(5) by (auto simp: str_obj_def obj_text_def)
  moreover have "encoded_at ok h a r ?b ?h ?q" using q(1) ab n(1) True r(4) by (auto simp: encoded_at_def)
  moreover have "string2ll (obj_text r) = Some v" using v r(5) by (simp add: obj_text_def)
  ultimately show ?thesis using q(3) r(4) by (intro encoded_okI [where r' = ?q and a' = ?b and h' = ?h]) auto
next
  case False
  have ty: "o_type r = OBJ_STRING" using r(2) by (simp add: str_obj_def)
  let ?r = "r\<lparr>o_encoding := OBJ_ENCODING_INT, o_ptr := PInt v\<rparr>"
  have vv: "int64 v" "dec_int v = s" using v string2ll_iff by auto
  have "tryObjectEncoding ok h a = Some (a, h\<lparr>oh_objs := (oh_objs h)(a \<mapsto> ?r)\<rparr>)"
    using False v unfolding encode_sds [OF r(1) ty r(3,4,5)] by auto
  moreover have "str_obj ?r" "obj_text ?r = obj_text r" using vv r(2,5) by (auto simp: str_obj_def obj_text_def)
  moreover have "string2ll (obj_text r) = Some v" using v r(5) by (simp add: obj_text_def)
  ultimately show ?thesis using False r(4)
    by (intro encoded_okI [where r' = ?r and a' = a and h' = "h\<lparr>oh_objs := (oh_objs h)(a \<mapsto> ?r)\<rparr>"]) (auto simp: OBJ_SHARED_INTEGERS_def intro: encoded_at_same)
qed

lemma encode_not_int:
  assumes wf: "oheap_wf h" and r: "oh_objs h a = Some r" "str_obj r" "sdsEncodedObject r" "o_refcount r = 1" "o_ptr r = PSds s avail"
    and v: "string2ll s = None"
  shows "encoded_ok ok h a r (tryObjectEncoding ok h a)"
proof (cases "length s \<le> OBJ_ENCODING_EMBSTR_SIZE_LIMIT \<and> o_encoding r \<noteq> OBJ_ENCODING_EMBSTR")
  case True
  have ty: "o_type r = OBJ_STRING" using r(2) by (simp add: str_obj_def)
  have l: "length s mod 256 = length s" using True by (simp add: OBJ_ENCODING_EMBSTR_SIZE_LIMIT_def)
  let ?e = "\<lparr>o_type = OBJ_STRING, o_encoding = OBJ_ENCODING_EMBSTR, o_lru = oh_lruclock h, o_refcount = 1, o_ptr = PSds s 0\<rparr> :: 'a robj"
  let ?h1 = "h\<lparr>oh_objs := (oh_objs h)(oh_brk h \<mapsto> ?e), oh_brk := oh_brk h + 1\<rparr>"
  let ?h = "?h1\<lparr>oh_objs := (oh_objs ?h1)(a := None)\<rparr>"
  have ab: "a \<noteq> oh_brk h" using wf r(1) by (force simp: oheap_wf_def)
  have "createEmbeddedStringObject h s = (oh_brk h, ?h1)" by (simp add: createEmbeddedStringObject_def obj_new_def l)
  moreover have "decrRefCount ?h1 a = Some ?h" using ab r ty by (intro free_string) auto
  ultimately have "tryObjectEncoding ok h a = Some (oh_brk h, ?h)"
    using True v unfolding encode_sds [OF r(1) ty r(3,4,5)] by simp
  moreover have "encoded_at ok h a r (oh_brk h) ?h ?e" using ab r(4) by (simp add: encoded_at_def fun_upd_twist)
  moreover have "str_obj ?e" "obj_text ?e = obj_text r" "string2ll (obj_text r) = None"
    using r(5) v by (auto simp: str_obj_def obj_text_def)
  moreover have "o_encoding r \<noteq> OBJ_ENCODING_INT" using r(3) by (auto simp: sdsEncodedObject_def)
  ultimately show ?thesis using ab by (intro encoded_okI [where r' = ?e and a' = "oh_brk h" and h' = ?h]) auto
next
  case False
  have ty: "o_type r = OBJ_STRING" using r(2) by (simp add: str_obj_def)
  let ?r = "r\<lparr>o_ptr := PSds s 0\<rparr>"
  have enc: "o_encoding r \<noteq> OBJ_ENCODING_INT" "string2ll (obj_text r) = None"
    using r(3,5) v by (auto simp: sdsEncodedObject_def obj_text_def)
  consider "tryObjectEncoding ok h a = Some (a, h)"
    | "tryObjectEncoding ok h a = Some (a, h\<lparr>oh_objs := (oh_objs h)(a \<mapsto> ?r)\<rparr>)"
    using False v unfolding encode_sds [OF r(1) ty r(3,4,5)]
    by (cases "o_encoding r = OBJ_ENCODING_RAW \<and> length s div 10 < avail") auto
  then show ?thesis
  proof cases
    case 1
    then show ?thesis using r(1,2) enc by (intro encoded_ok_kept) auto
  next
    case 2
    moreover have "str_obj ?r" "obj_text ?r = obj_text r" using r(2,5) by (auto simp: str_obj_def obj_text_def)
    ultimately show ?thesis using enc by (intro encoded_okI [where r' = ?r and a' = a and h' = "h\<lparr>oh_objs := (oh_objs h)(a \<mapsto> ?r)\<rparr>"]) (auto intro: encoded_at_same)
  qed
qed

text \<open>No shared integer is at the address of an sds encoded object.\<close>

lemma shared_not_sds:
  assumes "oheap_wf h" "oh_objs h a = Some r" "sdsEncodedObject r" "n < 10000"
  shows "oh_shared h n \<noteq> a"
  using assms by (auto simp: oheap_wf_def sdsEncodedObject_def)

lemma tryObjectEncoding_spec:
  assumes wf: "oheap_wf h" and r: "oh_objs h a = Some r" "str_obj r"
  shows "encoded_ok ok h a r (tryObjectEncoding ok h a)"
  using r(2)
proof (cases rule: str_obj_cases)
  case (num v)
  then have "tryObjectEncoding ok h a = Some (a, h)" using r by (simp add: tryObjectEncoding_def str_obj_def)
  then show ?thesis using r num by (intro encoded_ok_kept) auto
next
  case (sds s avail)
  show ?thesis
  proof (cases "o_refcount r = 1")
    case True
    then show ?thesis using encode_int [OF wf r sds(2) True sds(1)] encode_not_int [OF wf r sds(2) True sds(1)]
        shared_not_sds [OF wf r(1) sds(2)] by (cases "string2ll s") auto
  next
    case False
    then have "o_refcount r > 1" using r(2) by (simp add: str_obj_def)
    then have "tryObjectEncoding ok h a = Some (a, h)" using r sds by (simp add: tryObjectEncoding_def str_obj_def)
    then show ?thesis using r False by (intro encoded_ok_kept) auto
  qed
qed

section \<open>Decoding: lemmas\<close>

lemma createStringObject_spec:
  assumes "oheap_wf h"
  shows "\<exists>r. createStringObject h s = (oh_brk h, h\<lparr>oh_objs := (oh_objs h)(oh_brk h \<mapsto> r), oh_brk := oh_brk h + 1\<rparr>) \<and>
    str_obj r \<and> sdsEncodedObject r \<and> obj_text r = s \<and> o_refcount r = 1"
proof (cases "length s \<le> OBJ_ENCODING_EMBSTR_SIZE_LIMIT")
  case True
  then have "length s mod 256 = length s" by (simp add: OBJ_ENCODING_EMBSTR_SIZE_LIMIT_def)
  then show ?thesis using True
    by (intro exI [of _ "\<lparr>o_type = OBJ_STRING, o_encoding = OBJ_ENCODING_EMBSTR, o_lru = oh_lruclock h, o_refcount = 1, o_ptr = PSds s 0\<rparr>"])
       (simp add: createStringObject_def createEmbeddedStringObject_def obj_new_def str_obj_def sdsEncodedObject_def obj_text_def)
next
  case False
  then show ?thesis
    by (intro exI [of _ "\<lparr>o_type = OBJ_STRING, o_encoding = OBJ_ENCODING_RAW, o_lru = oh_lruclock h, o_refcount = 1, o_ptr = PSds s 0\<rparr>"])
       (simp add: createStringObject_def createRawStringObject_def createObject_def obj_new_def str_obj_def sdsEncodedObject_def obj_text_def)
qed

text \<open>A decoded object has the text of the original, and releasing it restores the heap.\<close>

lemma getDecodedObject_spec:
  assumes wf: "oheap_wf h" and r: "oh_objs h a = Some r" "str_obj r"
  shows "\<exists>b h1 r' h2. getDecodedObject h a = Some (b, h1) \<and> oh_objs h1 b = Some r' \<and> str_obj r' \<and> sdsEncodedObject r' \<and>
    obj_text r' = obj_text r \<and> decrRefCount h1 b = Some h2 \<and> oh_objs h2 = oh_objs h"
  using r(2)
proof (cases rule: str_obj_cases)
  case (sds s av)
  let ?r = "r\<lparr>o_refcount := o_refcount r + 1\<rparr>"
  have "getDecodedObject h a = Some (a, h\<lparr>oh_objs := (oh_objs h)(a \<mapsto> ?r)\<rparr>)"
    using r(1) sds(2) by (simp add: getDecodedObject_def incrRefCount_def obj_upd_def)
  moreover have "str_obj ?r" "sdsEncodedObject ?r" "obj_text ?r = obj_text r"
    using r(2) sds by (auto simp: str_obj_def sdsEncodedObject_def obj_text_def)
  moreover have "\<exists>h2. decrRefCount (h\<lparr>oh_objs := (oh_objs h)(a \<mapsto> ?r)\<rparr>) a = Some h2 \<and> oh_objs h2 = oh_objs h"
    using r by (auto simp: decrRefCount_def obj_upd_def str_obj_def)
  ultimately show ?thesis by auto
next
  case (num v)
  obtain r' where r': "createStringObject h (dec_int v) = (oh_brk h, h\<lparr>oh_objs := (oh_objs h)(oh_brk h \<mapsto> r'), oh_brk := oh_brk h + 1\<rparr>)"
    "str_obj r'" "sdsEncodedObject r'" "obj_text r' = dec_int v" "o_refcount r' = 1"
    using createStringObject_spec [OF wf] by blast
  let ?h = "h\<lparr>oh_objs := (oh_objs h)(oh_brk h \<mapsto> r'), oh_brk := oh_brk h + 1\<rparr>"
  have "getDecodedObject h a = Some (oh_brk h, ?h)"
    using r num r'(1) by (simp add: getDecodedObject_def str_obj_def ll_text_spec)
  moreover have "oh_objs h (oh_brk h) = None" using wf by (simp add: oheap_wf_def)
  then obtain h2 where "decrRefCount ?h (oh_brk h) = Some h2" "oh_objs h2 = oh_objs h"
    using r'(2,3,5) by (auto simp: decrRefCount_def str_obj_def free_accepts_def fun_upd_idem)
  ultimately show ?thesis using r' num(5)
    by (intro exI [of _ "oh_brk h"] exI [of _ ?h] exI [of _ r'] exI [of _ h2]) simp
qed

section \<open>Properties\<close>

text \<open>C19. \<open>tryObjectEncoding\<close> changes the representation of a string, never its text, and nothing
  else of the heap. On a well-formed heap it returns a string object with the same text. That object
  is the original with its reference count, or a fresh one with one reference in place of the
  original, or the shared integer, in place of the original and with one reference more than before;
  every other object is untouched, its reference count included. The result is integer encoded exactly
  if the original was, or if it was not shared and its text is the canonical notation of a 64-bit
  number; a number below 10000 becomes the shared integer wherever sharing is allowed. An object with
  more than one reference is left as it is.\<close>

theorem tryObjectEncoding_keeps_text:
  assumes "oheap_wf h" "oh_objs h a = Some r" "str_obj r"
  shows "\<exists>a' h' r'. tryObjectEncoding shared_ok h a = Some (a', h') \<and> oh_objs h' a' = Some r' \<and> str_obj r' \<and>
    obj_text r' = obj_text r \<and>
    (a' = a \<and> oh_objs h' = (oh_objs h)(a \<mapsto> r') \<and> o_refcount r' = o_refcount r \<or>
     o_refcount r = 1 \<and> a' = oh_brk h \<and> oh_objs h' = (oh_objs h)(a := None, a' \<mapsto> r') \<and> o_refcount r' = 1 \<or>
     o_refcount r = 1 \<and> shared_ok \<and> (\<exists>n q. n < 10000 \<and> a' = oh_shared h n \<and> a' \<noteq> a \<and> oh_objs h a' = Some q \<and>
       r' = q\<lparr>o_refcount := o_refcount q + 1\<rparr> \<and> oh_objs h' = (oh_objs h)(a := None, a' \<mapsto> r'))) \<and>
    oh_released h' = oh_released h \<and>
    (o_encoding r' = OBJ_ENCODING_INT \<longleftrightarrow>
       o_encoding r = OBJ_ENCODING_INT \<or> o_refcount r = 1 \<and> (\<exists>v. int64 v \<and> obj_text r = dec_int v)) \<and>
    (\<forall>n < 10000. shared_ok \<and> o_refcount r = 1 \<and> o_encoding r \<noteq> OBJ_ENCODING_INT \<and> obj_text r = dec_int (int n)
       \<longrightarrow> a' = oh_shared h n) \<and>
    (1 < o_refcount r \<longrightarrow> a' = a \<and> h' = h)"
proof -
  have iff: "string2ll (obj_text r) \<noteq> None \<longleftrightarrow> (\<exists>v. int64 v \<and> obj_text r = dec_int v)"
    using string2ll_iff [of "obj_text r"] by (metis not_None_eq)
  have num: "string2ll (obj_text r) = Some (int n) \<longleftrightarrow> obj_text r = dec_int (int n)" if "n < 10000" for n
    using that string2ll_iff [of "obj_text r" "int n"] by (auto simp: int64_def)
  have "1 < o_refcount r \<Longrightarrow> tryObjectEncoding shared_ok h a = Some (a, h)"
    using assms(2,3) by (simp add: tryObjectEncoding_def str_obj_def)
  moreover obtain a' h' r' where "tryObjectEncoding shared_ok h a = Some (a', h')" "oh_objs h' a' = Some r'" "str_obj r'"
    "obj_text r' = obj_text r" "encoded_at shared_ok h a r a' h' r'" "oh_released h' = oh_released h"
    "o_encoding r' = OBJ_ENCODING_INT \<longleftrightarrow>
       o_encoding r = OBJ_ENCODING_INT \<or> o_refcount r = 1 \<and> string2ll (obj_text r) \<noteq> None"
    "\<forall>n < 10000. shared_ok \<and> o_refcount r = 1 \<and> o_encoding r \<noteq> OBJ_ENCODING_INT \<and> string2ll (obj_text r) = Some (int n)
       \<longrightarrow> a' = oh_shared h n"
    using tryObjectEncoding_spec [OF assms, of shared_ok] unfolding encoded_ok_def by blast
  ultimately show ?thesis using num unfolding encoded_at_def iff
    by (intro exI [of _ a'] exI [of _ h'] exI [of _ r'] conjI) (assumption | simp)+
qed

definition ex_oheap :: "unit oheap" where
  "ex_oheap = \<lparr>oh_objs = (\<lambda>a. if a < 10000
       then Some \<lparr>o_type = OBJ_STRING, o_encoding = OBJ_ENCODING_INT, o_lru = 0, o_refcount = 1, o_ptr = PInt (int a)\<rparr>
       else if a = 10000 then Some \<lparr>o_type = OBJ_STRING, o_encoding = OBJ_ENCODING_RAW, o_lru = 0, o_refcount = 1, o_ptr = PSds ''-17'' 9\<rparr>
       else None),
     oh_brk = 10001, oh_shared = id, oh_lruclock = 5, oh_released = []\<rparr>"

lemma ex_oheap_wf: "oheap_wf ex_oheap"
  by (simp add: oheap_wf_def ex_oheap_def)

definition ex_oheap7 :: "unit oheap" where
  "ex_oheap7 = ex_oheap\<lparr>oh_objs := (oh_objs ex_oheap)(10000 \<mapsto>
     \<lparr>o_type = OBJ_STRING, o_encoding = OBJ_ENCODING_RAW, o_lru = 0, o_refcount = 1, o_ptr = PSds ''7'' 9\<rparr>)\<rparr>"

theorem tryObjectEncoding_keeps_text_witness:
  "\<exists>h' r'. tryObjectEncoding True ex_oheap7 10000 = Some (7, h') \<and> oh_objs h' 7 = Some r' \<and> obj_text r' = ''7'' \<and>
    o_refcount r' = 2 \<and> oh_objs h' = (oh_objs ex_oheap7)(10000 := None, 7 \<mapsto> r')"
proof -
  let ?r = "\<lparr>o_type = OBJ_STRING, o_encoding = OBJ_ENCODING_RAW, o_lru = 0, o_refcount = 1, o_ptr = PSds ''7'' 9\<rparr> :: unit robj"
  have wf: "oheap_wf ex_oheap7" by (simp add: oheap_wf_def ex_oheap7_def ex_oheap_def)
  have d: "dec_int (int 7) = ''7''"
    by (simp add: dec_int_def dec_nat.simps digit_char_def char_of_def bit_0)
  have o: "oh_objs ex_oheap7 10000 = Some ?r" "str_obj ?r" "obj_text ?r = ''7''" "o_refcount ?r = 1" "o_encoding ?r \<noteq> OBJ_ENCODING_INT"
    by (simp_all add: ex_oheap7_def str_obj_def obj_text_def)
  have sh: "oh_shared ex_oheap7 7 = 7" "oh_brk ex_oheap7 = 10001" "\<And>q. oh_objs ex_oheap7 7 = Some q \<Longrightarrow> o_refcount q = 1"
    by (auto simp: ex_oheap7_def ex_oheap_def)
  obtain a' h' r' where t: "tryObjectEncoding True ex_oheap7 10000 = Some (a', h')" "oh_objs h' a' = Some r'" "obj_text r' = ''7''"
    and c: "a' = 10000 \<or> a' = 10001 \<or>
      (\<exists>q. oh_objs ex_oheap7 a' = Some q \<and> r' = q\<lparr>o_refcount := o_refcount q + 1\<rparr> \<and>
         oh_objs h' = (oh_objs ex_oheap7)(10000 := None, a' \<mapsto> r'))"
    and n: "\<forall>n < 10000. obj_text ?r = dec_int (int n) \<longrightarrow> a' = oh_shared ex_oheap7 n"
    using tryObjectEncoding_keeps_text [OF wf o(1,2), of True] o sh(2) by fastforce
  have "a' = 7" using n [rule_format, of 7] o(3) d sh(1) by simp
  then show ?thesis using t c sh(3) by auto
qed

text \<open>C23. Every query sees the text of a string object, not its encoding: \<open>equalStringObjects\<close>
  decides equality of the texts, \<open>compareStringObjects\<close> is their lexicographic order by bytes,
  \<open>stringObjectLen\<close> is their length, \<open>getLongLongFromObject\<close> is \<open>string2ll\<close> of the text,
  and an object from \<open>getDecodedObject\<close> has the same text and can be released, after which the heap
  is as before.\<close>

theorem string_objects_as_texts:
  assumes "oheap_wf h" "oh_objs h a = Some ra" "oh_objs h b = Some rb" "str_obj ra" "str_obj rb"
    "length (obj_text ra) < 2 ^ 31" "length (obj_text rb) < 2 ^ 31"
  shows "equalStringObjects h a b = Some (obj_text ra = obj_text rb) \<and>
    (\<exists>c. compareStringObjects h a b = Some c \<and> (c = 0 \<longleftrightarrow> obj_text ra = obj_text rb) \<and>
      (c < 0 \<longleftrightarrow> ord_class.lexordp (map chr_code (obj_text ra)) (map chr_code (obj_text rb)))) \<and>
    stringObjectLen ra = Some (length (obj_text ra)) \<and>
    getLongLongFromObject (Some ra) = Some (string2ll (obj_text ra)) \<and>
    isObjectRepresentableAsLongLong ra = Some (string2ll (obj_text ra)) \<and>
    (\<exists>d h1 r' h2. getDecodedObject h a = Some (d, h1) \<and> oh_objs h1 d = Some r' \<and> sdsEncodedObject r' \<and>
      obj_text r' = obj_text ra \<and> decrRefCount h1 d = Some h2 \<and> oh_objs h2 = oh_objs h)"
  using equalStringObjects_spec [OF assms(2-)] compareStringObjects_spec [OF assms(2-)] stringObjectLen_spec [OF assms(4)]
    getLongLong_spec [OF assms(4)] isRepresentable_spec [OF assms(4)] getDecodedObject_spec [OF assms(1,2,4)]
  by blast

theorem string_objects_as_texts_witness:
  "equalStringObjects ex_oheap 10000 7 = Some (''-17'' = dec_int 7) \<and> oheap_wf ex_oheap"
proof -
  let ?r = "\<lparr>o_type = OBJ_STRING, o_encoding = OBJ_ENCODING_RAW, o_lru = 0, o_refcount = 1, o_ptr = PSds ''-17'' 9\<rparr> :: unit robj"
  let ?q = "\<lparr>o_type = OBJ_STRING, o_encoding = OBJ_ENCODING_INT, o_lru = 0, o_refcount = 1, o_ptr = PInt 7\<rparr> :: unit robj"
  have i: "int64 7" by (simp add: int64_def)
  have o: "oh_objs ex_oheap 10000 = Some ?r" "oh_objs ex_oheap 7 = Some ?q" "str_obj ?r" "str_obj ?q"
    "obj_text ?r = ''-17''" "obj_text ?q = dec_int 7"
    using i by (simp_all add: ex_oheap_def str_obj_def obj_text_def)
  have "length (obj_text ?r) < 2 ^ 31" "length (obj_text ?q) < 2 ^ 31"
    using o length_dec_int64 [OF i] by simp_all
  then show ?thesis using string_objects_as_texts [OF ex_oheap_wf o(1-4)] ex_oheap_wf o(5,6) by simp
qed

text \<open>C34. The idle time of an object is the number of clock ticks since its last access, in
  milliseconds, when the 24-bit clock did not wrap in between, and one tick less when it did: the
  wrapped case adds \<open>LRU_CLOCK_MAX - lru\<close>, not the size of the clock minus \<open>lru\<close>.\<close>

theorem estimateObjectIdleTime_wrap:
  assumes "o_lru r < 2 ^ 24" "t < 2 ^ 24"
  shows "estimateObjectIdleTime ((o_lru r + t) mod 2 ^ 24) r = (if o_lru r + t < 2 ^ 24 then t else t - 1) * 1000"
proof (cases "o_lru r + t < 2 ^ 24")
  case True
  then show ?thesis by (simp add: estimateObjectIdleTime_def LRU_CLOCK_RESOLUTION_def)
next
  case False
  then have "(o_lru r + t) mod 2 ^ 24 = o_lru r + t - 2 ^ 24"
    using assms by (subst le_mod_geq) auto
  then show ?thesis using False assms
    by (simp add: estimateObjectIdleTime_def LRU_CLOCK_RESOLUTION_def LRU_CLOCK_MAX_def)
qed

theorem estimateObjectIdleTime_wrap_witness:
  "estimateObjectIdleTime 0 \<lparr>o_type = OBJ_STRING, o_encoding = OBJ_ENCODING_RAW, o_lru = 2 ^ 24 - 1, o_refcount = 1, o_ptr = (PSds [] 0 :: unit obj_ptr)\<rparr> = 0"
  using estimateObjectIdleTime_wrap [of "\<lparr>o_type = OBJ_STRING, o_encoding = OBJ_ENCODING_RAW, o_lru = 2 ^ 24 - 1, o_refcount = 1, o_ptr = (PSds [] 0 :: unit obj_ptr)\<rparr>" 1]
  by simp

end
