(* ===== verification/DictTypes.thy ===== *)
theory DictTypes
  imports DictMap Object
begin

text \<open>
  The hash functions of \<open>dict.c\<close> and the dictionary types of \<open>server.c\<close>: each of them satisfies
  the laws of keys on the keys it is used with. The properties of dictionaries are stated here, over
  these types.
\<close>

section \<open>Hash functions\<close>

definition dictIntHashFunction :: "u32 \<Rightarrow> u32" where
  "dictIntHashFunction key =
     (let key = key + NOT (push_bit 15 key);
          key = key XOR drop_bit 10 key;
          key = key + push_bit 3 key;
          key = key XOR drop_bit 6 key;
          key = key + NOT (push_bit 11 key);
          key = key XOR drop_bit 16 key
      in key)"

definition chr_u32 :: "char \<Rightarrow> u32" where
  "chr_u32 c = of_nat (chr_code c)"

definition murmur_m :: u32 where
  "murmur_m = 0x5bd1e995"

text \<open>Four bytes at a time, read as a little-endian word.\<close>

fun murmur_loop :: "u32 \<Rightarrow> string \<Rightarrow> u32 \<times> string" where
  "murmur_loop h (a # b # c # d # rest) =
     (let k = chr_u32 a OR push_bit 8 (chr_u32 b) OR push_bit 16 (chr_u32 c) OR push_bit 24 (chr_u32 d);
          k = k * murmur_m;
          k = k XOR drop_bit 24 k;
          k = k * murmur_m;
          h = h * murmur_m;
          h = h XOR k
      in murmur_loop h rest)"
| "murmur_loop h rest = (h, rest)"

definition murmur_tail :: "u32 \<Rightarrow> string \<Rightarrow> u32" where
  "murmur_tail h data =
     (let h = (if length data = 3 then h XOR push_bit 16 (chr_u32 (data ! 2)) else h);
          h = (if length data \<ge> 2 \<and> length data \<le> 3 then h XOR push_bit 8 (chr_u32 (data ! 1)) else h)
      in if length data \<ge> 1 \<and> length data \<le> 3 then (h XOR chr_u32 (data ! 0)) * murmur_m else h)"

definition dictGenHashFunction :: "u32 \<Rightarrow> string \<Rightarrow> u32" where
  "dictGenHashFunction seed key =
     (let (h, rest) = murmur_loop (seed XOR of_nat (length key)) key;
          h = murmur_tail h rest;
          h = h XOR drop_bit 13 h;
          h = h * murmur_m;
          h = h XOR drop_bit 15 h
      in h)"

fun djb_loop :: "u32 \<Rightarrow> string \<Rightarrow> u32" where
  "djb_loop hash [] = hash"
| "djb_loop hash (c # cs) = djb_loop (push_bit 5 hash + hash + chr_u32 (tolower c)) cs"

definition dictGenCaseHashFunction :: "u32 \<Rightarrow> string \<Rightarrow> u32" where
  "dictGenCaseHashFunction seed buf = djb_loop seed buf"

section \<open>Key functions of \<open>server.c\<close>\<close>

text \<open>The lengths are kept in \<open>int\<close>.\<close>

definition dictSdsKeyCompare :: "string \<Rightarrow> string \<Rightarrow> bool" where
  "dictSdsKeyCompare key1 key2 =
     (let l1 = to_int32 (int (length key1)); l2 = to_int32 (int (length key2))
      in if l1 \<noteq> l2 then False else memcmp (take (nat l1) key1) (take (nat l1) key2) = 0)"

text \<open>\<open>strcasecmp\<close> stops at the first NUL.\<close>

definition c_str :: "string \<Rightarrow> string" where
  "c_str s = takeWhile (\<lambda>c. c \<noteq> NUL) s"

definition dictSdsKeyCaseCompare :: "string \<Rightarrow> string \<Rightarrow> bool" where
  "dictSdsKeyCaseCompare key1 key2 \<longleftrightarrow> strcasecmp_eq (c_str key1) (c_str key2)"

definition dictSdsHash :: "u32 \<Rightarrow> string \<Rightarrow> u32" where
  "dictSdsHash seed key = dictGenHashFunction seed key"

definition dictSdsCaseHash :: "u32 \<Rightarrow> string \<Rightarrow> u32" where
  "dictSdsCaseHash seed key = dictGenCaseHashFunction seed key"

text \<open>\<open>ptr\<close> of an object as an sds string and as a number.\<close>

definition sds_of :: "'p robj \<Rightarrow> string" where
  "sds_of r = (case o_ptr r of PSds s av \<Rightarrow> s | _ \<Rightarrow> [])"

definition long_of :: "'p robj \<Rightarrow> int" where
  "long_of r = (case o_ptr r of PInt v \<Rightarrow> v | _ \<Rightarrow> 0)"

definition ll_chars :: "int \<Rightarrow> string" where
  "ll_chars v = (case ll_text 32 v of Some s \<Rightarrow> s | None \<Rightarrow> [])"

definition dictObjKeyCompare :: "'p robj \<Rightarrow> 'p robj \<Rightarrow> bool" where
  "dictObjKeyCompare o1 o2 = dictSdsKeyCompare (sds_of o1) (sds_of o2)"

definition dictObjHash :: "u32 \<Rightarrow> 'p robj \<Rightarrow> u32" where
  "dictObjHash seed r = dictGenHashFunction seed (sds_of r)"

text \<open>\<open>getDecodedObject\<close> followed by \<open>decrRefCount\<close> leaves the heap as it was, so only the
  text of the decoded object matters.\<close>

definition decoded_chars :: "'p robj \<Rightarrow> string" where
  "decoded_chars r = (if sdsEncodedObject r then sds_of r else ll_chars (long_of r))"

definition dictEncObjKeyCompare :: "'p robj \<Rightarrow> 'p robj \<Rightarrow> bool" where
  "dictEncObjKeyCompare o1 o2 =
     (if o_encoding o1 = OBJ_ENCODING_INT \<and> o_encoding o2 = OBJ_ENCODING_INT then long_of o1 = long_of o2
      else dictSdsKeyCompare (decoded_chars o1) (decoded_chars o2))"

definition dictEncObjHash :: "u32 \<Rightarrow> 'p robj \<Rightarrow> u32" where
  "dictEncObjHash seed r =
     (if sdsEncodedObject r then dictGenHashFunction seed (sds_of r)
      else if o_encoding r = OBJ_ENCODING_INT then dictGenHashFunction seed (ll_chars (long_of r))
      else dictGenHashFunction seed (decoded_chars r))"

section \<open>The dictionary types\<close>

definition setDictType :: "u32 \<Rightarrow> ('p robj, 'v) dictType" where
  "setDictType seed = \<lparr>hashFunction = dictEncObjHash seed, keyDup = None, valDup = None,
     keyCompare = Some dictEncObjKeyCompare, keyDestructor = True, valDestructor = False\<rparr>"

definition zsetDictType :: "u32 \<Rightarrow> ('p robj, 'v) dictType" where
  "zsetDictType seed = \<lparr>hashFunction = dictEncObjHash seed, keyDup = None, valDup = None,
     keyCompare = Some dictEncObjKeyCompare, keyDestructor = True, valDestructor = False\<rparr>"

definition dbDictType :: "u32 \<Rightarrow> (string, 'v) dictType" where
  "dbDictType seed = \<lparr>hashFunction = dictSdsHash seed, keyDup = None, valDup = None,
     keyCompare = Some dictSdsKeyCompare, keyDestructor = True, valDestructor = True\<rparr>"

definition shaScriptObjectDictType :: "u32 \<Rightarrow> (string, 'v) dictType" where
  "shaScriptObjectDictType seed = \<lparr>hashFunction = dictSdsCaseHash seed, keyDup = None, valDup = None,
     keyCompare = Some dictSdsKeyCaseCompare, keyDestructor = True, valDestructor = True\<rparr>"

definition keyptrDictType :: "u32 \<Rightarrow> (string, 'v) dictType" where
  "keyptrDictType seed = \<lparr>hashFunction = dictSdsHash seed, keyDup = None, valDup = None,
     keyCompare = Some dictSdsKeyCompare, keyDestructor = False, valDestructor = False\<rparr>"

definition commandTableDictType :: "u32 \<Rightarrow> (string, 'v) dictType" where
  "commandTableDictType seed = \<lparr>hashFunction = dictSdsCaseHash seed, keyDup = None, valDup = None,
     keyCompare = Some dictSdsKeyCaseCompare, keyDestructor = True, valDestructor = False\<rparr>"

definition hashDictType :: "u32 \<Rightarrow> ('p robj, 'v) dictType" where
  "hashDictType seed = \<lparr>hashFunction = dictEncObjHash seed, keyDup = None, valDup = None,
     keyCompare = Some dictEncObjKeyCompare, keyDestructor = True, valDestructor = True\<rparr>"

definition keylistDictType :: "u32 \<Rightarrow> ('p robj, 'v) dictType" where
  "keylistDictType seed = \<lparr>hashFunction = dictObjHash seed, keyDup = None, valDup = None,
     keyCompare = Some dictObjKeyCompare, keyDestructor = True, valDestructor = True\<rparr>"

definition clusterNodesDictType :: "u32 \<Rightarrow> (string, 'v) dictType" where
  "clusterNodesDictType seed = \<lparr>hashFunction = dictSdsHash seed, keyDup = None, valDup = None,
     keyCompare = Some dictSdsKeyCompare, keyDestructor = True, valDestructor = False\<rparr>"

definition clusterNodesBlackListDictType :: "u32 \<Rightarrow> (string, 'v) dictType" where
  "clusterNodesBlackListDictType seed = \<lparr>hashFunction = dictSdsCaseHash seed, keyDup = None, valDup = None,
     keyCompare = Some dictSdsKeyCaseCompare, keyDestructor = True, valDestructor = False\<rparr>"

definition migrateCacheDictType :: "u32 \<Rightarrow> (string, 'v) dictType" where
  "migrateCacheDictType seed = \<lparr>hashFunction = dictSdsHash seed, keyDup = None, valDup = None,
     keyCompare = Some dictSdsKeyCompare, keyDestructor = True, valDestructor = False\<rparr>"

definition replScriptCacheDictType :: "u32 \<Rightarrow> (string, 'v) dictType" where
  "replScriptCacheDictType seed = \<lparr>hashFunction = dictSdsCaseHash seed, keyDup = None, valDup = None,
     keyCompare = Some dictSdsKeyCaseCompare, keyDestructor = True, valDestructor = False\<rparr>"

section \<open>Laws of the keys\<close>

text \<open>An sds key as long as a Redis string may be (512 MB, less than \<open>2^31\<close> bytes); one without NUL
  bytes; a string object.\<close>

definition sds_key :: "string \<Rightarrow> bool" where
  "sds_key s \<longleftrightarrow> length s < 2 ^ 31"

definition cstr_key :: "string \<Rightarrow> bool" where
  "cstr_key s \<longleftrightarrow> NUL \<notin> set s"

definition obj_key :: "'p robj \<Rightarrow> bool" where
  "obj_key r \<longleftrightarrow> str_obj r \<and> length (obj_text r) < 2 ^ 31"

definition raw_key :: "'p robj \<Rightarrow> bool" where
  "raw_key r \<longleftrightarrow> obj_key r \<and> sdsEncodedObject r"

lemma memcmp_eq: "length a = length b \<Longrightarrow> memcmp a b = 0 \<longleftrightarrow> a = b"
  by (induction a b rule: memcmp.induct) auto

lemma dictSdsKeyCompare_eq: "sds_key a \<Longrightarrow> sds_key b \<Longrightarrow> dictSdsKeyCompare a b \<longleftrightarrow> a = b"
proof -
  assume "sds_key a" "sds_key b"
  then have "to_int32 (int (length a)) = int (length a)" "to_int32 (int (length b)) = int (length b)"
    by (auto simp: sds_key_def int32_def intro!: to_int32_id)
  then show ?thesis by (cases "length a = length b") (simp_all add: dictSdsKeyCompare_def memcmp_eq, auto)
qed

lemma c_str_id: "cstr_key s \<Longrightarrow> c_str s = s"
  by (auto simp: c_str_def cstr_key_def takeWhile_eq_all_conv)

lemma djb_fold: "djb_loop h a = fold (\<lambda>c h. push_bit 5 h + h + chr_u32 c) (map tolower a) h"
  by (induction h a rule: djb_loop.induct) simp_all

lemma djb_lower: "map tolower a = map tolower b \<Longrightarrow> djb_loop h a = djb_loop h b"
  by (simp only: djb_fold)

lemma ll_chars_eq: "int64 v \<Longrightarrow> ll_chars v = dec_int v"
  by (simp add: ll_chars_def ll_text_spec)

lemma decoded_chars_text: "str_obj r \<Longrightarrow> decoded_chars r = obj_text r"
  by (erule str_obj_cases) (simp_all add: decoded_chars_def sds_of_def long_of_def ll_chars_eq)

lemma dictEncObjHash_text: "str_obj r \<Longrightarrow> dictEncObjHash seed r = dictGenHashFunction seed (obj_text r)"
  by (erule str_obj_cases) (simp_all add: dictEncObjHash_def sds_of_def long_of_def ll_chars_eq)

lemma dec_int_inj: "int64 x \<Longrightarrow> int64 y \<Longrightarrow> dec_int x = dec_int y \<longleftrightarrow> x = y"
  by (metis option.inject string2ll_dec_int)

lemma dictEncObjKeyCompare_eq:
  assumes "obj_key a" "obj_key b"
  shows "dictEncObjKeyCompare a b \<longleftrightarrow> obj_text a = obj_text b"
proof (cases "o_encoding a = OBJ_ENCODING_INT \<and> o_encoding b = OBJ_ENCODING_INT")
  case True
  then obtain x y where "o_ptr a = PInt x" "o_ptr b = PInt y" "int64 x" "int64 y"
    using assms by (auto simp: obj_key_def str_obj_def split: obj_ptr.splits)
  then show ?thesis using True by (simp add: dictEncObjKeyCompare_def long_of_def obj_text_def dec_int_inj)
next
  case False
  then show ?thesis using assms
    by (auto simp: dictEncObjKeyCompare_def decoded_chars_text obj_key_def dictSdsKeyCompare_eq sds_key_def)
qed

lemma sds_of_text: "raw_key r \<Longrightarrow> sds_of r = obj_text r"
  by (auto simp: raw_key_def obj_key_def sds_of_def obj_text_def str_obj_def sdsEncodedObject_def split: obj_ptr.splits)

text \<open>A type whose comparison is equality of an abstract value of the key, and whose hash depends on
  that value only.\<close>

lemma dict_keysI:
  assumes "keyDup ty = None" "\<And>a b. valid a \<Longrightarrow> valid b \<Longrightarrow> same_key ty a b \<longleftrightarrow> f a = f b"
    "\<And>a b. valid a \<Longrightarrow> valid b \<Longrightarrow> f a = f b \<Longrightarrow> hashFunction ty a = hashFunction ty b"
  shows "dict_keys ty valid"
proof
  fix a b c
  show "valid a \<Longrightarrow> valid b \<Longrightarrow> same_key ty a b \<Longrightarrow> same_key ty b a" using assms(2) by metis
  show "valid a \<Longrightarrow> valid b \<Longrightarrow> valid c \<Longrightarrow> same_key ty a b \<Longrightarrow> same_key ty b c \<Longrightarrow> same_key ty a c"
    using assms(2) by metis
  show "valid a \<Longrightarrow> valid b \<Longrightarrow> same_key ty a b \<Longrightarrow> hashFunction ty a = hashFunction ty b" using assms(2,3) by blast
  show "valid a \<Longrightarrow> valid (dup_key ty a)" by (simp add: dup_key_def assms(1))
  show "valid a \<Longrightarrow> same_key ty a (dup_key ty a)" by (simp add: dup_key_def assms(1) same_key_def)
qed

lemmas same_key_defs = same_key_def dictCompareKeys_def

lemma sds_same_key:
  "keyCompare ty = Some dictSdsKeyCompare \<Longrightarrow> sds_key a \<Longrightarrow> sds_key b \<Longrightarrow> same_key ty a b \<longleftrightarrow> a = b"
  by (auto simp: same_key_defs dictSdsKeyCompare_eq)

lemma case_same_key:
  "keyCompare ty = Some dictSdsKeyCaseCompare \<Longrightarrow> cstr_key a \<Longrightarrow> cstr_key b \<Longrightarrow> same_key ty a b \<longleftrightarrow> map tolower a = map tolower b"
  by (auto simp: same_key_defs dictSdsKeyCaseCompare_def c_str_id strcasecmp_eq_def)

lemma obj_same_key:
  "keyCompare ty = Some dictEncObjKeyCompare \<Longrightarrow> obj_key a \<Longrightarrow> obj_key b \<Longrightarrow> same_key ty a b \<longleftrightarrow> obj_text a = obj_text b"
  by (auto simp: same_key_defs dictEncObjKeyCompare_eq)

lemma raw_same_key:
  "keyCompare ty = Some dictObjKeyCompare \<Longrightarrow> raw_key a \<Longrightarrow> raw_key b \<Longrightarrow> same_key ty a b \<longleftrightarrow> obj_text a = obj_text b"
  using sds_of_text [of a] sds_of_text [of b]
  by (auto simp: same_key_defs dictObjKeyCompare_def dictSdsKeyCompare_eq sds_key_def raw_key_def obj_key_def)

interpretation dbd: dict_keys "dbDictType seed" sds_key for seed
  by (rule dict_keysI [where f = id]) (auto simp: dbDictType_def sds_same_key)

interpretation expd: dict_keys "keyptrDictType seed" sds_key for seed
  by (rule dict_keysI [where f = id]) (auto simp: keyptrDictType_def sds_same_key)

interpretation clusterd: dict_keys "clusterNodesDictType seed" sds_key for seed
  by (rule dict_keysI [where f = id]) (auto simp: clusterNodesDictType_def sds_same_key)

interpretation cmdd: dict_keys "commandTableDictType seed" cstr_key for seed
  by (rule dict_keysI [where f = "map tolower"])
     (auto simp: commandTableDictType_def case_same_key dictSdsCaseHash_def dictGenCaseHashFunction_def intro: djb_lower)

interpretation shad: dict_keys "shaScriptObjectDictType seed" cstr_key for seed
  by (rule dict_keysI [where f = "map tolower"])
     (auto simp: shaScriptObjectDictType_def case_same_key dictSdsCaseHash_def dictGenCaseHashFunction_def intro: djb_lower)

interpretation setd: dict_keys "setDictType seed" obj_key for seed
  by (rule dict_keysI [where f = obj_text])
     (auto simp: setDictType_def obj_same_key dictEncObjHash_text obj_key_def)

interpretation zsetd: dict_keys "zsetDictType seed" obj_key for seed
  by (rule dict_keysI [where f = obj_text])
     (auto simp: zsetDictType_def obj_same_key dictEncObjHash_text obj_key_def)

interpretation hashd: dict_keys "hashDictType seed" obj_key for seed
  by (rule dict_keysI [where f = obj_text])
     (auto simp: hashDictType_def obj_same_key dictEncObjHash_text obj_key_def)

interpretation keylistd: dict_keys "keylistDictType seed" raw_key for seed
  by (rule dict_keysI [where f = obj_text])
     (auto simp: keylistDictType_def raw_same_key dictObjHash_def sds_of_text)

text \<open>The blacklist and the script cache have the functions of the command table, the migration cache
  those of the table of nodes.\<close>

lemma same_dict_types:
  "clusterNodesBlackListDictType = commandTableDictType" "replScriptCacheDictType = commandTableDictType"
  "migrateCacheDictType = clusterNodesDictType"
  by (simp_all add: fun_eq_iff clusterNodesBlackListDictType_def commandTableDictType_def replScriptCacheDictType_def
    migrateCacheDictType_def clusterNodesDictType_def)

section \<open>Properties\<close>

lemma dbDict_simps [simp]: "valDup (dbDictType seed) = None" "keyDestructor (dbDictType seed)" "valDestructor (dbDictType seed)"
  by (simp_all add: dbDictType_def)

lemma db_same_key: "sds_key a \<Longrightarrow> sds_key b \<Longrightarrow> a = b \<longleftrightarrow> same_key (dbDictType seed) a b"
  by (subst sds_same_key) (simp_all add: dbDictType_def)

text \<open>C1. The dictionary of a database implements a finite map from strings to values. Any sequence
  of at most \<open>2^30\<close> additions, replacements, deletions, lookups, rehashing calls and resizes,
  with resizing enabled or disabled at will in between, returns (no access outside a table, no
  failed assertion), every result is the one the map gives, and in the end the dictionary satisfies
  its invariant and holds exactly the map.\<close>
theorem db_dict_refines_map:
  assumes "length xs \<le> 2 ^ 30" "\<forall>x \<in> set xs. \<forall>k \<in> set (op_keys (snd x)). length k < 2 ^ 31"
  shows "\<exists>d. dict_run (dictCreate (dbDictType seed)) xs = Some (d, snd (map_run (=) (\<lambda>k. None) (map snd xs))) \<and>
    dict_inv (dbDictType seed) sds_key d \<and>
    (\<forall>k. length k < 2 ^ 31 \<longrightarrow> dict_get d k = map_option Some (fst (map_run (=) (\<lambda>k. None) (map snd xs)) k))"
  using dbd.dict_run_sim [OF dict_sim_create, where xs = xs and eq = "(=)" and seed = seed] assms db_same_key [of _ _ seed]
  unfolding dict_sim_def sds_key_def [symmetric] by auto

theorem db_dict_refines_map_witness:
  "\<exists>d. dict_run (dictCreate (dbDictType 5381))
      [(True, DAdd ''a'' (1::nat)), (True, DAdd ''a'' 2), (False, DAdd ''b'' 3), (True, DResize), (True, DRehash 1),
       (True, DReplace ''b'' 4), (True, DFetch ''b''), (True, DDelete ''a''), (False, DFetch ''a'')] =
    Some (d, [RBool True, RBool False, RBool True, RUnit, RUnit, RBool False, RVal (Some 4), RBool True, RVal None])"
  using db_dict_refines_map [of "[(True, DAdd ''a'' (1::nat)), (True, DAdd ''a'' 2), (False, DAdd ''b'' 3), (True, DResize),
    (True, DRehash 1), (True, DReplace ''b'' 4), (True, DFetch ''b''), (True, DDelete ''a''), (False, DFetch ''a'')]" 5381]
  by (auto simp: map_put_def)

text \<open>C17. The dictionary types of the server are lawful: comparing keys is an equivalence that the hash
  function respects, for sds keys (\<open>dbDictType\<close>, \<open>keyptrDictType\<close>,
  \<open>clusterNodesDictType\<close>, \<open>migrateCacheDictType\<close>), for string objects in any mix of encodings
  (\<open>setDictType\<close>, \<open>zsetDictType\<close>, \<open>hashDictType\<close>), for sds-encoded objects
  (\<open>keylistDictType\<close>) and, for the four types that ignore case, for keys without NUL bytes. With
  NUL bytes it fails: \<open>dictSdsKeyCaseCompare\<close> stops at the NUL and \<open>dictSdsCaseHash\<close> does
  not, so two keys that compare equal have different hashes.\<close>
theorem server_dict_types_lawful:
  "dict_keys (dbDictType seed) sds_key \<and> dict_keys (keyptrDictType seed) sds_key \<and>
   dict_keys (clusterNodesDictType seed) sds_key \<and> dict_keys (commandTableDictType seed) cstr_key \<and>
   dict_keys (shaScriptObjectDictType seed) cstr_key \<and> dict_keys (setDictType seed) obj_key \<and>
   dict_keys (zsetDictType seed) obj_key \<and> dict_keys (hashDictType seed) obj_key \<and>
   dict_keys (keylistDictType seed) raw_key \<and> dict_keys (migrateCacheDictType seed) sds_key \<and>
   dict_keys (clusterNodesBlackListDictType seed) cstr_key \<and> dict_keys (replScriptCacheDictType seed) cstr_key \<and>
   dictSdsKeyCaseCompare ''get'' (''GET'' @ [NUL, CHR ''x'']) \<and>
   dictSdsCaseHash 5381 ''get'' \<noteq> dictSdsCaseHash 5381 (''GET'' @ [NUL, CHR ''x''])"
  unfolding same_dict_types
proof (intro conjI)
  show "dictSdsKeyCaseCompare ''get'' (''GET'' @ [NUL, CHR ''x''])" by code_simp
  show "dictSdsCaseHash 5381 ''get'' \<noteq> dictSdsCaseHash 5381 (''GET'' @ [NUL, CHR ''x''])" by code_simp
qed (rule dbd.dict_keys_axioms expd.dict_keys_axioms clusterd.dict_keys_axioms cmdd.dict_keys_axioms
  shad.dict_keys_axioms setd.dict_keys_axioms zsetd.dict_keys_axioms hashd.dict_keys_axioms keylistd.dict_keys_axioms)+

text \<open>A dictionary in the middle of a rehash.\<close>

definition ex_dict :: "(string, nat) dict" where
  "ex_dict = fst (dictExpand (fst (the (dictAdd True (dictCreate (dbDictType 5381)) ''key'' 7))) 8)"

lemma key_hash: "dictGenHashFunction 5381 ''key'' = 3304087095"
  by code_simp

lemma next_powers: "dictNextPower 4 = 4" "dictNextPower 8 = 8"
  by (simp_all add: dictNextPower_def LONG_MAX_def DICT_HT_INITIAL_SIZE_def nextPower_loop.simps)

lemma alloc_small: "alloc_cells 4 = 4" "alloc_cells 8 = 8" "replicate 4 x = [x, x, x, x]"
  by (simp_all add: alloc_cells_def) (simp add: numeral_eq_Suc)

lemma ex_dict_eq:
  "ex_dict = \<lparr>d_type = dbDictType 5381,
     d_ht0 = \<lparr>ht_table = Some [[], [], [], [\<lparr>de_key = ''key'', de_val = Some 7\<rparr>]], ht_size = 4, ht_sizemask = 3, ht_used = 1\<rparr>,
     d_ht1 = \<lparr>ht_table = Some (replicate 8 []), ht_size = 8, ht_sizemask = 7, ht_used = 0\<rparr>,
     d_rehashidx = 0, d_iterators = 0, d_log = []\<rparr>"
proof -
  have h: "hashFunction (dbDictType 5381) ''key'' = 3304087095" by (simp add: dbDictType_def dictSdsHash_def key_hash)
  have d1: "dictExpandIfNeeded True (dictCreate ty) = ((dictCreate ty)\<lparr>d_ht0 := \<lparr>ht_table = Some [[], [], [], []],
    ht_size = 4, ht_sizemask = 3, ht_used = 0\<rparr>\<rparr>, True)" for ty :: "(string, nat) dictType"
    by (simp add: dictExpandIfNeeded_def dictExpand_def dictIsRehashing_def dictCreate_def dictReset_def next_powers
      DICT_HT_INITIAL_SIZE_def alloc_small Let_def)
  have "dictAdd True (dictCreate (dbDictType 5381)) ''key'' 7 = Some ((dictCreate (dbDictType 5381))\<lparr>d_ht0 := 
    \<lparr>ht_table = Some [[], [], [], [\<lparr>de_key = ''key'', de_val = Some (7::nat)\<rparr>]], ht_size = 4, ht_sizemask = 3, ht_used = 1\<rparr>\<rparr>, True)"
    by (simp add: dictAdd_def dictAddRaw_def rehash_if_needed_def dictIsRehashing_def dictCreate_def dictKeyIndex_def
      d1 [unfolded dictCreate_def] search_tables_def h ht_index_def ht_get_def ht_put_def cell_get_def cell_set_def ht_of_def set_ht_def
      to_int32_def used_incr_def dictSetVal_def dup_key_def dup_val_def Let_def) (simp add: dbDictType_def)
  then show ?thesis by (simp add: ex_dict_def dictExpand_def dictIsRehashing_def dictCreate_def next_powers alloc_small dictReset_def)
qed

lemma ex_dict_facts: "dict_inv (dbDictType 5381) sds_key ex_dict" "dictIsRehashing ex_dict" "ht_size (d_ht0 ex_dict) = 4"
proof -
  have "sds_key ''key''" by (simp add: sds_key_def)
  from dbd.dictAdd_spec [OF dict_inv_create this dict_create_simps(3), where seed = 5381 and can_resize = True and v = "7 :: nat"]
  have "dict_inv (dbDictType 5381) sds_key (fst (the (dictAdd True (dictCreate (dbDictType 5381)) ''key'' (7::nat))))" by auto
  from dictExpand_spec [OF this, of 8 3] show "dict_inv (dbDictType 5381) sds_key ex_dict"
    unfolding ex_dict_def by (simp split: prod.splits)
  show "dictIsRehashing ex_dict" "ht_size (d_ht0 ex_dict) = 4" by (simp_all add: ex_dict_eq dictIsRehashing_def)
qed

text \<open>C7. Incremental rehashing ends and loses nothing. From any state of a dictionary, with buckets of
  the first table still to move or not, as many calls of \<open>dictRehash\<close> as the first table has buckets, plus one, leave it with one
  table and the same entries, whatever the number of steps each call is asked for; and
  \<open>dictRehashMilliseconds\<close> returns for every clock, even one that stands still, with the same
  entries, and having finished unless the clock passed the limit.\<close>
theorem dictRehash_completes:
  assumes "dict_inv ty valid d" "0 < n"
  shows "(\<exists>d'. rehash_times (Suc (ht_size (d_ht0 d))) n d = Some d' \<and> \<not> dictIsRehashing d' \<and>
      mset (dict_entries d') = mset (dict_entries d)) \<and>
    (\<exists>d' r. dictRehashMilliseconds clock d ms = Some (d', r) \<and> dict_inv ty valid d' \<and>
      mset (dict_entries d') = mset (dict_entries d) \<and> (dictIsRehashing d' \<longrightarrow> (\<exists>j. clock j - clock 0 > ms)))"
  using rehash_times_done [OF assms] rehash_ms_spec [OF assms(1), of clock ms 1 0]
  by (auto simp: dictRehashMilliseconds_def keeps_def)

theorem dictRehash_completes_witness:
  "dictIsRehashing ex_dict \<and>
   (\<exists>d'. rehash_times 5 1 ex_dict = Some d' \<and> \<not> dictIsRehashing d' \<and> mset (dict_entries d') = mset (dict_entries ex_dict)) \<and>
   (\<exists>d' r. dictRehashMilliseconds (\<lambda>i. 0) ex_dict 1 = Some (d', r) \<and> \<not> dictIsRehashing d')"
  using dictRehash_completes [OF ex_dict_facts(1), of 1 "\<lambda>i. 0" 1] ex_dict_facts(2) unfolding ex_dict_facts(3) by auto

text \<open>C15. \<open>dictEmpty\<close> runs the key destructor and the value destructor of every entry exactly once, in
  both tables, and leaves the dictionary as \<open>dictCreate\<close> makes it; \<open>dictRelease\<close> frees
  the same entries.\<close>
theorem dictEmpty_frees_once:
  assumes "dict_inv (dbDictType seed) valid d" "d_log d = []"
  shows "\<exists>d' log. dictEmpty cb d = Some d' \<and> d'\<lparr>d_log := []\<rparr> = dictCreate (dbDictType seed) \<and>
    {#ev \<in># mset (d_log d'). ev \<noteq> Callback#} =
      image_mset (\<lambda>e. FreeKey (de_key e)) (mset (dict_entries d)) + image_mset (\<lambda>e. FreeVal (de_val e)) (mset (dict_entries d)) \<and>
    dictRelease d = Some log \<and> mset log = {#ev \<in># mset (d_log d'). ev \<noteq> Callback#}"
proof -
  let ?ty = "dbDictType seed :: (string, 'a) dictType"
  let ?F = "concat (map (free_entry ?ty) (dict_entries d))"
  have nc: "{#ev \<in># mset l. ev \<noteq> Callback#} = mset (no_callback l)" for l :: "(string, 'a) dict_event list"
    by (simp add: no_callback_def)
  have F: "mset (concat (map (free_entry ?ty) es)) =
    image_mset (\<lambda>e. FreeKey (de_key e)) (mset es) + image_mset (\<lambda>e. FreeVal (de_val e)) (mset es)" for es
    by (induction es) (simp_all add: free_entry_def dictFreeKey_def dictFreeVal_def)
  obtain ev where ev: "dictEmpty cb d = Some ((dictCreate ?ty)\<lparr>d_log := d_log d @ ev\<rparr>)" "no_callback ev = ?F"
    using dictEmpty_spec [OF assms(1)] by blast
  obtain ev' where ev': "no_callback ev' = ?F" "ev' = no_callback ev'" "dictRelease d = Some (d_log d @ ev')"
    using dictEmpty_spec [OF assms(1), of False] by blast
  have "(dictCreate ?ty)\<lparr>d_log := []\<rparr> = dictCreate ?ty" by (simp add: dictCreate_def)
  moreover have "mset ev' = mset (no_callback ev)" using ev'(1,2) ev(2) by simp
  ultimately show ?thesis using ev(1) ev'(3) assms(2) F ev(2) unfolding nc by simp
qed

lemma ex_dict_log: "d_log ex_dict = []" "dict_entries ex_dict = [\<lparr>de_key = ''key'', de_val = Some 7\<rparr>]"
  by (simp_all add: ex_dict_eq dict_entries_def ht_entries_def)

theorem dictEmpty_frees_once_witness:
  "\<exists>d' log. dictEmpty True ex_dict = Some d' \<and> d'\<lparr>d_log := []\<rparr> = dictCreate (dbDictType 5381) \<and>
    {#ev \<in># mset (d_log d'). ev \<noteq> Callback#} = {#FreeKey ''key'', FreeVal (Some 7)#} \<and>
    dictRelease ex_dict = Some log \<and> mset log = {#FreeKey ''key'', FreeVal (Some 7)#}"
  using dictEmpty_frees_once [OF ex_dict_facts(1) ex_dict_log(1), of True] unfolding ex_dict_log(2) by auto

text \<open>The table of \<open>2^32\<close> buckets.\<close>

lemma expand_huge:
  "dictExpand (dictCreate ty) (2 ^ 32) = ((dictCreate ty)\<lparr>d_ht0 := \<lparr>ht_table = Some (replicate (2 ^ 32) []),
     ht_size = 2 ^ 32, ht_sizemask = 2 ^ 32 - 1, ht_used = 0\<rparr>\<rparr>, True)"
proof -
  obtain k where k: "nextPower_loop (2 ^ 2) (2 ^ 32) = 2 ^ k" "2 \<le> k" "(2::nat) ^ 32 \<le> 2 ^ k" "k = 2 \<or> (2::nat) ^ (k - 1) < 2 ^ 32"
    using nextPower_loop_spec [of 2 "2 ^ 32"] by blast
  have "32 \<le> k" using k(3) by (meson le_less_linear not_less power_strict_increasing_iff one_less_numeral_iff semiring_norm(76))
  moreover have "k - 1 < 32" using k(4) \<open>32 \<le> k\<close> power_strict_increasing_iff [of "2::nat" "k - 1" 32] by linarith
  ultimately have "k = 32" by simp
  then have n: "dictNextPower (2 ^ 32) = 2 ^ 32" using k(1) by (simp add: dictNextPower_def LONG_MAX_def DICT_HT_INITIAL_SIZE_def)
  have "alloc_cells (2 ^ 32) = 2 ^ 32" by (simp add: alloc_cells_def)
  then show ?thesis unfolding dictExpand_def n
    by (simp add: dictIsRehashing_def dictCreate_def) (simp add: dictReset_def dictCreate_def)
qed

lemma to_int32_high:
  assumes "2 ^ 31 \<le> x" "x < 2 ^ 32"
  shows "to_int32 x = x - 2 ^ 32"
proof -
  have "(x + 2 ^ 31) mod 2 ^ 32 = ((x - 2 ^ 31) + 2 ^ 32) mod 2 ^ 32" by (simp add: add.commute)
  also have "\<dots> = x - 2 ^ 31" unfolding mod_add_self2 using assms by (intro mod_pos_pos_trivial) simp_all
  finally show ?thesis by (simp add: to_int32_def signed_take_bit_eq_take_bit_shift take_bit_eq_mod)
qed

text \<open>C37. \<open>_dictKeyIndex\<close> returns its index as an \<open>int\<close>, which is too narrow for a table of
  \<open>2^32\<close> buckets: a key whose hash is \<open>0xFFFFFFFF\<close> is refused as if it were already present, and
  for any other hash from \<open>2^31\<close> up the table is indexed with a negative number.\<close>
theorem dictAdd_huge_table:
  assumes "2 ^ 31 \<le> unat (hashFunction ty key)"
  shows "(let d = fst (dictExpand (dictCreate ty) (2 ^ 32))
          in dictAdd can_resize d key v = (if hashFunction ty key = 0xFFFFFFFF then Some (d, False) else None))"
proof -
  let ?h = "unat (hashFunction ty key)"
  let ?t = "\<lparr>ht_table = Some (replicate (2 ^ 32) []), ht_size = 2 ^ 32, ht_sizemask = 2 ^ 32 - 1, ht_used = 0\<rparr> :: ('a, 'b) dictht"
  let ?d = "(dictCreate ty)\<lparr>d_ht0 := ?t\<rparr>"
  have h: "?h < 2 ^ 32" by (rule order.strict_trans2 [OF unsigned_less]) simp
  have "?h AND (2 ^ 32 - 1) = take_bit 32 ?h" by (simp only: take_bit_eq_mask mask_eq_exp_minus_1)
  then have i: "ht_index ?t (hashFunction ty key) = ?h" using h by (simp only: ht_index_def take_bit_nat_eq_self dictht.simps)
  have s: "search_tables ?d key = Some None"
    using h by (simp add: search_tables_def i [simplified] ht_get_def cell_get_def dictIsRehashing_def dictCreate_def)
  have "to_int32 (int ?h) = int ?h - 2 ^ 32" using h assms to_int32_high [of "int ?h"] by (metis of_nat_le_iff of_nat_less_iff of_nat_numeral of_nat_power)
  then have ki: "dictKeyIndex can_resize ?d key = Some (?d, int ?h - 2 ^ 32)"
    using assms h s i by (simp add: dictKeyIndex_def dictExpandIfNeeded_def dictIsRehashing_def dictCreate_def ht_of_def)
  define D where "D = ?d"
  have D: "rehash_if_needed D = Some D" by (simp add: D_def rehash_if_needed_def dictIsRehashing_def dictCreate_def)
  have "dictAddRaw can_resize D key = (if n = 2 ^ 32 - 1 then Some (D, None) else None)"
    if "dictKeyIndex can_resize D key = Some (D, int n - 2 ^ 32)" "n < 2 ^ 32" for n
    using that by (auto simp: dictAddRaw_def D)
  from this [of ?h] have raw: "dictAddRaw can_resize D key = (if ?h = 2 ^ 32 - 1 then Some (D, None) else None)"
    using ki h unfolding D_def [symmetric] by blast
  have "unat (0xFFFFFFFF :: u32) = 2 ^ 32 - 1" by simp
  then have "?h = 2 ^ 32 - 1 \<longleftrightarrow> hashFunction ty key = 0xFFFFFFFF" by (metis unsigned_word_eqI)
  then show ?thesis unfolding expand_huge fst_conv Let_def D_def [symmetric] by (simp only: dictAdd_def raw) simp
qed

theorem dictAdd_huge_table_witness:
  "2 ^ 31 \<le> unat (hashFunction (dbDictType 5381 :: (string, nat) dictType) ''key'') \<and>
   dictAdd True (fst (dictExpand (dictCreate (dbDictType 5381)) (2 ^ 32))) ''key'' (7::nat) = None"
proof -
  have h: "hashFunction (dbDictType 5381 :: (string, nat) dictType) ''key'' = 3304087095"
    by (simp add: dbDictType_def dictSdsHash_def key_hash)
  then have "2 ^ 31 \<le> unat (hashFunction (dbDictType 5381 :: (string, nat) dictType) ''key'')" by simp
  from this dictAdd_huge_table [OF this, of True 7] show ?thesis unfolding Let_def h by simp
qed

end
