(* ===== verification/DictScan.thy ===== *)
theory DictScan
  imports DictTypes
begin

text \<open>
  The stateless scan of \<open>dict.c\<close>: the cursor counts with its bits reversed, so that a bucket of a
  smaller table stands for a block of buckets of every larger one. A scan is complete as long as the
  table being scanned does not shrink.
\<close>

section \<open>The scan\<close>

function rev_loop :: "nat \<Rightarrow> u64 \<Rightarrow> u64 \<Rightarrow> u64" where
  "rev_loop s m v =
     (let s = s div 2
      in if s = 0 then v
         else
           (let m = m XOR push_bit s m;
                v = (drop_bit s v AND m) OR (push_bit s v AND NOT m)
            in rev_loop s m v))"
  by pat_completeness auto
termination
  by (relation "measure (\<lambda>(s, m, v). s)") auto

declare rev_loop.simps [simp del]

definition rev_bits :: "u64 \<Rightarrow> u64" where
  "rev_bits v = rev_loop 64 (NOT 0) v"

text \<open>The entries the callback is called on and the new cursor.\<close>

partial_function (option) scan_expand ::
  "('k, 'v) dictht \<Rightarrow> u64 \<Rightarrow> u64 \<Rightarrow> u64 \<Rightarrow> (('k, 'v) dictEntry list \<times> u64) option" where
  "scan_expand t1 m0 m1 v =
     do {
       es \<leftarrow> ht_get t1 (unat (v AND m1));
       (let v = (((v OR m0) + 1) AND NOT m0) OR (v AND m0)
        in if v AND (m0 XOR m1) \<noteq> 0
           then do { (es', v') \<leftarrow> scan_expand t1 m0 m1 v; Some (es @ es', v') }
           else Some (es, v))
     }"

definition scan_next :: "u64 \<Rightarrow> u64 \<Rightarrow> u64" where
  "scan_next m0 v = rev_bits (rev_bits (v OR NOT m0) + 1)"

definition dictScan :: "('k, 'v) dict \<Rightarrow> u64 \<Rightarrow> (u64 \<times> ('k, 'v) dictEntry list) option" where
  "dictScan d v =
     (if dictSize d = 0 then Some (0, [])
      else if \<not> dictIsRehashing d then
        (let t0 = d_ht0 d; m0 = of_nat (ht_sizemask t0)
         in do {
           es \<leftarrow> ht_get t0 (unat (v AND m0));
           Some (scan_next m0 v, es)
         })
      else
        (let (t0, t1) = (if ht_size (d_ht0 d) > ht_size (d_ht1 d) then (d_ht1 d, d_ht0 d) else (d_ht0 d, d_ht1 d));
             m0 = of_nat (ht_sizemask t0); m1 = of_nat (ht_sizemask t1)
         in do {
           es \<leftarrow> ht_get t0 (unat (v AND m0));
           (es', v') \<leftarrow> scan_expand t1 m0 m1 v;
           Some (scan_next m0 v', es @ es')
         }))"

section \<open>Reversing bits\<close>

definition rev_stage :: "nat \<Rightarrow> u64 \<Rightarrow> u64 \<Rightarrow> u64" where
  "rev_stage s m v = (drop_bit s v AND m) OR (push_bit s v AND NOT m)"

definition flip :: "nat \<Rightarrow> nat \<Rightarrow> nat" where
  "flip s j = (if even (j div s) then j + s else j - s)"

lemma bit_rev_stage:
  assumes "\<forall>j < 64. bit m j \<longleftrightarrow> even (j div s)" "j < 64" "0 < s"
  shows "bit (rev_stage s m v) j \<longleftrightarrow> bit v (flip s j)"
proof (cases "even (j div s)")
  case True
  then show ?thesis using assms by (simp add: rev_stage_def flip_def bit_simps add.commute)
next
  case False
  then have "s \<le> j" by (metis assms(3) div_less even_zero not_le)
  then show ?thesis using assms False by (simp add: rev_stage_def flip_def bit_simps)
qed

text \<open>At stage \<open>s\<close> the mask has the bits whose index has an even quotient by \<open>s\<close>.\<close>

definition stage_mask :: "nat \<Rightarrow> u64 \<Rightarrow> bool" where
  "stage_mask s m \<longleftrightarrow> (\<forall>j < 64. bit m j \<longleftrightarrow> even (j div s))"

lemma stage_mask_half:
  assumes "stage_mask (2 * s) m" "0 < s"
  shows "stage_mask s (m XOR push_bit s m)"
  unfolding stage_mask_def
proof (intro allI impI)
  fix j :: nat assume j: "j < 64"
  have h: "j div (2 * s) = j div s div 2" "(j - s) div (2 * s) = (j div s - 1) div 2" if "s \<le> j"
    using le_div_geq [OF assms(2) that] unfolding mult.commute [of 2] div_mult2_eq by simp_all
  have q: "even (q div 2) \<noteq> even ((q - 1) div 2) \<longleftrightarrow> even q" if "1 \<le> q" for q :: nat using that by presburger
  show "bit (m XOR push_bit s m) j \<longleftrightarrow> even (j div s)"
  proof (cases "s \<le> j")
    case True
    then have "1 \<le> j div s" using assms(2) by (simp add: div_greater_zero_iff Suc_leI)
    then show ?thesis using q [of "j div s"] h [OF True] assms(1) j True by (simp add: stage_mask_def bit_simps)
  next
    case False
    then show ?thesis using assms(1) j by (simp add: stage_mask_def bit_simps)
  qed
qed

primrec rev_index :: "nat \<Rightarrow> nat \<Rightarrow> nat" where
  "rev_index 0 j = j"
| "rev_index (Suc i) j = flip (2 ^ i) (rev_index i j)"

lemma bit_rev_loop:
  assumes "stage_mask (2 ^ i) m" "\<forall>i' \<le> i. rev_index i' j < 64"
  shows "bit (rev_loop (2 ^ i) m v) j \<longleftrightarrow> bit v (rev_index i j)"
  using assms
proof (induction i arbitrary: m v)
  case 0
  then show ?case by (subst rev_loop.simps) simp
next
  case (Suc i)
  let ?m = "m XOR push_bit (2 ^ i) m"
  have m: "stage_mask (2 ^ i) ?m" using Suc.prems(1) by (intro stage_mask_half) simp_all
  have "rev_loop (2 ^ Suc i) m v = rev_loop (2 ^ i) ?m (rev_stage (2 ^ i) ?m v)"
    by (subst rev_loop.simps) (simp add: Let_def rev_stage_def)
  then show ?case using Suc.IH [OF m] Suc.prems(2) bit_rev_stage [OF m [unfolded stage_mask_def], of "rev_index i j"] by simp
qed

lemma flip_less:
  assumes "j < 64" "i < 6"
  shows "flip (2 ^ i) j < 64"
proof (cases "even (j div 2 ^ i)")
  case True
  have p: "(2::nat) ^ i * 2 ^ (6 - i) = 64" using assms(2) by (simp add: power_add [symmetric])
  have "even ((2::nat) ^ (6 - i))" using assms(2) by simp
  moreover have "j div 2 ^ i < 2 ^ (6 - i)" using assms(1) p by (metis less_mult_imp_div_less mult.commute)
  ultimately have "j div 2 ^ i + 1 < 2 ^ (6 - i)" using True by (metis Suc_eq_plus1 Suc_lessI even_Suc)
  then have "(j + 2 ^ i) div 2 ^ i < 2 ^ (6 - i)" by (simp add: div_add_self2)
  then have "j + 2 ^ i < 2 ^ (6 - i) * 2 ^ i" by (simp only: div_less_iff_less_mult zero_less_power zero_less_numeral)
  then show ?thesis using True p by (simp add: flip_def mult.commute)
qed (use assms in \<open>simp add: flip_def\<close>)

lemma rev_index_less: "j < 64 \<Longrightarrow> i \<le> 6 \<Longrightarrow> rev_index i j < 64"
  by (induction i) (simp_all add: flip_less)

lemma rev_index_6: "j < 64 \<Longrightarrow> rev_index 6 j = 63 - j"
proof -
  have "list_all (\<lambda>j. flip 32 (flip 16 (flip 8 (flip 4 (flip 2 (flip 1 j))))) = 63 - j) [0..<64]"
    by (simp add: upt_conv_Cons del: One_nat_def, simp add: flip_def)
  moreover have "rev_index 6 j = flip 32 (flip 16 (flip 8 (flip 4 (flip 2 (flip 1 j)))))" for j
    by (simp add: numeral_eq_Suc)
  moreover assume "j < 64"
  ultimately show ?thesis by (simp add: list_all_iff)
qed

lemma bit_rev_bits: "j < 64 \<Longrightarrow> bit (rev_bits v) j \<longleftrightarrow> bit v (63 - j)"
  using bit_rev_loop [of 6 "NOT 0" j v] rev_index_6 [of j] rev_index_less [of j] by (simp add: rev_bits_def stage_mask_def)

lemma rev_bits_rev_bits [simp]: "rev_bits (rev_bits v) = v"
  by (rule bit_word_eqI) (simp add: bit_rev_bits)

section \<open>Positions of cursors and hashes\<close>

text \<open>The position of a cursor is its value with the bits reversed: the scan visits positions upwards.\<close>

definition pos :: "u64 \<Rightarrow> nat" where
  "pos v = unat (rev_bits v)"

lemma pos_less: "pos v < 2 ^ 64"
  unfolding pos_def by (rule order.strict_trans2 [OF unsigned_less]) simp

lemma pos_inj: "pos v = pos w \<longleftrightarrow> v = w"
  unfolding pos_def by (metis rev_bits_rev_bits unsigned_word_eqI)

lemma rev_bits_0 [simp]: "rev_bits 0 = 0"
  by (rule bit_word_eqI) (simp add: bit_rev_bits)

lemma pos_0 [simp]: "pos v = 0 \<longleftrightarrow> v = 0"
  using pos_inj [of v 0] by (simp add: pos_def)

lemma bit_drop_rev_bits:
  assumes "k \<le> 64"
  shows "bit (drop_bit (64 - k) (rev_bits x)) m \<longleftrightarrow> m < k \<and> bit x (k - 1 - m)"
proof (cases "m < k")
  case True
  then have "64 - k + m < 64" "63 - (64 - k + m) = k - 1 - m" using assms by linarith+
  then show ?thesis using True by (simp only: bit_drop_bit_eq comp_apply bit_rev_bits) simp
next
  case False
  then have "64 \<le> 64 - k + m" using assms by linarith
  then have "\<not> bit (rev_bits x) (64 - k + m)" using bit_imp_le_length [of "rev_bits x" "64 - k + m"] by auto
  then show ?thesis using False by (simp add: bit_drop_bit_eq)
qed

lemma drop_rev_bits:
  assumes "k \<le> 64"
  shows "drop_bit (64 - k) (rev_bits v) = drop_bit (64 - k) (rev_bits w) \<longleftrightarrow> take_bit k v = take_bit k w"
proof -
  have "take_bit k v = take_bit k w \<longleftrightarrow> (\<forall>n < k. bit v n = bit w n)"
    using assms by (simp add: bit_eq_iff bit_take_bit_iff) (meson less_le_trans)
  also have "\<dots> \<longleftrightarrow> (\<forall>m < k. bit v (k - 1 - m) = bit w (k - 1 - m))"
  proof (rule iffI; intro allI impI)
    fix n assume "\<forall>m < k. bit v (k - 1 - m) = bit w (k - 1 - m)" "n < k"
    moreover have "k - 1 - n < k" "k - 1 - (k - 1 - n) = n" using \<open>n < k\<close> by simp_all
    ultimately show "bit v n = bit w n" by metis
  qed simp
  also have "\<dots> \<longleftrightarrow> drop_bit (64 - k) (rev_bits v) = drop_bit (64 - k) (rev_bits w)"
    unfolding bit_eq_iff bit_drop_rev_bits [OF assms] using assms by (simp add: possible_bit_def) (meson less_le_trans)
  finally show ?thesis by simp
qed

lemma unat_eq: "unat v = unat w \<longleftrightarrow> v = w"
  by (simp add: word_eq_iff_unsigned [where ?'a = nat])

lemma pos_block:
  assumes "k \<le> 64"
  shows "pos v div 2 ^ (64 - k) = pos w div 2 ^ (64 - k) \<longleftrightarrow> unat v mod 2 ^ k = unat w mod 2 ^ k"
proof -
  have d: "pos x div 2 ^ (64 - k) = unat (drop_bit (64 - k) (rev_bits x))" for x
    by (simp only: pos_def drop_bit_eq_div [symmetric] unat_drop_bit_eq)
  have t: "unat x mod 2 ^ k = unat (take_bit k x)" for x :: u64
    by (simp only: take_bit_eq_mod [symmetric] unsigned_take_bit_eq)
  show ?thesis unfolding d t unat_eq by (rule drop_rev_bits [OF assms])
qed

lemma or_mask_nat: "a OR mask n = a div 2 ^ n * 2 ^ n + (2 ^ n - 1)" for a :: nat
proof -
  have "push_bit n (drop_bit n a) + mask n = push_bit n (drop_bit n a) OR mask n"
    by (rule disjunctive_add) (auto simp: bit_simps)
  also have "\<dots> = a OR mask n" by (rule bit_eqI) (auto simp: bit_simps)
  finally show ?thesis by (simp add: push_bit_eq_mult drop_bit_eq_div mask_eq_exp_minus_1)
qed

lemma rev_or_mask: "k \<le> 64 \<Longrightarrow> rev_bits (v OR NOT (mask k)) = rev_bits v OR mask (64 - k)"
  by (rule bit_word_eqI) (auto simp: bit_rev_bits bit_simps)

lemma pos_scan_next:
  assumes "k \<le> 64"
  shows "pos (scan_next (mask k) v) = (pos v div 2 ^ (64 - k) + 1) * 2 ^ (64 - k) mod 2 ^ 64"
proof -
  let ?x = "rev_bits v OR mask (64 - k)"
  have "unat (mask (64 - k) :: u64) = mask (64 - k)" by (rule bit_eqI) (auto simp: bit_simps)
  then have "unat ?x = pos v div 2 ^ (64 - k) * 2 ^ (64 - k) + (2 ^ (64 - k) - 1)"
    by (simp only: unsigned_or_eq or_mask_nat pos_def)
  then have "unat ?x + 1 = (pos v div 2 ^ (64 - k) + 1) * 2 ^ (64 - k)" by simp
  moreover have "pos (scan_next (mask k) v) = unat (?x + 1)" by (simp add: pos_def scan_next_def rev_or_mask [OF assms])
  moreover have "unat (?x + 1) = (unat ?x + 1) mod 2 ^ 64"
    by (simp add: unat_word_ariths)
  ultimately show ?thesis by simp
qed

lemma scan_next_cong: "unat v mod 2 ^ k = unat w mod 2 ^ k \<Longrightarrow> k \<le> 64 \<Longrightarrow> scan_next (mask k) v = scan_next (mask k) w"
  using pos_block [of k v w] pos_scan_next [of k v] pos_scan_next [of k w] pos_inj by metis

lemma pos_aligned:
  assumes "k \<le> 64" "2 ^ (64 - k) dvd pos v"
  shows "unat v < 2 ^ k"
proof -
  have "take_bit (64 - k) (rev_bits v) = 0"
    using assms(2) by (simp add: word_eq_iff_unsigned [where ?'a = nat] unsigned_take_bit_eq pos_def take_bit_eq_0_iff)
  then have z: "\<not> bit (rev_bits v) n" if "n < 64 - k" for n using that by (metis bit_take_bit_iff bit_0_eq bot_apply bot_bool_def)
  have "take_bit k v = v"
  proof (rule bit_word_eqI)
    fix n assume n: "n < LENGTH(64)"
    then have "\<not> bit v n" if "k \<le> n" using z [of "63 - n"] bit_rev_bits [of "63 - n" v] that assms(1) by simp
    then show "bit (take_bit k v) n = bit v n" by (cases "k \<le> n") (simp_all add: bit_simps)
  qed
  then have "take_bit k (unat v) = unat v" by (metis unsigned_take_bit_eq)
  then show ?thesis by (metis take_bit_nat_less_exp)
qed

section \<open>Expansions in the larger table\<close>

text \<open>The cursor of the inner loop advances by the size of the smaller table.\<close>

lemma expand_step: "(((v OR mask k) + 1) AND NOT (mask k)) OR (v AND mask k) = v + 2 ^ k" for v :: u64
proof -
  let ?h = "push_bit k (drop_bit k v)"
  have h: "v AND NOT (mask k) = ?h" by (rule bit_eqI) (auto simp: bit_simps)
  have "?h + mask k = ?h OR mask k" by (rule disjunctive_add) (auto simp: bit_simps)
  moreover have "?h OR mask k = v OR mask k" by (rule bit_eqI) (auto simp: bit_simps)
  moreover have "mask k + 1 = (2 ^ k :: u64)" by (simp add: mask_eq_exp_minus_1)
  ultimately have "(v OR mask k) + 1 = ?h + 2 ^ k" by (metis add.assoc)
  also have "\<dots> = push_bit k (drop_bit k v + 1)" by (simp add: push_bit_add)
  finally have a: "((v OR mask k) + 1) AND NOT (mask k) = push_bit k (drop_bit k v + 1)"
    by (simp only:) (rule bit_eqI, auto simp: bit_simps)
  have "push_bit k (drop_bit k v + 1) OR (v AND mask k) = push_bit k (drop_bit k v + 1) + (v AND mask k)"
    by (rule disjunctive_add [symmetric]) (auto simp: bit_simps)
  also have "\<dots> = ?h + (v AND mask k) + 2 ^ k" by (simp add: push_bit_add)
  also have "?h + (v AND mask k) = ?h OR (v AND mask k)" by (rule disjunctive_add) (auto simp: bit_simps)
  also have "?h OR (v AND mask k) = v" by (rule bit_eqI) (auto simp: bit_simps)
  finally show ?thesis unfolding a .
qed

lemma unat_add_pow:
  assumes "k \<le> n" "n \<le> 60"
  shows "unat (v + 2 ^ k :: u64) mod 2 ^ n = (unat v mod 2 ^ n + 2 ^ k) mod 2 ^ n"
proof -
  have "(2::nat) ^ k < 2 ^ 64" using assms by (intro power_strict_increasing) simp_all
  then have "unat (of_nat (2 ^ k) :: u64) = 2 ^ k" by (simp only: unat_of_nat) (simp add: take_bit_nat_eq_self)
  then have "unat (2 ^ k :: u64) = 2 ^ k" by simp
  then have "unat (v + 2 ^ k) = (unat v + 2 ^ k) mod 2 ^ 64" by (simp add: unat_word_ariths)
  moreover have "(2::nat) ^ n dvd 2 ^ 64" using assms(2) by (intro le_imp_power_dvd) simp
  ultimately show ?thesis by (simp add: mod_mod_cancel mod_add_left_eq)
qed

lemma expand_cond:
  assumes "k \<le> n" "n \<le> 60"
  shows "v AND (mask k XOR mask n) \<noteq> 0 \<longleftrightarrow> 2 ^ k \<le> unat (v :: u64) mod 2 ^ n"
proof -
  let ?t = "take_bit n v"
  have "v AND (mask k XOR mask n) = ?t AND NOT (mask k)"
    using assms by (intro bit_word_eqI) (auto simp: bit_simps)
  also have "\<dots> = 0 \<longleftrightarrow> take_bit k ?t = ?t"
    unfolding bit_eq_iff [of _ 0] bit_eq_iff [of _ ?t] by (auto simp: bit_simps)
  also have "\<dots> \<longleftrightarrow> take_bit k (unat ?t) = unat ?t"
    by (simp only: unsigned_take_bit_eq [symmetric] unat_eq)
  also have "\<dots> \<longleftrightarrow> unat v mod 2 ^ n < 2 ^ k"
    by (simp only: take_bit_nat_eq_self_iff unsigned_take_bit_eq) (simp add: take_bit_eq_mod)
  finally show ?thesis by (simp add: not_less)
qed

lemma sizemask_word: "k \<le> 60 \<Longrightarrow> (of_nat (2 ^ k - 1) :: u64) = mask k"
  by (simp add: of_nat_diff mask_eq_exp_minus_1)

lemma unat_and_mask: "unat (v AND mask k) = unat (v :: u64) mod 2 ^ k"
  unfolding take_bit_eq_mask [symmetric] unsigned_take_bit_eq by (rule take_bit_eq_mod)

lemma bucket_at:
  assumes "ht_shape ty k b t"
  shows "ht_get t (unat (v AND mask k)) = Some (b ! (unat (v :: u64) mod 2 ^ k))"
  unfolding unat_and_mask by (rule ht_shape_get [OF assms]) simp

lemma scan_expand_spec:
  fixes v :: u64
  assumes "ht_shape ty n b t" "k \<le> n" "n \<le> 60"
  shows "\<exists>es v'. scan_expand t (mask k) (mask n) v = Some (es, v') \<and> unat v' mod 2 ^ k = unat v mod 2 ^ k \<and>
    set es \<subseteq> set (ht_entries t) \<and>
    (\<forall>i < 2 ^ n. i mod 2 ^ k = unat v mod 2 ^ k \<and> unat v mod 2 ^ n \<le> i \<longrightarrow> set (b ! i) \<subseteq> set es)"
proof (induction "2 ^ n - unat v mod 2 ^ n" arbitrary: v rule: less_induct)
  case less
  let ?u = "unat v mod 2 ^ n" and ?v = "v + 2 ^ k"
  have u: "?u < 2 ^ n" by simp
  have dvd: "(2::nat) ^ k dvd 2 ^ n" using assms(2) by (rule le_imp_power_dvd)
  have low: "unat ?v mod 2 ^ k = unat v mod 2 ^ k"
    using unat_add_pow [of k k v] assms by simp
  have uv: "unat ?v mod 2 ^ n = (?u + 2 ^ k) mod 2 ^ n" by (rule unat_add_pow [OF assms(2,3)])
  have uk: "?u mod 2 ^ k = unat v mod 2 ^ k" using dvd by (simp add: mod_mod_cancel)
  have sub: "set (b ! ?u) \<subseteq> set (ht_entries t)" using ht_shape_sub [OF assms(1) u] by blast
  have next_i: "?u + 2 ^ k \<le> i" if "i mod 2 ^ k = unat v mod 2 ^ k" "?u \<le> i" "i \<noteq> ?u" for i
  proof -
    have "2 ^ k dvd i - ?u" using that(1,2) uk by (simp add: mod_eq_dvd_iff_nat [symmetric])
    then have "2 ^ k \<le> i - ?u" using that(2,3) by (intro dvd_imp_le) simp_all
    then show ?thesis using that(2) by linarith
  qed
  have step: "scan_expand t (mask k) (mask n) v =
    (if 2 ^ k \<le> unat ?v mod 2 ^ n then do { (es', v') \<leftarrow> scan_expand t (mask k) (mask n) ?v; Some (b ! ?u @ es', v') }
     else Some (b ! ?u, ?v))"
    by (subst scan_expand.simps)
       (simp only: bucket_at [OF assms(1)] bind.bind_lunit Option.bind.simps Let_def expand_step expand_cond [OF assms(2,3)])
  show ?case
  proof (cases "?u + 2 ^ k < 2 ^ n")
    case True
    then have uv': "unat ?v mod 2 ^ n = ?u + 2 ^ k" using uv by simp
    then have "2 ^ n - unat ?v mod 2 ^ n < 2 ^ n - ?u"
      using True zero_less_power [of "2::nat" k] unfolding uv' by linarith
    from less.hyps [OF this] obtain es v' where E: "scan_expand t (mask k) (mask n) ?v = Some (es, v')"
      "unat v' mod 2 ^ k = unat ?v mod 2 ^ k" "set es \<subseteq> set (ht_entries t)"
      "\<forall>i < 2 ^ n. i mod 2 ^ k = unat ?v mod 2 ^ k \<and> unat ?v mod 2 ^ n \<le> i \<longrightarrow> set (b ! i) \<subseteq> set es" by blast
    have "set (b ! i) \<subseteq> set (b ! ?u @ es)" if "i < 2 ^ n" "i mod 2 ^ k = unat v mod 2 ^ k" "?u \<le> i" for i
      using E(4) next_i [OF that(2,3)] that low uv' by (cases "i = ?u") auto
    then show ?thesis using E(1-3) step uv' low sub by auto
  next
    case False
    have "(2::nat) ^ k \<le> 2 ^ n" using assms(2) by simp
    then have "?u + 2 ^ k - 2 ^ n < 2 ^ n" using u by linarith
    then have "unat ?v mod 2 ^ n = ?u + 2 ^ k - 2 ^ n" using uv False
      by (simp add: le_mod_geq)
    then have "unat ?v mod 2 ^ n < 2 ^ k" using u False by linarith
    moreover have "set (b ! i) \<subseteq> set (b ! ?u)" if "i < 2 ^ n" "i mod 2 ^ k = unat v mod 2 ^ k" "?u \<le> i" for i
      using next_i [OF that(2,3)] that False by (cases "i = ?u") auto
    ultimately show ?thesis using step low sub by auto
  qed
qed

section \<open>One call of the scan\<close>

text \<open>The hash of a key as a cursor, the size of the table that drives the scan, and cursors that do not
  reach into the part of the larger table above the smaller one.\<close>

definition key_cursor :: "('k, 'v) dictType \<Rightarrow> ('k, 'v) dictEntry \<Rightarrow> u64" where
  "key_cursor ty e = ucast (hashFunction ty (de_key e))"

definition scan_size :: "('k, 'v) dict \<Rightarrow> nat" where
  "scan_size d = (if dictIsRehashing d then min (ht_size (d_ht0 d)) (ht_size (d_ht1 d)) else ht_size (d_ht0 d))"

lemma unat_key_cursor: "unat (key_cursor ty e) = unat (hashFunction ty (de_key e))"
  by (simp add: key_cursor_def unsigned_ucast_eq take_bit_nat_eq_self order.strict_trans2 [OF unsigned_less])

lemma bucket_of_entry:
  assumes "ht_shape ty k b t" "e \<in> set (ht_entries t)"
  shows "e \<in> set (b ! (unat (key_cursor ty e) mod 2 ^ k))"
  using ht_shape_bucket [OF assms] by (simp add: hash_bits_def unat_key_cursor take_bit_eq_mod)

lemma bucket_sub:
  assumes "ht_shape ty k b t"
  shows "set (b ! (i mod 2 ^ k)) \<subseteq> set (ht_entries t)"
proof -
  have "i mod 2 ^ k < 2 ^ k" by simp
  then show ?thesis using ht_shape_sub [OF assms] by blast
qed

lemma scan_two_tables:
  fixes v :: u64
  assumes "ht_shape ty k b0 t0" "ht_shape ty n b1 t1" "k \<le> n"
  shows "\<exists>es es' v'. ht_get t0 (unat (v AND of_nat (ht_sizemask t0))) = Some es \<and>
    scan_expand t1 (of_nat (ht_sizemask t0)) (of_nat (ht_sizemask t1)) v = Some (es', v') \<and>
    scan_next (of_nat (ht_sizemask t0)) v' = scan_next (mask k) v \<and>
    set (es @ es') \<subseteq> set (ht_entries t0) \<union> set (ht_entries t1) \<and>
    (unat v < 2 ^ k \<longrightarrow> (\<forall>e \<in> set (ht_entries t0) \<union> set (ht_entries t1).
       unat (key_cursor ty e) mod 2 ^ k = unat v mod 2 ^ k \<longrightarrow> e \<in> set (es @ es')))"
proof -
  note S0 = ht_shapeD [OF assms(1)] and S1 = ht_shapeD [OF assms(2)]
  have m0: "of_nat (ht_sizemask t0) = (mask k :: u64)" unfolding S0(3) by (rule sizemask_word [OF S0(8)])
  have m1: "of_nat (ht_sizemask t1) = (mask n :: u64)" unfolding S1(3) by (rule sizemask_word [OF S1(8)])
  have dvd: "(2::nat) ^ k dvd 2 ^ n" using assms(3) by (rule le_imp_power_dvd)
  obtain es' v' where E: "scan_expand t1 (mask k) (mask n) v = Some (es', v')" "unat v' mod 2 ^ k = unat v mod 2 ^ k"
    "set es' \<subseteq> set (ht_entries t1)"
    "\<forall>i < 2 ^ n. i mod 2 ^ k = unat v mod 2 ^ k \<and> unat v mod 2 ^ n \<le> i \<longrightarrow> set (b1 ! i) \<subseteq> set es'"
    using scan_expand_spec [OF assms(2,3) S1(8)] by blast
  let ?es = "b0 ! (unat v mod 2 ^ k)"
  have sub: "set ?es \<subseteq> set (ht_entries t0)" by (rule bucket_sub [OF assms(1)])
  have "e \<in> set (?es @ es')" if v: "unat v < 2 ^ k" and e: "e \<in> set (ht_entries t0) \<union> set (ht_entries t1)"
    and eq: "unat (key_cursor ty e) mod 2 ^ k = unat v mod 2 ^ k" for e
  proof (cases "e \<in> set (ht_entries t0)")
    case True
    then show ?thesis using bucket_of_entry [OF assms(1) True] eq by simp
  next
    case False
    let ?i = "unat (key_cursor ty e) mod 2 ^ n"
    have i: "?i mod 2 ^ k = unat v mod 2 ^ k" using eq dvd by (simp add: mod_mod_cancel)
    have "unat v mod 2 ^ n = unat v" using v dvd by (metis dvd_imp_le less_le_trans mod_less zero_less_numeral zero_less_power)
    moreover have "unat v \<le> ?i" using i v by (metis mod_less mod_less_eq_dividend)
    ultimately have "set (b1 ! ?i) \<subseteq> set es'" using E(4) i by simp
    then show ?thesis using bucket_of_entry [OF assms(2)] e False by auto
  qed
  then show ?thesis unfolding m0 m1 bucket_at [OF assms(1)]
    using E(1,3) sub scan_next_cong [OF E(2)] S0(8) by (intro exI [of _ ?es] exI [of _ es'] exI [of _ v']) auto
qed

lemma dictScan_spec:
  assumes inv: "dict_inv ty valid d"
  shows "\<exists>v' es. dictScan d v = Some (v', es) \<and> set es \<subseteq> set (dict_entries d) \<and>
    (if dict_entries d = [] then v' = 0
     else \<exists>k \<le> 60. scan_size d = 2 ^ k \<and> v' = scan_next (mask k) v \<and>
       (unat v < 2 ^ k \<or> \<not> dictIsRehashing d \<longrightarrow> (\<forall>e \<in> set (dict_entries d).
          unat (key_cursor ty e) mod 2 ^ k = unat v mod 2 ^ k \<longrightarrow> e \<in> set es)))"
proof (cases "dict_entries d = []")
  case True
  then show ?thesis using dictSize_entries [OF inv] by (simp add: dictScan_def)
next
  case False
  then have sz: "dictSize d \<noteq> 0" using dictSize_entries [OF inv] by simp
  then have nr: "d_ht0 d \<noteq> dictReset" by (rule nonempty_nonreset [OF inv])
  then obtain k0 b0 where s0: "ht_shape ty k0 b0 (d_ht0 d)" using inv by (auto simp: dict_inv_def ht_wf_def)
  note S0 = ht_shapeD [OF s0]
  show ?thesis
  proof (cases "dictIsRehashing d")
    case nre: False
    have m0: "of_nat (ht_sizemask (d_ht0 d)) = (mask k0 :: u64)" unfolding S0(3) by (rule sizemask_word [OF S0(8)])
    have ent: "dict_entries d = ht_entries (d_ht0 d)"
      using inv nre by (simp add: dict_entries_def dict_inv_def dictIsRehashing_def)
    have "dictScan d v = Some (scan_next (mask k0) v, b0 ! (unat v mod 2 ^ k0))"
      using sz nre by (simp add: dictScan_def m0 bucket_at [OF s0])
    moreover have "set (b0 ! (unat v mod 2 ^ k0)) \<subseteq> set (ht_entries (d_ht0 d))" by (rule bucket_sub [OF s0])
    moreover have "e \<in> set (b0 ! (unat v mod 2 ^ k0))"
      if "e \<in> set (ht_entries (d_ht0 d))" "unat (key_cursor ty e) mod 2 ^ k0 = unat v mod 2 ^ k0" for e
      using bucket_of_entry [OF s0 that(1)] that(2) by simp
    ultimately show ?thesis using False nre S0(2,8) unfolding ent by (auto simp: scan_size_def)
  next
    case True
    then have "d_ht1 d \<noteq> dictReset" using inv by (simp add: dict_inv_def dictIsRehashing_def)
    then obtain k1 b1 where s1: "ht_shape ty k1 b1 (d_ht1 d)" using inv by (auto simp: dict_inv_def ht_wf_def)
    note S1 = ht_shapeD [OF s1]
    show ?thesis
    proof (cases "ht_size (d_ht0 d) > ht_size (d_ht1 d)")
      case big: True
      then have "k1 \<le> k0" unfolding S0(2) S1(2) by simp
      from scan_two_tables [OF s1 s0 this, of v] show ?thesis
        using sz True big False S1(2,8) by (auto simp: dictScan_def scan_size_def dict_entries_def)
    next
      case small: False
      then have "k0 \<le> k1" unfolding S0(2) S1(2) by simp
      from scan_two_tables [OF s0 s1 this, of v] show ?thesis
        using sz True small False S0(2,8) by (auto simp: dictScan_def scan_size_def dict_entries_def)
    qed
  qed
qed

section \<open>Whole scans\<close>

text \<open>A scan by calls at several moments: the state of the dictionary at each call, which may have
  changed in between, and the cursor handed from one call to the next.\<close>

primrec scan_run :: "('k, 'v) dict list \<Rightarrow> u64 \<Rightarrow> (u64 \<times> ('k, 'v) dictEntry list) option" where
  "scan_run [] v = Some (v, [])"
| "scan_run (d # ds) v =
     do {
       (v1, es) \<leftarrow> dictScan d v;
       (v2, es') \<leftarrow> scan_run ds v1;
       Some (v2, es @ es')
     }"

text \<open>One call covers the block of positions of its cursor, and the next cursor is the end of the block.\<close>

lemma scan_block:
  assumes "k \<le> 60"
  defines "B \<equiv> 2 ^ (64 - k)"
  shows "pos v < (pos v div B + 1) * B" "(pos v div B + 1) * B \<le> 2 ^ 64"
    "pos (scan_next (mask k) v) = (if (pos v div B + 1) * B = 2 ^ 64 then 0 else (pos v div B + 1) * B)"
proof -
  have B: "0 < B" "B * 2 ^ k = 2 ^ 64" using assms(1) by (simp_all add: B_def power_add [symmetric])
  show "pos v < (pos v div B + 1) * B" using B(1) by (metis Suc_eq_plus1 dividend_less_div_times mult.commute mult_Suc)
  have "pos v div B < 2 ^ k" using pos_less [of v] B by (metis less_mult_imp_div_less mult.commute)
  then have "(pos v div B + 1) * B \<le> 2 ^ k * B" by (intro mult_le_mono1) simp
  then show le: "(pos v div B + 1) * B \<le> 2 ^ 64" using B(2) by (simp add: mult.commute)
  show "pos (scan_next (mask k) v) = (if (pos v div B + 1) * B = 2 ^ 64 then 0 else (pos v div B + 1) * B)"
    using pos_scan_next [of k v] assms(1) le unfolding B_def by (auto simp: mod_less)
qed

lemma scan_step_covers:
  assumes "dict_inv ty valid d" "dictScan d v = Some (v', es)" "e \<in> set (dict_entries d)" "unat v < scan_size d"
  shows "v' = 0 \<and> (pos (key_cursor ty e) < pos v \<or> e \<in> set es) \<or>
    v' \<noteq> 0 \<and> unat v' < scan_size d \<and>
    (pos (key_cursor ty e) < pos v' \<longrightarrow> pos (key_cursor ty e) < pos v \<or> e \<in> set es)"
proof -
  have ne: "dict_entries d \<noteq> []" using assms(3) by auto
  obtain k where k: "k \<le> 60" "scan_size d = 2 ^ k" "v' = scan_next (mask k) v"
    "unat (key_cursor ty e) mod 2 ^ k = unat v mod 2 ^ k \<longrightarrow> e \<in> set es"
    using dictScan_spec [OF assms(1), of v] assms(2-4) ne by auto
  let ?B = "2 ^ (64 - k) :: nat"
  let ?p = "pos (key_cursor ty e)" and ?E = "(pos v div ?B + 1) * ?B"
  note blk = scan_block [OF k(1), of v]
  have cov: "?p < pos v \<or> e \<in> set es" if "?p < ?E"
  proof (cases "?p < pos v")
    case False
    then have "?p div ?B = pos v div ?B" using that
      by (metis Suc_eq_plus1 div_le_mono less_Suc_eq_le le_antisym less_mult_imp_div_less not_less)
    then show ?thesis using pos_block [of k] k(1,4) by simp
  qed simp
  show ?thesis
  proof (cases "?E = 2 ^ 64")
    case True
    then show ?thesis using blk(3) cov pos_less [of "key_cursor ty e"] k(3) by (simp add: pos_0)
  next
    case False
    then have p': "pos v' = ?E" using blk(3) k(3) by simp
    then have "?B dvd pos v'" by simp
    then have "unat v' < 2 ^ k" using pos_aligned [of k v'] k(1) by simp
    moreover have "v' \<noteq> 0" using p' pos_0 [of v'] by simp
    ultimately show ?thesis using cov p' k(2) by simp
  qed
qed

lemma scan_run_covers:
  assumes "\<forall>d \<in> set ds. dict_inv ty valid d \<and> e \<in> set (dict_entries d)" "sorted (map scan_size ds)"
    "\<forall>d \<in> set ds. unat v < scan_size d"
  shows "\<exists>v' es. scan_run ds v = Some (v', es) \<and>
    (v' = 0 \<and> ds \<noteq> [] \<longrightarrow> pos (key_cursor ty e) < pos v \<or> e \<in> set es) \<and>
    (pos (key_cursor ty e) < pos v' \<longrightarrow> pos (key_cursor ty e) < pos v \<or> e \<in> set es)"
  using assms
proof (induction ds arbitrary: v)
  case (Cons d ds)
  obtain v1 es where S: "dictScan d v = Some (v1, es)" using dictScan_spec [of ty valid d v] Cons.prems(1) by auto
  have e: "dict_inv ty valid d" "e \<in> set (dict_entries d)" "unat v < scan_size d" using Cons.prems by auto
  note c = scan_step_covers [OF e(1) S e(2,3)]
  have "0 < scan_size d" using e(3) by simp
  moreover have "\<forall>d' \<in> set ds. scan_size d \<le> scan_size d'" using Cons.prems(2) by simp
  ultimately have "\<forall>d' \<in> set ds. unat v1 < scan_size d'" using c by fastforce
  from Cons.IH [OF _ _ this] Cons.prems(1,2) obtain v2 es' where R: "scan_run ds v1 = Some (v2, es')"
    "v2 = 0 \<and> ds \<noteq> [] \<longrightarrow> pos (key_cursor ty e) < pos v1 \<or> e \<in> set es'"
    "pos (key_cursor ty e) < pos v2 \<longrightarrow> pos (key_cursor ty e) < pos v1 \<or> e \<in> set es'" by auto
  have "scan_run (d # ds) v = Some (v2, es @ es')" using S R(1) by simp
  moreover have "v2 = v1" if "ds = []" using that R(1) by simp
  ultimately show ?case using c R(2,3) by (auto simp: pos_def)
qed simp

lemma scan_step_advances:
  assumes "dict_inv ty valid d" "scan_size d \<le> 2 ^ K" "K \<le> 60" "2 ^ (64 - K) dvd pos v" "dictScan d v = Some (v', es)"
  shows "v' = 0 \<or> 2 ^ (64 - K) dvd pos v' \<and> pos v + 2 ^ (64 - K) \<le> pos v'"
proof (cases "dict_entries d = []")
  case True
  then show ?thesis using dictScan_spec [OF assms(1), of v] assms(5) by simp
next
  case False
  obtain k where k: "k \<le> 60" "scan_size d = 2 ^ k" "v' = scan_next (mask k) v"
    using dictScan_spec [OF assms(1), of v] assms(5) False by auto
  let ?E = "(pos v div 2 ^ (64 - k) + 1) * 2 ^ (64 - k)"
  have "k \<le> K" using assms(2) k(2) by simp
  then have "(2::nat) ^ (64 - K) dvd 2 ^ (64 - k)" by (intro le_imp_power_dvd) simp
  then have E: "2 ^ (64 - K) dvd ?E" by (rule dvd_mult)
  have "pos v < ?E" by (rule scan_block [OF k(1)])
  moreover have "2 ^ (64 - K) dvd ?E - pos v" using E assms(4) by (rule dvd_diff_nat)
  ultimately have "2 ^ (64 - K) \<le> ?E - pos v" by (intro dvd_imp_le) simp_all
  then have "pos v + 2 ^ (64 - K) \<le> ?E" using \<open>pos v < ?E\<close> by linarith
  moreover have "pos v' = 0 \<or> pos v' = ?E" using scan_block(3) [OF k(1), of v] k(3) by simp
  ultimately show ?thesis using E by (metis pos_0)
qed

lemma scan_run_ends:
  assumes "\<forall>d \<in> set ds. dict_inv ty valid d \<and> scan_size d \<le> 2 ^ K" "K \<le> 60" "2 ^ (64 - K) dvd pos v"
  shows "(\<exists>n es. 0 < n \<and> n \<le> length ds \<and> scan_run (take n ds) v = Some (0, es)) \<or>
    pos v + length ds * 2 ^ (64 - K) < 2 ^ 64"
  using assms(1,3)
proof (induction ds arbitrary: v)
  case Nil
  then show ?case using pos_less by simp
next
  case (Cons d ds)
  obtain v1 es where S: "dictScan d v = Some (v1, es)" using dictScan_spec [of ty valid d v] Cons.prems(1) by auto
  show ?case
  proof (cases "v1 = 0")
    case True
    then show ?thesis using S by (intro disjI1 exI [of _ 1]) simp
  next
    case False
    then have adv: "2 ^ (64 - K) dvd pos v1" "pos v + 2 ^ (64 - K) \<le> pos v1"
      using scan_step_advances [OF _ _ assms(2) Cons.prems(2) S] Cons.prems(1) by auto
    from Cons.IH [OF _ adv(1)] Cons.prems(1)
    consider n es' where "0 < n" "n \<le> length ds" "scan_run (take n ds) v1 = Some (0, es')"
      | "pos v1 + length ds * 2 ^ (64 - K) < 2 ^ 64" by auto
    then show ?thesis
    proof cases
      case 1
      then show ?thesis using S by (intro disjI1 exI [of _ "Suc n"]) simp
    next
      case 2
      then show ?thesis using adv(2) by simp
    qed
  qed
qed

section \<open>Properties\<close>

text \<open>C2. A scan that starts with cursor 0 and is called again with each returned cursor until 0 comes
  back reports every entry that is in the dictionary throughout, whatever additions, deletions,
  rehashing steps and expansions happen between the calls, as long as the table that drives the
  scan (the smaller one during a rehash) does not shrink. No call fails.\<close>
theorem dictScan_complete:
  assumes "ds \<noteq> []" "\<forall>d \<in> set ds. dict_inv ty valid d \<and> e \<in> set (dict_entries d)" "sorted (map scan_size ds)"
  shows "\<exists>v es. scan_run ds 0 = Some (v, es) \<and> (v = 0 \<longrightarrow> e \<in> set es)"
proof -
  have "0 < scan_size d" if "d \<in> set ds" for d
  proof -
    have "dict_entries d \<noteq> []" using assms(2) that by force
    then show ?thesis using dictScan_spec [of ty valid d 0] assms(2) that by auto
  qed
  then show ?thesis using scan_run_covers [OF assms(2,3), of 0] assms(1) by (auto simp: pos_def)
qed

text \<open>C8. A scan ends: with tables of at most \<open>2^K\<close> buckets at every call, the cursor is 0 again after at
  most \<open>2^K\<close> calls, even when the tables shrink and grow in between.\<close>
theorem dictScan_ends:
  assumes "\<forall>d \<in> set ds. dict_inv ty valid d \<and> scan_size d \<le> 2 ^ K" "K \<le> 60" "length ds = 2 ^ K"
  shows "\<exists>n es. 0 < n \<and> n \<le> 2 ^ K \<and> scan_run (take n ds) 0 = Some (0, es)"
proof -
  have "length ds * 2 ^ (64 - K) = 2 ^ 64" using assms(2,3) by (simp add: power_add [symmetric])
  then show ?thesis using scan_run_ends [OF assms(1,2), of 0] assms(3) by (simp add: pos_def)
qed

text \<open>A dictionary with one entry in a table of 16 buckets.\<close>

definition ex16 :: "(string, nat) dict" where
  "ex16 = \<lparr>d_type = dbDictType 5381,
     d_ht0 = \<lparr>ht_table = Some ((replicate 16 [])[4 := [\<lparr>de_key = ''ag'', de_val = Some 7\<rparr>]]),
              ht_size = 16, ht_sizemask = 15, ht_used = 1\<rparr>,
     d_ht1 = dictReset, d_rehashidx = -1, d_iterators = 0, d_log = []\<rparr>"

lemma ag_hash: "hashFunction (dbDictType 5381) ''ag'' = 1595296740"
  by (simp add: dbDictType_def dictSdsHash_def, code_simp)

lemma ex16_entries: "dict_entries ex16 = [\<lparr>de_key = ''ag'', de_val = Some 7\<rparr>]"
  by (simp add: ex16_def dict_entries_def ht_entries_def numeral_eq_Suc) (simp add: dictReset_def)

lemma ex16_inv: "dict_inv (dbDictType 5381) sds_key ex16"
proof -
  let ?b = "(replicate 16 [])[4 := [\<lparr>de_key = ''ag'', de_val = Some (7::nat)\<rparr>]]"
  have "ht_shape (dbDictType 5381) 4 ?b \<lparr>ht_table = Some ?b, ht_size = 16, ht_sizemask = 15, ht_used = 1\<rparr>"
    by (auto simp: ht_shape_def nth_list_update hash_bits_def ag_hash concat_replicate_trivial length_concat sum_list_update map_update split: if_splits)
  then show ?thesis unfolding dict_inv_def ex16_entries
    by (auto simp: ex16_def ht_wf_def sds_key_def uniq_keys_add)
qed

theorem dictScan_complete_witness:
  "\<exists>v es. scan_run (replicate 16 ex16) 0 = Some (v, es) \<and> (v = 0 \<longrightarrow> \<lparr>de_key = ''ag'', de_val = Some 7\<rparr> \<in> set es)"
  using dictScan_complete [of "replicate 16 ex16" "dbDictType 5381" sds_key "\<lparr>de_key = ''ag'', de_val = Some 7\<rparr>"]
    ex16_inv ex16_entries by (simp add: sorted_replicate)

theorem dictScan_ends_witness:
  "\<exists>n es. 0 < n \<and> n \<le> 16 \<and> scan_run (take n (replicate 16 ex16)) 0 = Some (0, es)"
proof -
  have "scan_size ex16 = 16" by (simp add: scan_size_def ex16_def dictIsRehashing_def)
  then show ?thesis using dictScan_ends [of "replicate 16 ex16" "dbDictType 5381" sds_key 4] ex16_inv by simp
qed

text \<open>The same dictionary while it shrinks to 4 buckets.\<close>

definition ex4 :: "(string, nat) dict" where
  "ex4 = fst (dictResize True ex16)"

lemma ex4_eq: "ex4 = ex16\<lparr>d_ht1 := \<lparr>ht_table = Some (replicate 4 []), ht_size = 4, ht_sizemask = 3, ht_used = 0\<rparr>, d_rehashidx := 0\<rparr>"
  using alloc_small(1) next_powers(1)
  by (simp add: ex4_def dictResize_def dictExpand_def dictIsRehashing_def ex16_def DICT_HT_INITIAL_SIZE_def to_int32_def Let_def)

lemma scan_expand_more:
  assumes "ht_get t (unat (v AND m1)) = Some es" "(((v OR m0) + 1) AND NOT m0) OR (v AND m0) = w" "w AND (m0 XOR m1) \<noteq> 0"
    "scan_expand t m0 m1 w = Some (es', v')"
  shows "scan_expand t m0 m1 v = Some (es @ es', v')"
  by (subst scan_expand.simps) (simp add: assms Let_def)

lemma scan_expand_last:
  assumes "ht_get t (unat (v AND m1)) = Some es" "(((v OR m0) + 1) AND NOT m0) OR (v AND m0) = w" "w AND (m0 XOR m1) = 0"
  shows "scan_expand t m0 m1 v = Some (es, w)"
  by (subst scan_expand.simps) (simp add: assms Let_def)

lemma ex16_bucket: "i < 16 \<Longrightarrow> i \<noteq> 4 \<Longrightarrow> ht_get (d_ht0 ex16) i = Some []"
  by (simp add: ex16_def ht_get_def cell_get_def nth_list_update)

lemma ex16_expand:
  "scan_expand (d_ht0 ex16) 3 15 8 = Some ([], 16)" "scan_expand (d_ht0 ex16) 3 15 2 = Some ([], 18)"
  "scan_expand (d_ht0 ex16) 3 15 1 = Some ([], 17)" "scan_expand (d_ht0 ex16) 3 15 3 = Some ([], 19)"
proof -
  have m: "scan_expand (d_ht0 ex16) 3 15 v = Some ([], w)"
    if "unat (v AND 15) < 16" "unat (v AND 15) \<noteq> 4" "(((v OR 3) + 1) AND NOT 3) OR (v AND 3) = u" "u AND (3 XOR 15) \<noteq> 0"
      "scan_expand (d_ht0 ex16) 3 15 u = Some ([], w)" for u v w
    using scan_expand_more [OF ex16_bucket [OF that(1,2)] that(3-5)] by simp
  have l: "scan_expand (d_ht0 ex16) 3 15 v = Some ([], w)"
    if "unat (v AND 15) < 16" "unat (v AND 15) \<noteq> 4" "(((v OR 3) + 1) AND NOT 3) OR (v AND 3) = w" "w AND (3 XOR 15) = 0" for v w
    using scan_expand_last [OF ex16_bucket [OF that(1,2)] that(3,4)] by simp
  show "scan_expand (d_ht0 ex16) 3 15 8 = Some ([], 16)" by (rule m [of 8 12], simp_all, rule l, simp_all)
  show "scan_expand (d_ht0 ex16) 3 15 2 = Some ([], 18)"
    by (rule m [of 2 6], simp_all, rule m [of 6 10], simp_all, rule m [of 10 14], simp_all, rule l, simp_all)
  show "scan_expand (d_ht0 ex16) 3 15 1 = Some ([], 17)"
    by (rule m [of 1 5], simp_all, rule m [of 5 9], simp_all, rule m [of 9 13], simp_all, rule l, simp_all)
  show "scan_expand (d_ht0 ex16) 3 15 3 = Some ([], 19)"
    by (rule m [of 3 7], simp_all, rule m [of 7 11], simp_all, rule m [of 11 15], simp_all, rule l, simp_all)
qed

lemma cursors:
  "scan_next 15 0 = 8" "scan_next 3 16 = 2" "scan_next 3 18 = 1" "scan_next 3 17 = 3" "scan_next 3 19 = 0"
  by code_simp+

lemma ex4_scan:
  assumes "unat (v AND 3) < 4" "scan_expand (d_ht0 ex16) 3 15 v = Some ([], w)"
  shows "dictScan ex4 v = Some (scan_next 3 w, [])"
proof -
  have "dictSize ex4 \<noteq> 0" "dictIsRehashing ex4" "ht_size (d_ht1 ex4) < ht_size (d_ht0 ex4)" "d_ht0 ex4 = d_ht0 ex16"
    "ht_sizemask (d_ht0 ex16) = 15" "ht_sizemask (d_ht1 ex4) = 3"
    by (simp_all add: ex4_eq dictSize_def dictIsRehashing_def) (simp_all add: ex16_def)
  moreover have "ht_get (d_ht1 ex4) (unat (v AND 3)) = Some []" using assms(1) by (simp add: ex4_eq ht_get_def cell_get_def)
  ultimately show ?thesis using assms(2) by (simp add: dictScan_def)
qed

text \<open>C18. When the table shrinks during a scan, an entry can be missed. The dictionary has one entry, in a
  table of 16 buckets. After one call of the scan it starts to shrink to 4 buckets, as
  \<open>dictResize\<close> does for a table this empty; the scan goes on until the cursor is 0 again. The
  entry is in the dictionary all the time and is never reported: in the shrinking table the inner
  loop visits the expansions of the cursor from 8 upwards and skips bucket 4.\<close>
theorem dictScan_misses_on_shrink:
  "dict_entries ex16 = [\<lparr>de_key = ''ag'', de_val = Some 7\<rparr>] \<and> dict_entries ex4 = [\<lparr>de_key = ''ag'', de_val = Some 7\<rparr>] \<and>
   dict_inv (dbDictType 5381) sds_key ex16 \<and> dictResize True ex16 = (ex4, True) \<and>
   scan_run [ex16, ex4, ex4, ex4, ex4] 0 = Some (0, [])"
proof -
  have "dict_entries ex4 = dict_entries ex16" by (simp add: ex4_eq dict_entries_def ex16_def ht_entries_def) (simp add: dictReset_def)
  moreover have "snd (dictResize True ex16)"
    using alloc_small(1) next_powers(1)
    by (simp add: dictResize_def dictExpand_def dictIsRehashing_def ex16_def DICT_HT_INITIAL_SIZE_def to_int32_def Let_def)
  moreover have "dictScan ex16 0 = Some (8, [])"
    using ex16_bucket [of 0] cursors(1) by (simp add: dictScan_def dictSize_def dictIsRehashing_def) (simp add: ex16_def)
  moreover have "dictScan ex4 8 = Some (2, [])" "dictScan ex4 2 = Some (1, [])" "dictScan ex4 1 = Some (3, [])" "dictScan ex4 3 = Some (0, [])"
    using ex4_scan [OF _ ex16_expand(1)] ex4_scan [OF _ ex16_expand(2)] ex4_scan [OF _ ex16_expand(3)] ex4_scan [OF _ ex16_expand(4)]
      cursors by simp_all
  ultimately show ?thesis using ex16_entries ex16_inv by (simp add: ex4_def prod_eq_iff)
qed

end
