(* ===== verification/DictIter.thy ===== *)
theory DictIter
  imports DictTypes
begin

text \<open>
  The iterators of \<open>dict.c\<close> and the two samplers, \<open>dictGetRandomKey\<close> and
  \<open>dictGetSomeKeys\<close>. The addresses of the two tables, which the fingerprint of an unsafe iterator
  depends on, and the results of \<open>random\<close> are arguments.
\<close>

section \<open>Iterators\<close>

definition fingerprint_mix :: "u64 \<Rightarrow> u64 \<Rightarrow> u64" where
  "fingerprint_mix hash x =
     (let hash = hash + x;
          hash = NOT hash + push_bit 21 hash;
          hash = hash XOR signed_drop_bit 24 hash;
          hash = (hash + push_bit 3 hash) + push_bit 8 hash;
          hash = hash XOR signed_drop_bit 14 hash;
          hash = (hash + push_bit 2 hash) + push_bit 4 hash;
          hash = hash XOR signed_drop_bit 28 hash
      in hash + push_bit 31 hash)"

definition dictFingerprint :: "(bool \<Rightarrow> u64) \<Rightarrow> ('k, 'v) dict \<Rightarrow> u64" where
  "dictFingerprint addr d =
     foldl fingerprint_mix 0
       [addr False, of_nat (ht_size (d_ht0 d)), of_nat (ht_used (d_ht0 d)),
        addr True, of_nat (ht_size (d_ht1 d)), of_nat (ht_used (d_ht1 d))]"

text \<open>\<open>di_rest\<close> is the chain that starts at \<open>nextEntry\<close>: the user of an iterator may delete the
  entry that was returned, and changes nothing behind it.\<close>

record ('k, 'v) dictIterator =
  di_table :: bool
  di_index :: int
  di_safe :: bool
  di_entry :: "('k, 'v) dictEntry option"
  di_rest :: "('k, 'v) dictEntry list"
  di_fingerprint :: u64

definition dictGetIterator :: "('k, 'v) dictIterator" where
  "dictGetIterator = \<lparr>di_table = False, di_index = -1, di_safe = False, di_entry = None, di_rest = [], di_fingerprint = 0\<rparr>"

definition dictGetSafeIterator :: "('k, 'v) dictIterator" where
  "dictGetSafeIterator = dictGetIterator\<lparr>di_safe := True\<rparr>"

text \<open>The first call counts a safe iterator in the dictionary and takes the fingerprint for an unsafe
  one.\<close>

definition iter_start :: "(bool \<Rightarrow> u64) \<Rightarrow> ('k, 'v) dictIterator \<times> ('k, 'v) dict \<Rightarrow> ('k, 'v) dictIterator \<times> ('k, 'v) dict" where
  "iter_start addr s =
     (case s of (it, d) \<Rightarrow>
        if di_index it = -1 \<and> \<not> di_table it
        then if di_safe it then (it, d\<lparr>d_iterators := d_iterators d + 1\<rparr>)
             else (it\<lparr>di_fingerprint := dictFingerprint addr d\<rparr>, d)
        else (it, d))"

text \<open>The chain that the iterator enters next: the rest of its chain, or the next bucket; \<^term>\<open>None\<close> inside
  when both tables are exhausted.\<close>

definition iter_chain :: "(bool \<Rightarrow> u64) \<Rightarrow> ('k, 'v) dictIterator \<times> ('k, 'v) dict \<Rightarrow>
    (('k, 'v) dictIterator \<times> ('k, 'v) dict \<times> ('k, 'v) dictEntry list option) option" where
  "iter_chain addr s =
     (case s of (it, d) \<Rightarrow>
        if di_entry it = None then
          (let (it, d) = iter_start addr (it, d);
               it = it\<lparr>di_index := di_index it + 1\<rparr>
           in if di_index it \<ge> int (ht_size (ht_of d (di_table it))) then
                (if dictIsRehashing d \<and> \<not> di_table it
                 then do {
                   es \<leftarrow> ht_get (d_ht1 d) 0;
                   Some (it\<lparr>di_table := True, di_index := 0\<rparr>, d, Some es)
                 }
                 else Some (it, d, None))
              else do {
                es \<leftarrow> ht_get (ht_of d (di_table it)) (nat (di_index it));
                Some (it, d, Some es)
              })
        else Some (it, d, Some (di_rest it)))"

partial_function (option) dictNext :: "(bool \<Rightarrow> u64) \<Rightarrow> ('k, 'v) dictIterator \<Rightarrow> ('k, 'v) dict \<Rightarrow>
    (('k, 'v) dictIterator \<times> ('k, 'v) dict \<times> ('k, 'v) dictEntry option) option" where
  "dictNext addr it d =
     do {
       (it, d, c) \<leftarrow> iter_chain addr (it, d);
       (case c of
          None \<Rightarrow> Some (it, d, None)
        | Some [] \<Rightarrow> dictNext addr (it\<lparr>di_entry := None, di_rest := []\<rparr>) d
        | Some (e # es) \<Rightarrow> Some (it\<lparr>di_entry := Some e, di_rest := es\<rparr>, d, Some e))
     }"

definition dictReleaseIterator :: "(bool \<Rightarrow> u64) \<Rightarrow> ('k, 'v) dictIterator \<Rightarrow> ('k, 'v) dict \<Rightarrow> ('k, 'v) dict option" where
  "dictReleaseIterator addr it d =
     (if \<not> (di_index it = -1 \<and> \<not> di_table it)
      then if di_safe it then Some (d\<lparr>d_iterators := d_iterators d - 1\<rparr>)
           else if di_fingerprint it = dictFingerprint addr d then Some d
           else None
      else Some d)"

section \<open>Samplers\<close>

text \<open>\<open>random\<close> returns a number between 0 and \<open>2 ^ 31 - 1\<close>; \<open>rnd i\<close> stands for the state of the
  generator at the \<open>i\<close>-th call.\<close>

definition c_random :: "(nat \<Rightarrow> nat) \<Rightarrow> nat \<Rightarrow> nat" where
  "c_random rnd i = rnd i mod 2 ^ 31"

text \<open>\<open>h\<close> is an \<open>unsigned int\<close>.\<close>

definition random_bucket :: "('k, 'v) dict \<Rightarrow> nat \<Rightarrow> ('k, 'v) dictEntry list option" where
  "random_bucket d r =
     (if dictIsRehashing d then
        (let n = ht_size (d_ht0 d) + ht_size (d_ht1 d) - nat (d_rehashidx d);
             h = (nat (d_rehashidx d) + r mod n) mod 2 ^ 32
         in if n = 0 then None
            else if h \<ge> ht_size (d_ht0 d) then ht_get (d_ht1 d) (h - ht_size (d_ht0 d)) else ht_get (d_ht0 d) h)
      else ht_get (d_ht0 d) ((r AND ht_sizemask (d_ht0 d)) mod 2 ^ 32))"

partial_function (option) random_chain ::
  "('k, 'v) dict \<Rightarrow> (nat \<Rightarrow> nat) \<Rightarrow> nat \<Rightarrow> (nat \<times> ('k, 'v) dictEntry list) option" where
  "random_chain d rnd i =
     do {
       es \<leftarrow> random_bucket d (c_random rnd i);
       (if es = [] then random_chain d rnd (i + 1) else Some (i + 1, es))
     }"

definition dictGetRandomKey ::
  "(nat \<Rightarrow> nat) \<Rightarrow> ('k, 'v) dict \<Rightarrow> (('k, 'v) dict \<times> ('k, 'v) dictEntry option) option" where
  "dictGetRandomKey rnd d =
     (if dictSize d = 0 then Some (d, None)
      else do {
        d1 \<leftarrow> rehash_if_needed d;
        (i, es) \<leftarrow> random_chain d1 rnd 0;
        e \<leftarrow> cell_get es (c_random rnd i mod length es);
        Some (d1, Some e)
      })"

primrec rehash_some :: "nat \<Rightarrow> ('k, 'v) dict \<Rightarrow> ('k, 'v) dict option" where
  "rehash_some 0 d = Some d"
| "rehash_some (Suc n) d = (if dictIsRehashing d then do { d1 \<leftarrow> dictRehashStep d; rehash_some n d1 } else Some d)"

text \<open>The variables of the sampling loop.\<close>

record ('k, 'v) somekeys =
  sk_i :: nat
  sk_emptylen :: nat
  sk_stored :: "('k, 'v) dictEntry list"
  sk_rnd :: nat

definition somekeys_visit ::
  "(nat \<Rightarrow> nat) \<Rightarrow> ('k, 'v) dict \<Rightarrow> bool \<Rightarrow> nat \<Rightarrow> nat \<Rightarrow> bool \<Rightarrow> ('k, 'v) somekeys \<Rightarrow> ('k, 'v) somekeys option" where
  "somekeys_visit rnd d two cnt maxsizemask j s =
     (if two \<and> \<not> j \<and> int (sk_i s) < d_rehashidx d
      then Some (if sk_i s \<ge> ht_size (d_ht1 d) then s\<lparr>sk_i := nat (d_rehashidx d)\<rparr> else s)
      else if sk_i s \<ge> ht_size (ht_of d j) then Some s
      else do {
        es \<leftarrow> ht_get (ht_of d j) (sk_i s);
        Some (if es = []
              then if sk_emptylen s + 1 \<ge> 5 \<and> sk_emptylen s + 1 > cnt
                   then s\<lparr>sk_i := c_random rnd (sk_rnd s) AND maxsizemask, sk_emptylen := 0, sk_rnd := sk_rnd s + 1\<rparr>
                   else s\<lparr>sk_emptylen := sk_emptylen s + 1\<rparr>
              else s\<lparr>sk_emptylen := 0, sk_stored := sk_stored s @ take (cnt - length (sk_stored s)) es\<rparr>)
      })"

text \<open>The function returns as soon as \<open>count\<close> entries are stored, also between the two tables.\<close>

primrec somekeys_loop ::
  "nat \<Rightarrow> (nat \<Rightarrow> nat) \<Rightarrow> ('k, 'v) dict \<Rightarrow> bool \<Rightarrow> nat \<Rightarrow> nat \<Rightarrow> ('k, 'v) somekeys \<Rightarrow> ('k, 'v) dictEntry list option" where
  "somekeys_loop 0 rnd d two cnt maxsizemask s = Some (sk_stored s)"
| "somekeys_loop (Suc n) rnd d two cnt maxsizemask s =
     (if length (sk_stored s) \<ge> cnt then Some (sk_stored s)
      else do {
        s1 \<leftarrow> somekeys_visit rnd d two cnt maxsizemask False s;
        (if length (sk_stored s1) = cnt then Some (sk_stored s1)
         else do {
           s2 \<leftarrow> (if two then somekeys_visit rnd d two cnt maxsizemask True s1 else Some s1);
           (if length (sk_stored s2) = cnt then Some (sk_stored s2)
            else somekeys_loop n rnd d two cnt maxsizemask (s2\<lparr>sk_i := (sk_i s2 + 1) AND maxsizemask\<rparr>))
         })
      })"

definition dictGetSomeKeys ::
  "(nat \<Rightarrow> nat) \<Rightarrow> ('k, 'v) dict \<Rightarrow> nat \<Rightarrow> (('k, 'v) dict \<times> ('k, 'v) dictEntry list) option" where
  "dictGetSomeKeys rnd d cnt =
     (let cnt = (if dictSize d < cnt then dictSize d else cnt);
          maxsteps = cnt * 10 mod 2 ^ 32
      in do {
        d1 \<leftarrow> rehash_some cnt d;
        (let two = dictIsRehashing d1;
             m = ht_sizemask (d_ht0 d1);
             m = (if two \<and> m < ht_sizemask (d_ht1 d1) then ht_sizemask (d_ht1 d1) else m)
         in do {
           es \<leftarrow> somekeys_loop maxsteps rnd d1 two cnt m
                   \<lparr>sk_i = c_random rnd 0 AND m, sk_emptylen = 0, sk_stored = [], sk_rnd = 1\<rparr>;
           Some (d1, es)
         })
      })"

section \<open>What an iterator still has to return\<close>

definition iter_left :: "('k, 'v) dictIterator \<Rightarrow> ('k, 'v) dict \<Rightarrow> ('k, 'v) dictEntry list" where
  "iter_left it d =
     di_rest it @
     concat (drop (nat (di_index it + 1)) (case ht_table (ht_of d (di_table it)) of None \<Rightarrow> [] | Some b \<Rightarrow> b)) @
     (if dictIsRehashing d \<and> \<not> di_table it then ht_entries (d_ht1 d) else [])"

definition iter_wf :: "('k, 'v) dictIterator \<Rightarrow> ('k, 'v) dict \<Rightarrow> bool" where
  "iter_wf it d \<longleftrightarrow> -1 \<le> di_index it \<and> (di_table it \<longrightarrow> dictIsRehashing d) \<and> (di_entry it = None \<longrightarrow> di_rest it = []) \<and>
     (di_index it = -1 \<longrightarrow> di_entry it = None \<and> \<not> di_table it)"

text \<open>The number of buckets an iterator has not entered yet, as a measure.\<close>

definition iter_measure :: "('k, 'v) dictIterator \<Rightarrow> ('k, 'v) dict \<Rightarrow> nat" where
  "iter_measure it d =
     (if di_table it then nat (int (ht_size (d_ht1 d)) - di_index it)
      else nat (int (ht_size (d_ht0 d)) - di_index it) + ht_size (d_ht1 d) + 1) * 2 +
     (if di_entry it = None then 0 else 1)"

lemma dict_iterators_simps [simp]:
  "dict_entries (d\<lparr>d_iterators := n\<rparr>) = dict_entries d" "dict_inv ty valid (d\<lparr>d_iterators := n\<rparr>) = dict_inv ty valid d"
  "dictIsRehashing (d\<lparr>d_iterators := n\<rparr>) = dictIsRehashing d" "ht_of (d\<lparr>d_iterators := n\<rparr>) s = ht_of d s"
  "iter_left it (d\<lparr>d_iterators := n\<rparr>) = iter_left it d" "iter_wf it (d\<lparr>d_iterators := n\<rparr>) = iter_wf it d"
  "iter_measure it (d\<lparr>d_iterators := n\<rparr>) = iter_measure it d"
  by (simp_all add: dict_entries_def dict_inv_def dictIsRehashing_def ht_of_def iter_left_def iter_wf_def iter_measure_def)

text \<open>After the first call the dictionary is the same but for the count of safe iterators.\<close>

definition started :: "(bool \<Rightarrow> u64) \<Rightarrow> ('k, 'v) dictIterator \<Rightarrow> ('k, 'v) dict \<Rightarrow> ('k, 'v) dictIterator \<Rightarrow> ('k, 'v) dict \<Rightarrow> bool" where
  "started addr it d it' d' \<longleftrightarrow> di_safe it' = di_safe it \<and> di_index it' \<noteq> -1 \<and>
     (if di_index it = -1 \<and> di_safe it then d' = d\<lparr>d_iterators := d_iterators d + 1\<rparr> else d' = d) \<and>
     di_fingerprint it' = (if di_index it = -1 \<and> \<not> di_safe it then dictFingerprint addr d else di_fingerprint it)"

lemma table_nth:
  assumes "ht_wf ty t" "i < ht_size t"
  obtains b where "ht_table t = Some b" "ht_get t i = Some (b ! i)" "i < length b" "length b = ht_size t"
  using assms(1)
proof (cases rule: ht_wf_cases)
  case 1
  then show ?thesis using assms(2) by (simp add: dictReset_def)
next
  case (2 k b)
  note S = ht_shapeD [OF 2]
  show ?thesis using that [OF S(1) ht_shape_get [OF 2]] assms(2) S(2,4) by simp
qed

lemma table_end:
  assumes "ht_wf ty t" "int (ht_size t) \<le> i"
  shows "drop (nat i) (case ht_table t of None \<Rightarrow> [] | Some b \<Rightarrow> b) = []"
  using assms(1)
proof (cases rule: ht_wf_cases)
  case 1
  then show ?thesis by (simp add: dictReset_def)
next
  case (2 k b)
  show ?thesis using ht_shapeD [OF 2] assms(2) by simp
qed

lemma started_trans:
  assumes "started addr it d it1 d1" "started addr (it1\<lparr>di_entry := a, di_rest := b\<rparr>) d1 it2 d2"
  shows "started addr it d it2 d2"
  using assms by (auto simp: started_def)

lemma iter_start_spec:
  assumes "iter_wf it d" "iter_start addr (it, d) = (it1, d1)"
  shows "started addr it d (it1\<lparr>di_index := di_index it1 + 1\<rparr>) d1 \<and> it1 = it\<lparr>di_fingerprint := di_fingerprint it1\<rparr> \<and>
    d1 = d\<lparr>d_iterators := d_iterators d1\<rparr>"
  using assms by (cases it) (auto simp: iter_start_def iter_wf_def started_def split: if_splits)

lemma iter_chain_rest:
  assumes "iter_wf it d" "di_entry it \<noteq> None"
  shows "iter_chain addr (it, d) = Some (it, d, Some (di_rest it)) \<and> started addr it d it d"
  using assms by (auto simp: iter_chain_def started_def iter_wf_def)

lemma iter_chain_bucket:
  assumes inv: "dict_inv ty valid d" and wf: "iter_wf it d" and e: "di_entry it = None"
  shows "\<exists>it' d' c. iter_chain addr (it, d) = Some (it', d', c) \<and> started addr it d it' d' \<and>
    (case c of None \<Rightarrow> iter_left it d = []
     | Some es \<Rightarrow> iter_left it d = es @ iter_left (it'\<lparr>di_entry := None, di_rest := []\<rparr>) d' \<and>
         iter_wf (it'\<lparr>di_entry := None, di_rest := []\<rparr>) d' \<and>
         iter_measure (it'\<lparr>di_entry := None, di_rest := []\<rparr>) d' < iter_measure it d)"
proof -
  obtain it1 d1 where st: "iter_start addr (it, d) = (it1, d1)" by (cases "iter_start addr (it, d)")
  note S = iter_start_spec [OF wf st]
  have F: "di_index it1 = di_index it" "di_table it1 = di_table it" "di_rest it1 = di_rest it" "di_entry it1 = di_entry it"
    "ht_of d1 t = ht_of d t" "d_ht0 d1 = d_ht0 d" "d_ht1 d1 = d_ht1 d" "dictIsRehashing d1 = dictIsRehashing d" for t
    using S by (metis dictIterator.select_convs dictIterator.update_convs(6) dictIterator.surjective,
      metis dictIterator.select_convs dictIterator.update_convs(6) dictIterator.surjective,
      metis dictIterator.select_convs dictIterator.update_convs(6) dictIterator.surjective,
      metis dictIterator.select_convs dictIterator.update_convs(6) dictIterator.surjective,
      metis dict_iterators_simps(4), metis dict_iterators_simps(4) ht_of_def, metis dict_iterators_simps(4) ht_of_def,
      metis dict_iterators_simps(3))
  let ?it = "it1\<lparr>di_index := di_index it1 + 1\<rparr>"
  let ?i = "di_index it + 1" and ?t = "ht_of d (di_table it)"
  have r: "di_rest it = []" "0 \<le> ?i" using wf e by (auto simp: iter_wf_def)
  have w0: "ht_wf ty ?t" "ht_wf ty (d_ht1 d)" using inv by (auto simp: dict_inv_def ht_of_def)
  show ?thesis
  proof (cases "?i \<ge> int (ht_size ?t)")
    case big: True
    note T = table_end [OF w0(1) big]
    show ?thesis
    proof (cases "dictIsRehashing d \<and> \<not> di_table it")
      case True
      then have "d_ht1 d \<noteq> dictReset" using inv by (simp add: dict_inv_def dictIsRehashing_def)
      then have sz: "0 < ht_size (d_ht1 d)" using w0(2) ht_shapeD(2) by (metis ht_wf_def zero_less_numeral zero_less_power)
      obtain b where b: "ht_table (d_ht1 d) = Some b" "ht_get (d_ht1 d) 0 = Some (b ! 0)" "0 < length b"
        using table_nth [OF w0(2) sz] by blast
      then have c: "concat b = b ! 0 @ concat (drop 1 b)" by (cases b) simp_all
      let ?it' = "?it\<lparr>di_table := True, di_index := 0\<rparr>"
      have "iter_chain addr (it, d) = Some (?it', d1, Some (b ! 0))" using big True e st b(2) by (auto simp: iter_chain_def F Let_def)
      moreover have "started addr it d ?it' d1" using S by (simp add: started_def)
      moreover have "iter_left it d = b ! 0 @ iter_left (?it'\<lparr>di_entry := None, di_rest := []\<rparr>) d1"
        using r T True b(1) c by (simp add: iter_left_def F ht_of_def ht_entries_def)
      moreover have "iter_wf (?it'\<lparr>di_entry := None, di_rest := []\<rparr>) d1" using True by (simp add: iter_wf_def F)
      moreover have "iter_measure (?it'\<lparr>di_entry := None, di_rest := []\<rparr>) d1 < iter_measure it d"
        using True e by (simp add: iter_measure_def F)
      ultimately show ?thesis by (intro exI [of _ ?it'] exI [of _ d1] exI [of _ "Some (b ! 0)"]) simp
    next
      case False
      then have "iter_chain addr (it, d) = Some (?it, d1, None)" using big e st by (auto simp: iter_chain_def F Let_def)
      moreover have "iter_left it d = []" using r T False by (auto simp: iter_left_def)
      ultimately show ?thesis using S by (intro exI [of _ ?it] exI [of _ d1] exI [of _ None]) simp
    qed
  next
    case False
    then have "nat ?i < ht_size ?t" using r(2) by linarith
    from table_nth [OF w0(1) this] obtain b where b: "ht_table ?t = Some b" "ht_get ?t (nat ?i) = Some (b ! nat ?i)"
      "nat ?i < length b" by blast
    have c: "drop (nat ?i) b = b ! nat ?i # drop (nat (?i + 1)) b"
      using Cons_nth_drop_Suc [OF b(3)] Suc_nat_eq_nat_zadd1 [OF r(2)] by (simp add: add.commute [of 1])
    have "iter_chain addr (it, d) = Some (?it, d1, Some (b ! nat ?i))" using False e st b(2) by (auto simp: iter_chain_def F Let_def)
    moreover have "iter_left it d = b ! nat ?i @ iter_left (?it\<lparr>di_entry := None, di_rest := []\<rparr>) d1"
      using r b(1) c by (simp add: iter_left_def F)
    moreover have "iter_wf (?it\<lparr>di_entry := None, di_rest := []\<rparr>) d1" using r(2) wf by (auto simp: iter_wf_def F)
    moreover have "iter_measure (?it\<lparr>di_entry := None, di_rest := []\<rparr>) d1 < iter_measure it d"
      using False r(2) e by (auto simp: iter_measure_def F ht_of_def)
    ultimately show ?thesis using S by (intro exI [of _ ?it] exI [of _ d1] exI [of _ "Some (b ! nat ?i)"]) simp
  qed
qed

lemma dictNext_spec:
  assumes "dict_inv ty valid d" "iter_wf it d"
  shows "\<exists>it' d' r. dictNext addr it d = Some (it', d', r) \<and> started addr it d it' d' \<and>
    (case iter_left it d of [] \<Rightarrow> r = None | e # es \<Rightarrow> r = Some e \<and> iter_left it' d' = es \<and> iter_wf it' d')"
  using assms
proof (induction "iter_measure it d" arbitrary: it d rule: less_induct)
  case less
  show ?case
  proof (cases "di_entry it = None")
    case True
    obtain it1 d1 c where C: "iter_chain addr (it, d) = Some (it1, d1, c)" "started addr it d it1 d1"
      "case c of None \<Rightarrow> iter_left it d = []
       | Some es \<Rightarrow> iter_left it d = es @ iter_left (it1\<lparr>di_entry := None, di_rest := []\<rparr>) d1 \<and>
           iter_wf (it1\<lparr>di_entry := None, di_rest := []\<rparr>) d1 \<and>
           iter_measure (it1\<lparr>di_entry := None, di_rest := []\<rparr>) d1 < iter_measure it d"
      using iter_chain_bucket [OF less.prems True] by blast
    have inv: "dict_inv ty valid d1" using C(2) less.prems(1) by (auto simp: started_def split: if_splits)
    consider "c = None" | "c = Some []" | e es where "c = Some (e # es)" by (metis neq_Nil_conv option.exhaust)
    then show ?thesis
    proof cases
      case 1
      then show ?thesis using C by (subst dictNext.simps) simp
    next
      case 2
      let ?it = "it1\<lparr>di_entry := None, di_rest := []\<rparr>"
      have "iter_measure ?it d1 < iter_measure it d" "iter_wf ?it d1" "iter_left it d = iter_left ?it d1" using C(3) 2 by simp_all
      from less.hyps [OF this(1) inv this(2)] this(3) show ?thesis
        using C(1) 2 started_trans [OF C(2)] by (subst dictNext.simps) fastforce
    next
      case 3
      let ?it = "it1\<lparr>di_entry := Some e, di_rest := es\<rparr>"
      have "iter_left it d = e # iter_left ?it d1" using C(3) 3 by (simp add: iter_left_def)
      moreover have "iter_wf ?it d1" using C(2,3) 3 by (auto simp: iter_wf_def started_def)
      moreover have "started addr it d ?it d1" using C(2) by (simp add: started_def)
      ultimately show ?thesis using C(1) 3 by (subst dictNext.simps) simp
    qed
  next
    case False
    note R = iter_chain_rest [OF less.prems(2) False]
    show ?thesis
    proof (cases "di_rest it")
      case Nil
      let ?it = "it\<lparr>di_entry := None, di_rest := []\<rparr>"
      have "iter_measure ?it d < iter_measure it d" using False by (simp add: iter_measure_def)
      moreover have "iter_wf ?it d" using less.prems(2) by (auto simp: iter_wf_def)
      moreover have "iter_left it d = iter_left ?it d" using Nil by (simp add: iter_left_def)
      ultimately show ?thesis using less.hyps [of ?it d] less.prems(1) R Nil started_trans [of addr it d it d]
        by (subst dictNext.simps) fastforce
    next
      case (Cons e es)
      let ?it = "it\<lparr>di_entry := Some e, di_rest := es\<rparr>"
      have "iter_left it d = e # iter_left ?it d" using Cons by (simp add: iter_left_def)
      moreover have "iter_wf ?it d" using less.prems(2) False by (auto simp: iter_wf_def)
      moreover have "started addr it d ?it d" using R by (simp add: started_def)
      ultimately show ?thesis using R Cons by (subst dictNext.simps) simp
    qed
  qed
qed

text \<open>Calling \<open>dictNext\<close> until it returns \<open>NULL\<close>, at most \<open>n\<close> times.\<close>

primrec iter_run :: "(bool \<Rightarrow> u64) \<Rightarrow> nat \<Rightarrow> ('k, 'v) dictIterator \<Rightarrow> ('k, 'v) dict \<Rightarrow>
    (('k, 'v) dictIterator \<times> ('k, 'v) dict \<times> ('k, 'v) dictEntry list) option" where
  "iter_run addr 0 it d = Some (it, d, [])"
| "iter_run addr (Suc n) it d =
     do {
       (it, d, r) \<leftarrow> dictNext addr it d;
       (case r of
          None \<Rightarrow> Some (it, d, [])
        | Some e \<Rightarrow> do { (it, d, es) \<leftarrow> iter_run addr n it d; Some (it, d, e # es) })
     }"

lemma iter_run_spec:
  assumes "dict_inv ty valid d" "iter_wf it d" "length (iter_left it d) < n"
  shows "\<exists>it' d'. iter_run addr n it d = Some (it', d', iter_left it d) \<and> started addr it d it' d'"
  using assms
proof (induction n arbitrary: it d)
  case (Suc n)
  obtain it1 d1 r where N: "dictNext addr it d = Some (it1, d1, r)" "started addr it d it1 d1"
    "case iter_left it d of [] \<Rightarrow> r = None | e # es \<Rightarrow> r = Some e \<and> iter_left it1 d1 = es \<and> iter_wf it1 d1"
    using dictNext_spec [OF Suc.prems(1,2)] by blast
  show ?case
  proof (cases "iter_left it d")
    case Nil
    then show ?thesis using N by simp
  next
    case (Cons e es)
    have inv: "dict_inv ty valid d1" using N(2) Suc.prems(1) by (auto simp: started_def split: if_splits)
    have es: "iter_wf it1 d1" "iter_left it1 d1 = es" "length es < n" using N(3) Cons Suc.prems(3) by simp_all
    obtain it2 d2 where R: "iter_run addr n it1 d1 = Some (it2, d2, es)" "started addr it1 d1 it2 d2"
      using Suc.IH [OF inv es(1)] es(2,3) by auto
    have "started addr it d it2 d2" using started_trans [OF N(2), of "di_rest it1" "di_entry it1"] R(2) by simp
    then show ?thesis using N(1,3) R(1) Cons by auto
  qed
qed simp

lemma iter_left_new:
  assumes "dict_inv ty valid d" "it = dictGetIterator \<or> it = dictGetSafeIterator"
  shows "iter_left it d = dict_entries d" "iter_wf it d"
proof -
  have "ht_entries (d_ht1 d) = []" if "\<not> dictIsRehashing d"
    using assms(1) that by (auto simp: dict_inv_def dictIsRehashing_def ht_entries_def) (simp add: dictReset_def)
  then show "iter_left it d = dict_entries d" using assms(2)
    by (auto simp: iter_left_def dictGetIterator_def dictGetSafeIterator_def dict_entries_def ht_of_def ht_entries_def split: option.splits)
  show "iter_wf it d" using assms(2) by (auto simp: iter_wf_def dictGetIterator_def dictGetSafeIterator_def)
qed

section \<open>Samples are entries\<close>

lemma ht_get_entries:
  assumes "ht_get t i = Some es"
  shows "set es \<subseteq> set (ht_entries t)"
  using assms by (auto simp: ht_get_def cell_get_def ht_entries_def split: option.splits if_splits)

lemma random_bucket_entries: "random_bucket d r = Some es \<Longrightarrow> set es \<subseteq> set (dict_entries d)"
  using ht_get_entries [of _ _ es] by (fastforce simp: random_bucket_def dict_entries_def Let_def split: if_splits)

lemma random_chain_sound:
  assumes "random_chain d rnd i = Some r"
  shows "snd r \<noteq> [] \<and> set (snd r) \<subseteq> set (dict_entries d)"
  by (rule random_chain.raw_induct [OF _ assms, where P = "\<lambda>d rnd i r. snd r \<noteq> [] \<and> set (snd r) \<subseteq> set (dict_entries d)"])
     (fastforce simp: bind_eq_Some_conv split: if_splits dest: random_bucket_entries)

lemma random_chain_returns:
  assumes "\<forall>l. \<exists>es. random_bucket d (c_random rnd l) = Some es" "random_bucket d (c_random rnd (i + n)) = Some es" "es \<noteq> []"
  shows "\<exists>j es. random_chain d rnd i = Some (j, es)"
  using assms(2)
proof (induction n arbitrary: i)
  case 0
  then show ?case using assms(3) by (subst random_chain.simps) simp
next
  case (Suc n)
  obtain es' where es': "random_bucket d (c_random rnd i) = Some es'" using assms(1) by blast
  show ?case
  proof (cases "es' = []")
    case True
    then show ?thesis using Suc.IH [of "i + 1"] Suc.prems es' by (subst random_chain.simps) simp
  next
    case False
    then show ?thesis using es' by (subst random_chain.simps) simp
  qed
qed

text \<open>With at most \<open>2^31\<close> buckets per table no draw leaves the tables, and with at most \<open>2^31\<close>
  buckets in both tables every bucket that may hold an entry is drawn by some random number.\<close>

lemma random_bucket_defined:
  assumes inv: "dict_inv ty valid d" and cap: "dict_cap d \<le> 2 ^ 31" and ne: "dict_entries d \<noteq> []"
  shows "\<exists>es. random_bucket d r = Some es"
proof -
  have nr: "d_ht0 d \<noteq> dictReset" using nonempty_nonreset [OF inv] dictSize_entries [OF inv] ne by simp
  then obtain k0 b0 where s0: "ht_shape ty k0 b0 (d_ht0 d)" using inv by (auto simp: dict_inv_def ht_wf_def)
  note S0 = ht_shapeD [OF s0]
  show ?thesis
  proof (cases "dictIsRehashing d")
    case True
    then have "d_ht1 d \<noteq> dictReset" and ri: "0 \<le> d_rehashidx d" "d_rehashidx d \<le> int (ht_size (d_ht0 d))"
      using inv by (simp_all add: dict_inv_def dictIsRehashing_def)
    then obtain k1 b1 where s1: "ht_shape ty k1 b1 (d_ht1 d)" using inv by (auto simp: dict_inv_def ht_wf_def)
    note S1 = ht_shapeD [OF s1]
    let ?n = "ht_size (d_ht0 d) + ht_size (d_ht1 d) - nat (d_rehashidx d)"
    have "nat (d_rehashidx d) \<le> 2 ^ k0" using ri unfolding S0(2) by (simp add: nat_le_iff)
    then have n: "0 < ?n" "nat (d_rehashidx d) + ?n = 2 ^ k0 + 2 ^ k1"
      using zero_less_power [of "2::nat" k1] unfolding S0(2) S1(2) by linarith+
    let ?h = "nat (d_rehashidx d) + r mod ?n"
    have h: "?h < 2 ^ k0 + 2 ^ k1" using n by (metis add_less_cancel_left mod_less_divisor)
    have "2 ^ k0 + 2 ^ k1 \<le> (2::nat) ^ 32" using cap by (simp add: dict_cap_def S0(2) S1(2))
    then have hm: "?h mod 2 ^ 32 = ?h" using h by (intro mod_less) linarith
    have "(?n = 0) = False" using n(1) by (metis less_irrefl)
    then have "random_bucket d r = (if ?h \<ge> ht_size (d_ht0 d) then ht_get (d_ht1 d) (?h - ht_size (d_ht0 d)) else ht_get (d_ht0 d) ?h)"
      using True by (simp only: random_bucket_def Let_def hm if_True if_False)
    moreover have "?h - ht_size (d_ht0 d) < 2 ^ k1" if "?h \<ge> ht_size (d_ht0 d)" using h that unfolding S0(2) by linarith
    moreover have "?h < 2 ^ k0" if "\<not> ?h \<ge> ht_size (d_ht0 d)" using that unfolding S0(2) by linarith
    ultimately show ?thesis using ht_shape_get [OF s1] ht_shape_get [OF s0] by metis
  next
    case False
    have a: "r AND (2 ^ k0 - 1) = r mod 2 ^ k0" by (simp add: take_bit_eq_mod [symmetric] take_bit_eq_mask mask_eq_exp_minus_1)
    have "(2::nat) ^ k0 \<le> 2 ^ 31" using cap by (simp add: dict_cap_def S0(2))
    then have "r mod 2 ^ k0 < 2 ^ 31" by (rule less_le_trans [rotated]) simp
    then have "r mod 2 ^ k0 < 2 ^ 32" by (rule less_trans) simp
    then have "(r AND (2 ^ k0 - 1)) mod 2 ^ 32 = r mod 2 ^ k0" unfolding a by (rule mod_less)
    then have "random_bucket d r = ht_get (d_ht0 d) (r mod 2 ^ k0)" using False by (simp only: random_bucket_def S0(3) if_False)
    then show ?thesis using ht_shape_get [OF s0, of "r mod 2 ^ k0"] by simp
  qed
qed

lemma random_bucket_reaches:
  assumes inv: "dict_inv ty valid d" and cap: "ht_size (d_ht0 d) + ht_size (d_ht1 d) \<le> 2 ^ 31" and e: "e \<in> set (dict_entries d)"
  shows "\<exists>r es. r < 2 ^ 31 \<and> random_bucket d r = Some es \<and> e \<in> set es"
proof -
  have nr: "d_ht0 d \<noteq> dictReset" using nonempty_nonreset [OF inv] dictSize_entries [OF inv] e by (cases "dict_entries d") auto
  then obtain k0 b0 where s0: "ht_shape ty k0 b0 (d_ht0 d)" using inv by (auto simp: dict_inv_def ht_wf_def)
  note S0 = ht_shapeD [OF s0]
  show ?thesis
  proof (cases "dictIsRehashing d")
    case True
    then have "d_ht1 d \<noteq> dictReset" and ri: "0 \<le> d_rehashidx d" "d_rehashidx d \<le> int (ht_size (d_ht0 d))"
      "\<forall>i < nat (d_rehashidx d). the (ht_table (d_ht0 d)) ! i = []"
      using inv by (simp_all add: dict_inv_def dictIsRehashing_def)
    then obtain k1 b1 where s1: "ht_shape ty k1 b1 (d_ht1 d)" using inv by (auto simp: dict_inv_def ht_wf_def)
    note S1 = ht_shapeD [OF s1]
    let ?ri = "nat (d_rehashidx d)"
    have ri0: "?ri \<le> 2 ^ k0" using ri(1,2) unfolding S0(2) by (simp add: nat_le_iff)
    have c: "2 ^ k0 + 2 ^ k1 \<le> (2::nat) ^ 31" using cap by (simp add: S0(2) S1(2))
    have draw: "random_bucket d (h - ?ri) = (if h \<ge> 2 ^ k0 then ht_get (d_ht1 d) (h - 2 ^ k0) else ht_get (d_ht0 d) h)"
      if h: "?ri \<le> h" "h < 2 ^ k0 + 2 ^ k1" for h
    proof -
      have n: "(h - ?ri) mod (2 ^ k0 + 2 ^ k1 - ?ri) = h - ?ri" using h by (intro mod_less) linarith
      have m: "(?ri + (h - ?ri)) mod 2 ^ 32 = h" using h c by simp
      have z: "(2 ^ k0 + 2 ^ k1 - ?ri = 0) = False" using h by auto
      show ?thesis using True by (simp only: random_bucket_def Let_def S0(2) S1(2) n m z if_True if_False)
    qed
    show ?thesis
    proof (cases "e \<in> set (ht_entries (d_ht0 d))")
      case True
      then obtain i where i: "i < 2 ^ k0" "e \<in> set (b0 ! i)" using S0(4,6) by (auto simp: in_set_conv_nth) (metis nth_mem)
      then have "?ri \<le> i" using ri(3) S0(1) by (metis emptyE list.set(1) not_less option.sel)
      then show ?thesis using draw [of i] i c ht_shape_get [OF s0 i(1)] by (intro exI [of _ "i - ?ri"] exI [of _ "b0 ! i"]) simp
    next
      case False
      then have "e \<in> set (ht_entries (d_ht1 d))" using e by (simp add: dict_entries_def)
      then obtain i where i: "i < 2 ^ k1" "e \<in> set (b1 ! i)" using S1(4,6) by (auto simp: in_set_conv_nth) (metis nth_mem)
      then show ?thesis using draw [of "2 ^ k0 + i"] ri0 c ht_shape_get [OF s1 i(1)]
        by (intro exI [of _ "2 ^ k0 + i - ?ri"] exI [of _ "b1 ! i"]) simp
    qed
  next
    case False
    then have "e \<in> set (ht_entries (d_ht0 d))" using e inv by (simp add: dict_entries_def dict_inv_def dictIsRehashing_def)
    then obtain i where i: "i < 2 ^ k0" "e \<in> set (b0 ! i)" using S0(4,6) by (auto simp: in_set_conv_nth) (metis nth_mem)
    have "i AND (2 ^ k0 - 1) = take_bit k0 i" by (simp only: take_bit_eq_mask mask_eq_exp_minus_1)
    then have "i AND (2 ^ k0 - 1) = i" using i(1) by (simp only: take_bit_nat_eq_self)
    moreover have k0: "(2::nat) ^ k0 \<le> 2 ^ 31" using cap by (simp add: S0(2))
    ultimately have "(i AND (2 ^ k0 - 1)) mod 2 ^ 32 = i" using i(1) by simp
    then have "random_bucket d i = ht_get (d_ht0 d) i" using False by (simp only: random_bucket_def S0(3) if_False)
    then show ?thesis using ht_shape_get [OF s0 i(1)] i k0 by (intro exI [of _ i] exI [of _ "b0 ! i"]) simp
  qed
qed

lemma dictGetRandomKey_sound:
  assumes inv: "dict_inv ty valid d" and r: "dictGetRandomKey rnd d = Some (d', Some e)"
  shows "e \<in> set (dict_entries d) \<and> mset (dict_entries d') = mset (dict_entries d)"
proof -
  obtain d1 where d1: "rehash_if_needed d = Some d1" "keeps d d1" using rehash_if_needed_spec [OF inv] by blast
  obtain i es where "random_chain d1 rnd 0 = Some (i, es)" "cell_get es (c_random rnd i mod length es) = Some e" "d' = d1"
    using r d1(1) by (auto simp: dictGetRandomKey_def bind_eq_Some_conv split: if_splits)
  moreover from this have "e \<in> set es" by (auto simp: cell_get_def split: if_splits)
  ultimately have "e \<in> set (dict_entries d1)" using random_chain_sound [of d1 rnd 0 "(i, es)"] by auto
  then show ?thesis using d1(2) \<open>d' = d1\<close> by (metis keeps_def set_mset_mset)
qed

lemma random_bucket_length:
  assumes inv: "dict_inv ty valid d" and "random_bucket d r = Some es"
  shows "length es \<le> dictSize d"
proof -
  have "length es \<le> length (ht_entries t)" if g: "ht_get t i = Some es" for t :: "('a, 'b) dictht" and i
  proof -
    obtain bs where "ht_table t = Some bs" "es \<in> set bs"
      using g by (auto simp: ht_get_def cell_get_def split: option.splits if_splits)
    then show ?thesis using member_le_sum_list [of "length es" "map length bs"] by (simp add: ht_entries_def length_concat)
  qed
  then have "length es \<le> length (dict_entries d)"
    using assms(2) by (fastforce simp: random_bucket_def dict_entries_def Let_def split: if_splits)
  then show ?thesis by (simp add: dictSize_entries [OF inv])
qed

lemma dictGetRandomKey_reaches:
  assumes inv: "dict_inv ty valid d" and d1: "rehash_if_needed d = Some d1"
    and cap: "ht_size (d_ht0 d1) + ht_size (d_ht1 d1) \<le> 2 ^ 31" "dictSize d < 2 ^ 31" and e: "e \<in> set (dict_entries d)"
  shows "\<exists>rnd. dictGetRandomKey rnd d = Some (d1, Some e)"
proof -
  have i1: "dict_inv ty valid d1" "keeps d d1" using rehash_if_needed_spec [OF inv] d1 by auto
  then have m: "mset (dict_entries d1) = mset (dict_entries d)" by (simp add: keeps_def)
  have "e \<in> set (dict_entries d1)" using e m by (metis set_mset_mset)
  then obtain r es where r: "r < 2 ^ 31" "random_bucket d1 r = Some es" "e \<in> set es"
    using random_bucket_reaches [OF i1(1) cap(1)] by blast
  then obtain p where p: "p < length es" "es ! p = e" by (auto simp: in_set_conv_nth)
  have "dictSize d1 = dictSize d" using m by (metis dictSize_entries [OF inv] dictSize_entries [OF i1(1)] size_mset)
  then have p31: "p < 2 ^ 31" using p(1) random_bucket_length [OF i1(1) r(2)] cap(2) by linarith
  let ?rnd = "\<lambda>i::nat. if i = 0 then r else p"
  have q: "c_random ?rnd 0 = r" "c_random ?rnd 1 = p" using r(1) p31 by (simp_all add: c_random_def)
  then have "random_chain d1 ?rnd 0 = Some (1, es)" using r by (subst random_chain.simps) auto
  moreover have "dictSize d \<noteq> 0" using e dictSize_entries [OF inv] by auto
  ultimately have "dictGetRandomKey ?rnd d = Some (d1, Some e)" using d1 p q(2) by (simp add: dictGetRandomKey_def cell_get_def)
  then show ?thesis by blast
qed

lemma dictGetRandomKey_returns:
  assumes inv: "dict_inv ty valid d" and cap: "dict_cap d \<le> 2 ^ 31" and d1: "rehash_if_needed d = Some d1"
    and hit: "random_bucket d1 (c_random rnd i) = Some es" "es \<noteq> []"
  shows "\<exists>e. dictGetRandomKey rnd d = Some (d1, Some e)"
proof -
  have i1: "dict_inv ty valid d1" "dict_cap d1 \<le> 2 ^ 31" "keeps d d1" using rehash_if_needed_spec [OF inv] cap d1 by auto
  have ne: "dict_entries d1 \<noteq> []" using hit random_bucket_entries by fastforce
  then obtain j es' where r: "random_chain d1 rnd 0 = Some (j, es')"
    using random_chain_returns [of d1 rnd 0 i es] random_bucket_defined [OF i1(1,2)] hit by auto
  have "dict_entries d \<noteq> []" using ne i1(3) by (metis keeps_def mset_zero_iff)
  then have "dictSize d \<noteq> 0" using dictSize_entries [OF inv] by simp
  moreover have "es' \<noteq> []" using random_chain_sound [OF r] by simp
  ultimately show ?thesis using r d1 by (auto simp: dictGetRandomKey_def cell_get_def)
qed

lemma rehash_some_spec:
  "dict_inv ty valid d \<Longrightarrow> \<exists>d'. rehash_some n d = Some d' \<and> dict_inv ty valid d' \<and> keeps d d'"
proof (induction n arbitrary: d)
  case (Suc n)
  show ?case
  proof (cases "dictIsRehashing d")
    case True
    obtain d1 where "dictRehashStep d = Some d1" "dict_inv ty valid d1" "keeps d d1"
      using rehash_if_needed_spec [OF Suc.prems] True by (auto simp: rehash_if_needed_def)
    then show ?thesis using Suc.IH [of d1] True keeps_trans by fastforce
  qed (use Suc.prems in simp)
qed simp

lemma somekeys_visit_spec:
  assumes inv: "dict_inv ty valid d" and s: "set (sk_stored s) \<subseteq> set (dict_entries d)" "length (sk_stored s) \<le> cnt"
  shows "\<exists>s'. somekeys_visit rnd d two cnt m j s = Some s' \<and> set (sk_stored s') \<subseteq> set (dict_entries d) \<and> length (sk_stored s') \<le> cnt"
proof (cases "two \<and> \<not> j \<and> int (sk_i s) < d_rehashidx d \<or> sk_i s \<ge> ht_size (ht_of d j)")
  case True
  then show ?thesis using s by (auto simp: somekeys_visit_def)
next
  case False
  have "ht_wf ty (ht_of d j)" using inv by (simp add: dict_inv_def ht_of_def)
  with False obtain b where b: "ht_get (ht_of d j) (sk_i s) = Some (b ! sk_i s)" using table_nth [of ty "ht_of d j" "sk_i s"] by force
  have "set (b ! sk_i s) \<subseteq> set (dict_entries d)" using ht_get_entries [OF b] by (auto simp: dict_entries_def ht_of_def split: if_splits)
  then have "set (take n (b ! sk_i s)) \<subseteq> set (dict_entries d)" for n using set_take_subset by fast
  then show ?thesis using False b s by (cases "b ! sk_i s = []") (auto simp: somekeys_visit_def)
qed

lemma somekeys_loop_spec:
  assumes inv: "dict_inv ty valid d"
  shows "set (sk_stored s) \<subseteq> set (dict_entries d) \<Longrightarrow> length (sk_stored s) \<le> cnt \<Longrightarrow>
    \<exists>es. somekeys_loop n rnd d two cnt m s = Some es \<and> set es \<subseteq> set (dict_entries d) \<and> length es \<le> cnt"
proof (induction n arbitrary: s)
  case (Suc n)
  obtain s1 where s1: "somekeys_visit rnd d two cnt m False s = Some s1" "set (sk_stored s1) \<subseteq> set (dict_entries d)" "length (sk_stored s1) \<le> cnt"
    using somekeys_visit_spec [OF inv Suc.prems] by blast
  obtain s2 where s2: "(if two then somekeys_visit rnd d two cnt m True s1 else Some s1) = Some s2"
    "set (sk_stored s2) \<subseteq> set (dict_entries d)" "length (sk_stored s2) \<le> cnt"
    using somekeys_visit_spec [OF inv s1(2,3)] s1(2,3) by (cases two) fastforce+
  show ?case using s1 s2 Suc.prems Suc.IH [of "s2\<lparr>sk_i := (sk_i s2 + 1) AND m\<rparr>"] by simp
qed simp

section \<open>Properties\<close>

text \<open>C20. Iterating over a dictionary with either kind of iterator until \<open>NULL\<close> returns every entry of
  both tables exactly once and nothing else, also in the middle of a rehash; releasing the iterator
  then succeeds (the fingerprint check of an unsafe iterator passes) and leaves the dictionary as
  it was. While a safe iterator is active, lookups do not move any entry.\<close>
theorem dict_iteration:
  assumes "dict_inv ty valid d" "dictSize d < n" "it = dictGetIterator \<or> it = dictGetSafeIterator" "0 \<le> d_iterators d"
  shows "\<exists>it' d'. iter_run addr n it d = Some (it', d', dict_entries d) \<and> dictReleaseIterator addr it' d' = Some d \<and>
    (di_safe it \<longrightarrow> rehash_if_needed d' = Some d')"
proof -
  note L = iter_left_new [OF assms(1,3)]
  have "length (iter_left it d) < n" using assms(2) dictSize_entries [OF assms(1)] L(1) by simp
  from iter_run_spec [OF assms(1) L(2) this, of addr] L(1) obtain it' d' where
    R: "iter_run addr n it d = Some (it', d', dict_entries d)" "started addr it d it' d'" by auto
  have i: "di_index it = -1" using assms(3) by (auto simp: dictGetIterator_def dictGetSafeIterator_def)
  show ?thesis
  proof (cases "di_safe it")
    case True
    then have "d' = d\<lparr>d_iterators := d_iterators d + 1\<rparr>" "di_safe it'" "di_index it' \<noteq> -1" using R(2) i by (simp_all add: started_def)
    then show ?thesis using R(1) assms(4)
      by (simp add: dictReleaseIterator_def rehash_if_needed_def dictRehashStep_def)
  next
    case False
    then have "d' = d" "\<not> di_safe it'" "di_fingerprint it' = dictFingerprint addr d" using R(2) i by (simp_all add: started_def)
    then show ?thesis using R(1) False by (simp add: dictReleaseIterator_def)
  qed
qed

theorem dict_iteration_witness:
  "\<exists>it' d'. iter_run (\<lambda>_. 0) 5 dictGetSafeIterator ex_dict = Some (it', d', [\<lparr>de_key = ''key'', de_val = Some 7\<rparr>]) \<and>
    dictReleaseIterator (\<lambda>_. 0) it' d' = Some ex_dict"
proof -
  have "dictSize ex_dict < 5" "0 \<le> d_iterators ex_dict" by (simp_all add: ex_dict_eq dictSize_def)
  from dict_iteration [OF ex_dict_facts(1) this(1) _ this(2), of dictGetSafeIterator "\<lambda>_. 0"] ex_dict_log(2)
  show ?thesis by auto
qed

text \<open>C27. The samplers return entries of the dictionary. \<open>dictGetRandomKey\<close> returns \<open>NULL\<close> for the empty
  dictionary. Otherwise it never leaves the tables: what it returns is an entry, and it does return as
  soon as one of the random numbers, each below \<open>2 ^ 31\<close>, falls on a bucket that is not empty. Every
  entry is the result for some sequence of such numbers, provided the tables have at most \<open>2 ^ 31\<close> slots
  together and there are fewer than \<open>2 ^ 31\<close> entries. \<open>dictGetSomeKeys\<close> always returns, with at most as
  many entries as asked for and as there are. Neither loses or adds an entry.\<close>

theorem dict_samplers:
  assumes "dict_inv ty valid d" "dict_cap d \<le> 2 ^ 31"
  shows "(dictSize d = 0 \<longrightarrow> dictGetRandomKey rnd d = Some (d, None)) \<and>
    (\<forall>d' e. dictGetRandomKey rnd d = Some (d', Some e) \<longrightarrow>
       e \<in> set (dict_entries d) \<and> mset (dict_entries d') = mset (dict_entries d)) \<and>
    (\<forall>d1 i es. rehash_if_needed d = Some d1 \<and> random_bucket d1 (c_random rnd i) = Some es \<and> es \<noteq> [] \<longrightarrow>
       (\<exists>e. dictGetRandomKey rnd d = Some (d1, Some e))) \<and>
    (\<forall>d1 e. rehash_if_needed d = Some d1 \<and> ht_size (d_ht0 d1) + ht_size (d_ht1 d1) \<le> 2 ^ 31 \<and> dictSize d < 2 ^ 31 \<and>
       e \<in> set (dict_entries d) \<longrightarrow> (\<exists>rnd. dictGetRandomKey rnd d = Some (d1, Some e))) \<and>
    (\<exists>d' es. dictGetSomeKeys rnd d n = Some (d', es) \<and> set es \<subseteq> set (dict_entries d) \<and> length es \<le> min n (dictSize d) \<and>
       mset (dict_entries d') = mset (dict_entries d))"
proof (intro conjI)
  show "dictSize d = 0 \<longrightarrow> dictGetRandomKey rnd d = Some (d, None)" by (simp add: dictGetRandomKey_def)
  show "\<forall>d' e. dictGetRandomKey rnd d = Some (d', Some e) \<longrightarrow>
      e \<in> set (dict_entries d) \<and> mset (dict_entries d') = mset (dict_entries d)"
    using dictGetRandomKey_sound [OF assms(1)] by blast
  show "\<forall>d1 i es. rehash_if_needed d = Some d1 \<and> random_bucket d1 (c_random rnd i) = Some es \<and> es \<noteq> [] \<longrightarrow>
      (\<exists>e. dictGetRandomKey rnd d = Some (d1, Some e))"
    using dictGetRandomKey_returns [OF assms] by blast
  show "\<forall>d1 e. rehash_if_needed d = Some d1 \<and> ht_size (d_ht0 d1) + ht_size (d_ht1 d1) \<le> 2 ^ 31 \<and> dictSize d < 2 ^ 31 \<and>
      e \<in> set (dict_entries d) \<longrightarrow> (\<exists>rnd. dictGetRandomKey rnd d = Some (d1, Some e))"
    using dictGetRandomKey_reaches [OF assms(1)] by blast
  let ?c = "if dictSize d < n then dictSize d else n"
  obtain d1 where d1: "rehash_some ?c d = Some d1" "dict_inv ty valid d1" "keeps d d1" using rehash_some_spec [OF assms(1)] by blast
  let ?m = "if dictIsRehashing d1 \<and> ht_sizemask (d_ht0 d1) < ht_sizemask (d_ht1 d1) then ht_sizemask (d_ht1 d1) else ht_sizemask (d_ht0 d1)"
  let ?s = "\<lparr>sk_i = c_random rnd 0 AND ?m, sk_emptylen = 0, sk_stored = [], sk_rnd = 1\<rparr> :: ('a, 'b) somekeys"
  have "set (sk_stored ?s) \<subseteq> set (dict_entries d1)" "length (sk_stored ?s) \<le> ?c" by simp_all
  from somekeys_loop_spec [OF d1(2) this, where n = "?c * 10 mod 2 ^ 32" and rnd = rnd and two = "dictIsRehashing d1" and m = ?m]
  obtain es where "somekeys_loop (?c * 10 mod 2 ^ 32) rnd d1 (dictIsRehashing d1) ?c ?m ?s = Some es"
    "set es \<subseteq> set (dict_entries d1)" "length es \<le> ?c" by blast
  moreover have "set (dict_entries d1) = set (dict_entries d)" using d1(3) by (metis keeps_def set_mset_mset)
  ultimately show "\<exists>d' es. dictGetSomeKeys rnd d n = Some (d', es) \<and> set es \<subseteq> set (dict_entries d) \<and>
      length es \<le> min n (dictSize d) \<and> mset (dict_entries d') = mset (dict_entries d)"
    using d1(1,3) by (intro exI [of _ d1] exI [of _ es]) (simp add: dictGetSomeKeys_def Let_def keeps_def split: if_splits)
qed

theorem dict_samplers_witness:
  "\<exists>rnd d'. dictGetRandomKey rnd ex_dict = Some (d', Some \<lparr>de_key = ''key'', de_val = Some 7\<rparr>)"
proof -
  have c: "dict_cap ex_dict \<le> 8" "dictSize ex_dict < 2 ^ 31" by (simp_all add: ex_dict_eq dict_cap_def dictSize_def)
  obtain d1 where d1: "rehash_if_needed ex_dict = Some d1" "dict_cap d1 \<le> dict_cap ex_dict"
    using rehash_if_needed_spec [OF ex_dict_facts(1)] by blast
  then have "dict_cap d1 \<le> 8" using c(1) by simp
  then have "ht_size (d_ht0 d1) + ht_size (d_ht1 d1) \<le> 2 ^ 31" "dict_cap ex_dict \<le> 2 ^ 31" using c(1) by (simp_all add: dict_cap_def)
  then show ?thesis using dict_samplers [OF ex_dict_facts(1), of "\<lambda>_. 0" 1] d1(1) c(2) ex_dict_log(2) by auto
qed

end
