(* ===== verification/Reply.thy ===== *)
theory Reply
  imports Object
begin

text \<open>
  The output side of a client, \<open>src/redis-stable/src/networking.c\<close>: the static buffer, the list of
  reply chunks behind it, the functions that add replies in the Redis protocol, and the loop that
  writes them to the socket. What matters of a chunk is its text (\<^term>\<open>None\<close> while a deferred
  length is not known) and whether its encoding is \<open>RAW\<close>, which decides if more text is glued
  to it. The accounting of memory (\<open>reply_bytes\<close> and the output buffer limits) is left out.
\<close>

section \<open>Data\<close>

record chunk =
  ch_text :: "string option"
  ch_raw :: bool

record client =
  cl_fd :: int
  cl_lua :: bool
  cl_reply_off :: bool
  cl_reply_skip :: bool
  cl_master :: bool
  cl_master_force_reply :: bool
  cl_close_after_reply :: bool
  cl_pending_write :: bool
  cl_replstate :: nat
  cl_put_online_on_ack :: bool
  cl_buf :: string
  cl_reply :: "chunk list"
  cl_sentlen :: nat

definition PROTO_REPLY_CHUNK_BYTES :: nat where
  "PROTO_REPLY_CHUNK_BYTES = 16 * 1024"

definition NET_MAX_WRITES_PER_EVENT :: nat where
  "NET_MAX_WRITES_PER_EVENT = 1024 * 64"

definition OBJ_SHARED_BULKHDR_LEN :: int where
  "OBJ_SHARED_BULKHDR_LEN = 32"

definition REPL_STATE_NONE :: nat where
  "REPL_STATE_NONE = 0"

definition SLAVE_STATE_WAIT_BGSAVE_START :: nat where
  "SLAVE_STATE_WAIT_BGSAVE_START = 6"

definition SLAVE_STATE_ONLINE :: nat where
  "SLAVE_STATE_ONLINE = 9"

definition CRLF :: string where
  "CRLF = [CHR 0x0D, CHR 0x0A]"

section \<open>Buffers\<close>

definition clientHasPendingReplies :: "'a client_scheme \<Rightarrow> bool" where
  "clientHasPendingReplies c \<longleftrightarrow> cl_buf c \<noteq> [] \<or> cl_reply c \<noteq> []"

text \<open>The Boolean is \<open>C_OK\<close>. The flag \<open>cl_pending_write\<close> is set when the client is put into
  \<open>server.clients_pending_write\<close>.\<close>

definition prepareClientToWrite :: "'a client_scheme \<Rightarrow> 'a client_scheme \<times> bool" where
  "prepareClientToWrite c =
     (if cl_lua c then (c, True)
      else if cl_reply_off c \<or> cl_reply_skip c then (c, False)
      else if cl_master c \<and> \<not> cl_master_force_reply c then (c, False)
      else if cl_fd c \<le> 0 then (c, False)
      else if \<not> clientHasPendingReplies c \<and> \<not> cl_pending_write c \<and>
              (cl_replstate c = REPL_STATE_NONE \<or> cl_replstate c = SLAVE_STATE_ONLINE \<and> \<not> cl_put_online_on_ack c)
      then (c\<lparr>cl_pending_write := True\<rparr>, True)
      else (c, True))"

definition addReplyToBuffer :: "'a client_scheme \<Rightarrow> string \<Rightarrow> 'a client_scheme \<times> bool" where
  "addReplyToBuffer c s =
     (if cl_close_after_reply c then (c, True)
      else if cl_reply c \<noteq> [] then (c, False)
      else if length s > PROTO_REPLY_CHUNK_BYTES - length (cl_buf c) then (c, False)
      else (c\<lparr>cl_buf := cl_buf c @ s\<rparr>, True))"

text \<open>The three functions that append to the list differ in the chunk they create: the object itself, a
  \<open>RAW\<close> object, or a string object that is embedded when it is short.\<close>

definition addReplyToList :: "'a client_scheme \<Rightarrow> string \<Rightarrow> bool \<Rightarrow> 'a client_scheme" where
  "addReplyToList c s raw =
     (if cl_close_after_reply c then c
      else if cl_reply c = [] then c\<lparr>cl_reply := [\<lparr>ch_text = Some s, ch_raw = raw\<rparr>]\<rparr>
      else
        (case ch_text (last (cl_reply c)) of
           Some t \<Rightarrow>
             if ch_raw (last (cl_reply c)) \<and> length t + length s \<le> PROTO_REPLY_CHUNK_BYTES
             then c\<lparr>cl_reply := butlast (cl_reply c) @ [\<lparr>ch_text = Some (t @ s), ch_raw = True\<rparr>]\<rparr>
             else c\<lparr>cl_reply := cl_reply c @ [\<lparr>ch_text = Some s, ch_raw = raw\<rparr>]\<rparr>
         | None \<Rightarrow> c\<lparr>cl_reply := cl_reply c @ [\<lparr>ch_text = Some s, ch_raw = raw\<rparr>]\<rparr>))"

definition addReplyObjectToList :: "'a client_scheme \<Rightarrow> string \<Rightarrow> bool \<Rightarrow> 'a client_scheme" where
  "addReplyObjectToList c s raw = addReplyToList c s raw"

definition addReplySdsToList :: "'a client_scheme \<Rightarrow> string \<Rightarrow> 'a client_scheme" where
  "addReplySdsToList c s = addReplyToList c s True"

definition addReplyStringToList :: "'a client_scheme \<Rightarrow> string \<Rightarrow> 'a client_scheme" where
  "addReplyStringToList c s = addReplyToList c s (length s > OBJ_ENCODING_EMBSTR_SIZE_LIMIT)"

section \<open>Adding replies\<close>

definition addReplyText :: "'a client_scheme \<Rightarrow> string \<Rightarrow> bool \<Rightarrow> 'a client_scheme" where
  "addReplyText c s raw =
     (case addReplyToBuffer c s of (c1, ok) \<Rightarrow> if ok then c1 else addReplyObjectToList c1 s raw)"

definition addReply :: "'a client_scheme \<Rightarrow> 'p robj \<Rightarrow> 'a client_scheme option" where
  "addReply c obj =
     (case prepareClientToWrite c of (c, ok) \<Rightarrow>
        if \<not> ok then Some c
        else if sdsEncodedObject obj
        then map_option (\<lambda>s. addReplyText c s (o_encoding obj = OBJ_ENCODING_RAW)) (ptr_sds (o_ptr obj))
        else if o_encoding obj = OBJ_ENCODING_INT
        then do {
          v \<leftarrow> ptr_int (o_ptr obj);
          s \<leftarrow> ll_text 32 v;
          (if cl_reply c = [] \<and> PROTO_REPLY_CHUNK_BYTES - length (cl_buf c) \<ge> 32 \<and> snd (addReplyToBuffer c s)
           then Some (fst (addReplyToBuffer c s))
           else Some (addReplyText c s (length s > OBJ_ENCODING_EMBSTR_SIZE_LIMIT)))
        }
        else None)"

text \<open>A shared object, created with \<open>createObject\<close> from its text.\<close>

definition addReplyShared :: "'a client_scheme \<Rightarrow> string \<Rightarrow> 'a client_scheme" where
  "addReplyShared c s =
     (case prepareClientToWrite c of (c, ok) \<Rightarrow> if ok then addReplyText c s True else c)"

definition addReplySds :: "'a client_scheme \<Rightarrow> string \<Rightarrow> 'a client_scheme" where
  "addReplySds c s =
     (case prepareClientToWrite c of (c, ok) \<Rightarrow>
        if \<not> ok then c
        else (case addReplyToBuffer c s of (c1, ok) \<Rightarrow> if ok then c1 else addReplySdsToList c1 s))"

definition addReplyString :: "'a client_scheme \<Rightarrow> string \<Rightarrow> 'a client_scheme" where
  "addReplyString c s =
     (case prepareClientToWrite c of (c, ok) \<Rightarrow>
        if \<not> ok then c
        else (case addReplyToBuffer c s of (c1, ok) \<Rightarrow> if ok then c1 else addReplyStringToList c1 s))"

definition addReplyErrorLength :: "'a client_scheme \<Rightarrow> string \<Rightarrow> 'a client_scheme" where
  "addReplyErrorLength c s = addReplyString (addReplyString (addReplyString c ''-ERR '') s) CRLF"

text \<open>The part of a text that a function sees that takes a C string.\<close>

definition c_text :: "string \<Rightarrow> string" where
  "c_text s = takeWhile (\<lambda>x. x \<noteq> NUL) s"

definition addReplyError :: "'a client_scheme \<Rightarrow> string \<Rightarrow> 'a client_scheme" where
  "addReplyError c err = addReplyErrorLength c (c_text err)"

text \<open>\<open>s\<close> is the formatted text, which \<open>sdscatvprintf\<close> appends as a C string.\<close>

definition addReplyErrorFormat :: "'a client_scheme \<Rightarrow> string \<Rightarrow> 'a client_scheme" where
  "addReplyErrorFormat c s =
     addReplyErrorLength c (map (\<lambda>x. if x = CHR 0x0D \<or> x = CHR 0x0A then CHR '' '' else x) (c_text s))"

definition addReplyStatusLength :: "'a client_scheme \<Rightarrow> string \<Rightarrow> 'a client_scheme" where
  "addReplyStatusLength c s = addReplyString (addReplyString (addReplyString c ''+'') s) CRLF"

definition addReplyStatus :: "'a client_scheme \<Rightarrow> string \<Rightarrow> 'a client_scheme" where
  "addReplyStatus c status = addReplyStatusLength c (c_text status)"

text \<open>The node of the deferred length is its index in the list of chunks.\<close>

definition addDeferredMultiBulkLength :: "'a client_scheme \<Rightarrow> 'a client_scheme \<times> nat option" where
  "addDeferredMultiBulkLength c =
     (case prepareClientToWrite c of (c, ok) \<Rightarrow>
        if \<not> ok then (c, None)
        else (c\<lparr>cl_reply := cl_reply c @ [\<lparr>ch_text = None, ch_raw = True\<rparr>]\<rparr>, Some (length (cl_reply c))))"

definition setDeferredMultiBulkLength :: "'a client_scheme \<Rightarrow> nat option \<Rightarrow> int \<Rightarrow> 'a client_scheme option" where
  "setDeferredMultiBulkLength c node len =
     (case node of
        None \<Rightarrow> Some c
      | Some n \<Rightarrow>
          let t = ''*'' @ dec_int len @ CRLF; r = cl_reply c
          in if n \<ge> length r then None
             else if n + 1 < length r \<and> ch_text (r ! (n + 1)) \<noteq> None
             then Some (c\<lparr>cl_reply := take n r @ [\<lparr>ch_text = Some (t @ the (ch_text (r ! (n + 1)))), ch_raw = True\<rparr>] @ drop (n + 2) r\<rparr>)
             else Some (c\<lparr>cl_reply := r[n := \<lparr>ch_text = Some t, ch_raw = True\<rparr>]\<rparr>))"

definition addReplyLongLongWithPrefix :: "'a client_scheme \<Rightarrow> int \<Rightarrow> char \<Rightarrow> 'a client_scheme option" where
  "addReplyLongLongWithPrefix c ll prefix =
     (if prefix = CHR ''*'' \<and> ll < OBJ_SHARED_BULKHDR_LEN \<and> ll \<ge> 0 then Some (addReplyShared c (''*'' @ dec_int ll @ CRLF))
      else if prefix = CHR ''$'' \<and> ll < OBJ_SHARED_BULKHDR_LEN \<and> ll \<ge> 0 then Some (addReplyShared c (''$'' @ dec_int ll @ CRLF))
      else do { s \<leftarrow> ll_text 127 ll; Some (addReplyString c (prefix # s @ CRLF)) })"

definition addReplyLongLong :: "'a client_scheme \<Rightarrow> int \<Rightarrow> 'a client_scheme option" where
  "addReplyLongLong c ll =
     (if ll = 0 then Some (addReplyShared c ('':0'' @ CRLF))
      else if ll = 1 then Some (addReplyShared c ('':1'' @ CRLF))
      else addReplyLongLongWithPrefix c ll CHR '':'')"

text \<open>A negative length would index \<open>shared.mbulkhdr\<close> out of its bounds.\<close>

definition addReplyMultiBulkLen :: "'a client_scheme \<Rightarrow> int \<Rightarrow> 'a client_scheme option" where
  "addReplyMultiBulkLen c len =
     (if len < OBJ_SHARED_BULKHDR_LEN
      then if len < 0 then None else Some (addReplyShared c (''*'' @ dec_int len @ CRLF))
      else addReplyLongLongWithPrefix c len CHR ''*'')"

function bulk_digits :: "nat \<Rightarrow> nat \<Rightarrow> nat" where
  "bulk_digits n len = (if n div 10 \<noteq> 0 then bulk_digits (n div 10) (len + 1) else len)"
  by pat_completeness auto
termination
  by (relation "measure fst") auto

declare bulk_digits.simps [simp del]

text \<open>The negation of the least \<open>long\<close> overflows.\<close>

definition addReplyBulkLen :: "'a client_scheme \<Rightarrow> 'p robj \<Rightarrow> 'a client_scheme option" where
  "addReplyBulkLen c obj =
     do {
       len \<leftarrow> (if sdsEncodedObject obj then map_option length (ptr_sds (o_ptr obj))
              else do {
                n \<leftarrow> ptr_int (o_ptr obj);
                (if n = - (2 ^ 63) then None
                 else if n < 0 then Some (bulk_digits (nat (- n)) 2) else Some (bulk_digits (nat n) 1))
              });
       (if int len < OBJ_SHARED_BULKHDR_LEN then Some (addReplyShared c (''$'' @ dec_nat len @ CRLF))
        else addReplyLongLongWithPrefix c (int len) CHR ''$'')
     }"

definition addReplyBulk :: "'a client_scheme \<Rightarrow> 'p robj \<Rightarrow> 'a client_scheme option" where
  "addReplyBulk c obj =
     do {
       c \<leftarrow> addReplyBulkLen c obj;
       c \<leftarrow> addReply c obj;
       Some (addReplyShared c CRLF)
     }"

definition addReplyBulkCBuffer :: "'a client_scheme \<Rightarrow> string \<Rightarrow> 'a client_scheme option" where
  "addReplyBulkCBuffer c p =
     do {
       c \<leftarrow> addReplyLongLongWithPrefix c (int (length p)) CHR ''$'';
       Some (addReplyShared (addReplyString c p) CRLF)
     }"

text \<open>The format \<open>%u\<close> takes the 32 bits of an \<open>unsigned int\<close>.\<close>

definition addReplyBulkSds :: "'a client_scheme \<Rightarrow> string \<Rightarrow> 'a client_scheme" where
  "addReplyBulkSds c s = addReplyShared (addReplySds (addReplySds c (''$'' @ sdsull2str (length s mod 2 ^ 32) @ CRLF)) s) CRLF"

definition addReplyBulkCString :: "'a client_scheme \<Rightarrow> string option \<Rightarrow> 'a client_scheme option" where
  "addReplyBulkCString c s =
     (case s of None \<Rightarrow> Some (addReplyShared c (''$-1'' @ CRLF)) | Some p \<Rightarrow> addReplyBulkCBuffer c (c_text p))"

definition addReplyBulkLongLong :: "'a client_scheme \<Rightarrow> int \<Rightarrow> 'a client_scheme option" where
  "addReplyBulkLongLong c ll = do { s \<leftarrow> ll_text 64 ll; addReplyBulkCBuffer c s }"

definition copyClientOutputBuffer :: "'a client_scheme \<Rightarrow> 'a client_scheme \<Rightarrow> 'a client_scheme" where
  "copyClientOutputBuffer dst src = dst\<lparr>cl_reply := cl_reply src, cl_buf := cl_buf src\<rparr>"

section \<open>Writing to the socket\<close>

text \<open>\<open>wr i n\<close> is the result of the \<open>i\<close>-th call of \<open>write\<close>, for \<open>n\<close> bytes; more than
  \<open>n\<close> is impossible. The loop returns the client, the bytes that went out and
  the last result.\<close>

definition write_next :: "(nat \<Rightarrow> nat \<Rightarrow> int) \<Rightarrow> nat \<Rightarrow> string \<Rightarrow> nat \<Rightarrow> int option" where
  "write_next wr i piece sentlen =
     (if sentlen > length piece then None
      else let n = length piece - sentlen in if wr i n > int n then None else Some (wr i n))"

partial_function (option) write_loop ::
  "(nat \<Rightarrow> nat \<Rightarrow> int) \<Rightarrow> bool \<Rightarrow> nat \<Rightarrow> nat \<Rightarrow> int \<Rightarrow> 'a client_scheme \<Rightarrow> ('a client_scheme \<times> string \<times> int) option" where
  "write_loop wr over i tot nwritten c =
     (if \<not> clientHasPendingReplies c then Some (c, [], nwritten)
      else if cl_buf c \<noteq> [] then
        do {
          n \<leftarrow> write_next wr i (cl_buf c) (cl_sentlen c);
          (if n \<le> 0 then Some (c, [], n)
           else
             (let out = take (nat n) (drop (cl_sentlen c) (cl_buf c));
                  sent = cl_sentlen c + nat n;
                  c1 = (if sent = length (cl_buf c) then c\<lparr>cl_buf := [], cl_sentlen := 0\<rparr> else c\<lparr>cl_sentlen := sent\<rparr>)
              in if tot + nat n > NET_MAX_WRITES_PER_EVENT \<and> \<not> over then Some (c1, out, n)
                 else do { (c2, out', n') \<leftarrow> write_loop wr over (i + 1) (tot + nat n) n c1; Some (c2, out @ out', n') }))
        }
      else
        do {
          text \<leftarrow> ch_text (hd (cl_reply c));
          (if text = [] then write_loop wr over i tot nwritten (c\<lparr>cl_reply := tl (cl_reply c)\<rparr>)
           else do {
             n \<leftarrow> write_next wr i text (cl_sentlen c);
             (if n \<le> 0 then Some (c, [], n)
              else
                (let out = take (nat n) (drop (cl_sentlen c) text);
                     sent = cl_sentlen c + nat n;
                     c1 = (if sent = length text then c\<lparr>cl_reply := tl (cl_reply c), cl_sentlen := 0\<rparr> else c\<lparr>cl_sentlen := sent\<rparr>)
                 in if tot + nat n > NET_MAX_WRITES_PER_EVENT \<and> \<not> over then Some (c1, out, n)
                    else do { (c2, out', n') \<leftarrow> write_loop wr over (i + 1) (tot + nat n) n c1; Some (c2, out @ out', n') }))
           })
        })"

text \<open>\<open>over\<close>: the memory limit is reached; \<open>eagain\<close>: a failed \<open>write\<close> set \<open>EAGAIN\<close>. The
  Boolean result is \<open>C_OK\<close>, otherwise the client was freed.\<close>

definition writeToClient ::
  "(nat \<Rightarrow> nat \<Rightarrow> int) \<Rightarrow> bool \<Rightarrow> bool \<Rightarrow> 'a client_scheme \<Rightarrow> ('a client_scheme \<times> string \<times> bool) option" where
  "writeToClient wr over eagain c =
     do {
       (c1, out, n) \<leftarrow> write_loop wr over 0 0 0 c;
       (if n = -1 \<and> \<not> eagain then Some (c1, out, False)
        else if \<not> clientHasPendingReplies c1 then Some (c1\<lparr>cl_sentlen := 0\<rparr>, out, \<not> cl_close_after_reply c1)
        else Some (c1, out, True))
     }"

section \<open>The reply stream\<close>

definition chunk_str :: "chunk \<Rightarrow> string" where
  "chunk_str ch = (case ch_text ch of None \<Rightarrow> [] | Some s \<Rightarrow> s)"

text \<open>Everything queued for the client, in the order in which it is sent.\<close>

definition out_stream :: "'a client_scheme \<Rightarrow> string" where
  "out_stream c = cl_buf c @ concat (map chunk_str (cl_reply c))"

definition accepts :: "'a client_scheme \<Rightarrow> bool" where
  "accepts c \<longleftrightarrow> snd (prepareClientToWrite c) \<and> \<not> cl_close_after_reply c"

definition bulk :: "string \<Rightarrow> string" where
  "bulk s = ''$'' @ dec_nat (length s) @ CRLF @ s @ CRLF"

lemma prepare_simps [simp]:
  "cl_buf (fst (prepareClientToWrite c)) = cl_buf c" "cl_reply (fst (prepareClientToWrite c)) = cl_reply c"
  "cl_sentlen (fst (prepareClientToWrite c)) = cl_sentlen c"
  "cl_close_after_reply (fst (prepareClientToWrite c)) = cl_close_after_reply c"
  "snd (prepareClientToWrite (fst (prepareClientToWrite c))) = snd (prepareClientToWrite c)"
  by (simp_all add: prepareClientToWrite_def)

lemma prepare_buf [simp]: "snd (prepareClientToWrite (c\<lparr>cl_buf := b\<rparr>)) = snd (prepareClientToWrite c)"
  "snd (prepareClientToWrite (c\<lparr>cl_reply := r\<rparr>)) = snd (prepareClientToWrite c)"
  by (simp_all add: prepareClientToWrite_def)

lemma accepts_prepare [simp]: "accepts (fst (prepareClientToWrite c)) = accepts c" "out_stream (fst (prepareClientToWrite c)) = out_stream c"
  by (simp_all add: accepts_def out_stream_def)

lemma addReplyToList_output:
  "out_stream (addReplyToList c s raw) = out_stream c @ (if cl_close_after_reply c then [] else s)"
  "accepts (addReplyToList c s raw) = accepts c"
proof -
  have l: "map chunk_str (cl_reply c) = map chunk_str (butlast (cl_reply c)) @ [chunk_str (last (cl_reply c))]" if "cl_reply c \<noteq> []"
    using that by (metis append_butlast_last_id list.map(1,2) map_append)
  show "out_stream (addReplyToList c s raw) = out_stream c @ (if cl_close_after_reply c then [] else s)"
    using l by (auto simp: addReplyToList_def out_stream_def chunk_str_def split: option.splits)
  show "accepts (addReplyToList c s raw) = accepts c"
    by (auto simp: addReplyToList_def accepts_def split: option.splits)
qed

lemma addReplyToBuffer_output:
  assumes "addReplyToBuffer c s = (c1, ok)"
  shows "accepts c1 = accepts c" "ok \<Longrightarrow> out_stream c1 = out_stream c @ (if cl_close_after_reply c then [] else s)" "\<not> ok \<Longrightarrow> c1 = c"
  using assms by (auto simp: addReplyToBuffer_def out_stream_def accepts_def split: if_splits)

lemmas list_defs = addReplyObjectToList_def addReplySdsToList_def addReplyStringToList_def

lemma addReplyText_output:
  "\<not> cl_close_after_reply c \<Longrightarrow> out_stream (addReplyText c s raw) = out_stream c @ s" "accepts (addReplyText c s raw) = accepts c"
proof -
  obtain c1 ok where b: "addReplyToBuffer c s = (c1, ok)" by (cases "addReplyToBuffer c s")
  note B = addReplyToBuffer_output [OF b]
  show "\<not> cl_close_after_reply c \<Longrightarrow> out_stream (addReplyText c s raw) = out_stream c @ s"
    using B(2,3) by (cases ok) (simp_all add: addReplyText_def b list_defs addReplyToList_output)
  show "accepts (addReplyText c s raw) = accepts c"
    using B(1,3) by (cases ok) (simp_all add: addReplyText_def b list_defs addReplyToList_output)
qed

text \<open>The client after \<open>prepareClientToWrite\<close>.\<close>

lemma accepts_cases:
  assumes "accepts c"
  obtains c0 where "prepareClientToWrite c = (c0, True)" "accepts c0" "out_stream c0 = out_stream c" "\<not> cl_close_after_reply c0"
    "cl_reply c0 = cl_reply c" "cl_buf c0 = cl_buf c" "cl_sentlen c0 = cl_sentlen c"
proof -
  have "prepareClientToWrite c = (fst (prepareClientToWrite c), True)" using assms by (simp add: accepts_def prod_eq_iff)
  then show ?thesis using that assms accepts_prepare [of c] prepare_simps [of c] by (simp add: accepts_def)
qed

lemma addReplyShared_output [simp]:
  assumes "accepts c"
  shows "out_stream (addReplyShared c s) = out_stream c @ s" "accepts (addReplyShared c s)"
proof -
  obtain c0 where "prepareClientToWrite c = (c0, True)" "accepts c0" "out_stream c0 = out_stream c" "\<not> cl_close_after_reply c0"
    using assms by (rule accepts_cases)
  then show "out_stream (addReplyShared c s) = out_stream c @ s" "accepts (addReplyShared c s)"
    by (simp_all add: addReplyShared_def addReplyText_output)
qed

lemma addReplyString_output [simp]:
  assumes "accepts c"
  shows "out_stream (addReplyString c s) = out_stream c @ s" "accepts (addReplyString c s)"
    "out_stream (addReplySds c s) = out_stream c @ s" "accepts (addReplySds c s)"
proof -
  obtain c0 where p: "prepareClientToWrite c = (c0, True)" "accepts c0" "out_stream c0 = out_stream c" "\<not> cl_close_after_reply c0"
    using assms by (rule accepts_cases)
  obtain c1 ok where b: "addReplyToBuffer c0 s = (c1, ok)" by (cases "addReplyToBuffer c0 s")
  note B = addReplyToBuffer_output [OF b]
  show "out_stream (addReplyString c s) = out_stream c @ s" "out_stream (addReplySds c s) = out_stream c @ s"
    using B(2,3) p by (cases ok; simp add: addReplyString_def addReplySds_def b list_defs addReplyToList_output)+
  show "accepts (addReplyString c s)" "accepts (addReplySds c s)"
    using B(1,3) p by (cases ok; simp add: addReplyString_def addReplySds_def b list_defs addReplyToList_output)+
qed

lemma addReply_output:
  assumes "accepts c" "str_obj obj"
  shows "\<exists>c'. addReply c obj = Some c' \<and> out_stream c' = out_stream c @ obj_text obj \<and> accepts c'"
proof -
  obtain c0 where p: "prepareClientToWrite c = (c0, True)" "accepts c0" "out_stream c0 = out_stream c" "\<not> cl_close_after_reply c0"
    using assms(1) by (rule accepts_cases)
  from assms(2) show ?thesis
  proof (cases rule: str_obj_cases)
    case (sds s av)
    then show ?thesis using p by (simp add: addReply_def addReplyText_output)
  next
    case (num v)
    then have t: "ll_text 32 v = Some (obj_text obj)" by (simp add: ll_text_spec)
    obtain c1 ok where b: "addReplyToBuffer c0 (obj_text obj) = (c1, ok)" by (cases "addReplyToBuffer c0 (obj_text obj)")
    note B = addReplyToBuffer_output [OF b]
    have "out_stream (addReplyText c0 (obj_text obj) r) = out_stream c @ obj_text obj \<and> accepts (addReplyText c0 (obj_text obj) r)" for r
      using p by (simp add: addReplyText_output)
    then show ?thesis using num(1-3) t p B(1,2) by (simp add: addReply_def b)
  qed
qed

lemma bulk_digits_spec: "bulk_digits n (Suc len) = len + length (dec_nat n)"
proof (induction n arbitrary: len rule: less_induct)
  case (less n)
  show ?case
  proof (cases "n div 10 = 0")
    case True
    then show ?thesis by (subst bulk_digits.simps, subst dec_nat.simps) simp
  next
    case False
    then have "n div 10 < n" "\<not> n < 10" by auto
    then show ?thesis using False less.IH [of "n div 10" "Suc len"]
      by (subst bulk_digits.simps, subst dec_nat.simps) simp
  qed
qed

lemma dec_int_nat [simp]: "dec_int (int n) = dec_nat n"
  by (simp add: dec_int_def)

lemma prefix_output:
  assumes "accepts c" "int64 ll"
  shows "\<exists>c'. addReplyLongLongWithPrefix c ll p = Some c' \<and> out_stream c' = out_stream c @ p # dec_int ll @ CRLF \<and> accepts c'"
  using assms by (auto simp: addReplyLongLongWithPrefix_def ll_text_spec)

lemma addReplyBulkLen_output:
  assumes "accepts c" "str_obj obj" "obj_text obj \<noteq> dec_int (- (2 ^ 63))" "length (obj_text obj) < 2 ^ 63"
  shows "\<exists>c'. addReplyBulkLen c obj = Some c' \<and> out_stream c' = out_stream c @ ''$'' @ dec_nat (length (obj_text obj)) @ CRLF \<and> accepts c'"
proof -
  let ?n = "length (obj_text obj)"
  have "(if sdsEncodedObject obj then map_option length (ptr_sds (o_ptr obj))
    else do { n \<leftarrow> ptr_int (o_ptr obj); (if n = - (2 ^ 63) then None
      else if n < 0 then Some (bulk_digits (nat (- n)) 2) else Some (bulk_digits (nat n) 1)) }) = Some ?n"
    using assms(2)
  proof (cases rule: str_obj_cases)
    case (num v)
    then have "v \<noteq> - (2 ^ 63)" using assms(3) by auto
    then show ?thesis using num bulk_digits_spec [of "nat (- v)" 1] bulk_digits_spec [of "nat v" 0]
      by (auto simp: dec_int_def numeral_2_eq_2)
  qed simp
  moreover have "int64 (int ?n)" using assms(4) by (simp add: int64_def)
  ultimately show ?thesis using assms(1) prefix_output [OF assms(1), of "int ?n" "CHR ''$''"]
    unfolding addReplyBulkLen_def by (simp add: bind_eq_Some_conv)
qed

lemma addReplyBulk_output:
  assumes "accepts c" "str_obj obj" "obj_text obj \<noteq> dec_int (- (2 ^ 63))" "length (obj_text obj) < 2 ^ 63"
  shows "\<exists>c'. addReplyBulk c obj = Some c' \<and> out_stream c' = out_stream c @ bulk (obj_text obj) \<and> accepts c'"
proof -
  obtain c1 where c1: "addReplyBulkLen c obj = Some c1" "out_stream c1 = out_stream c @ ''$'' @ dec_nat (length (obj_text obj)) @ CRLF" "accepts c1"
    using addReplyBulkLen_output [OF assms] by blast
  obtain c2 where "addReply c1 obj = Some c2" "out_stream c2 = out_stream c1 @ obj_text obj" "accepts c2"
    using addReply_output [OF c1(3) assms(2)] by blast
  then show ?thesis using c1 by (simp add: addReplyBulk_def bulk_def)
qed

section \<open>Deferred lengths\<close>

text \<open>The chunks behind a deferred length, while the reply goes on.\<close>

definition deferred :: "'a client_scheme \<Rightarrow> chunk list \<Rightarrow> string \<Rightarrow> string \<Rightarrow> bool" where
  "deferred c r b s \<longleftrightarrow> accepts c \<and> cl_buf c = b \<and>
     (\<exists>l. cl_reply c = r @ \<lparr>ch_text = None, ch_raw = True\<rparr> # l \<and> concat (map chunk_str l) = s \<and> (\<forall>ch \<in> set l. ch_text ch \<noteq> None))"

lemma deferred_string:
  assumes "deferred c r b s"
  shows "deferred (addReplyString c t) r b (s @ t)"
proof -
  obtain l where l: "cl_reply c = r @ \<lparr>ch_text = None, ch_raw = True\<rparr> # l" "concat (map chunk_str l) = s"
    "\<forall>ch \<in> set l. ch_text ch \<noteq> None" "accepts c" "cl_buf c = b" using assms by (auto simp: deferred_def)
  obtain c0 where c0: "prepareClientToWrite c = (c0, True)" "accepts c0" "\<not> cl_close_after_reply c0" "cl_reply c0 = cl_reply c" "cl_buf c0 = b"
    using accepts_cases [OF l(4)] l(5) by metis
  have ne: "cl_reply c0 \<noteq> []" using c0(4) l(1) by simp
  then have b: "addReplyToBuffer c0 t = (c0, False)" using c0(3) by (simp add: addReplyToBuffer_def)
  let ?raw = "length t > OBJ_ENCODING_EMBSTR_SIZE_LIMIT"
  have eq: "addReplyString c t = addReplyToList c0 t ?raw" using c0(1) b by (simp add: addReplyString_def addReplyStringToList_def)
  have acc: "accepts (addReplyToList c0 t ?raw)" using c0(2) by (simp add: addReplyToList_output)
  show ?thesis
  proof (cases l rule: rev_cases)
    case Nil
    then show ?thesis using c0 l(1,2) acc ne unfolding eq deferred_def
      by (auto simp: addReplyToList_def chunk_str_def)
  next
    case (snoc l' ch)
    then obtain u where u: "ch_text ch = Some u" using l(3) by auto
    then show ?thesis using c0 l(1-3) snoc acc ne unfolding eq deferred_def
      by (auto simp: addReplyToList_def chunk_str_def butlast_append)
  qed
qed

lemma deferred_strings: "deferred c r b s \<Longrightarrow> deferred (fold (\<lambda>t c. addReplyString c t) ts c) r b (s @ concat ts)"
proof (induction ts arbitrary: c s)
  case (Cons t ts)
  then show ?case using Cons.IH [OF deferred_string [OF Cons.prems, of t]] by simp
qed simp

lemma deferred_set:
  assumes "deferred c r b s"
  shows "\<exists>c'. setDeferredMultiBulkLength c (Some (length r)) n = Some c' \<and>
    out_stream c' = b @ concat (map chunk_str r) @ ''*'' @ dec_int n @ CRLF @ s"
proof -
  obtain l where l: "cl_reply c = r @ \<lparr>ch_text = None, ch_raw = True\<rparr> # l" "concat (map chunk_str l) = s"
    "\<forall>ch \<in> set l. ch_text ch \<noteq> None" "cl_buf c = b" using assms by (auto simp: deferred_def)
  show ?thesis
  proof (cases l)
    case Nil
    then show ?thesis using l by (simp add: setDeferredMultiBulkLength_def Let_def out_stream_def chunk_str_def)
  next
    case (Cons ch l')
    then obtain u where "ch_text ch = Some u" using l(3) by auto
    then show ?thesis using l Cons by (auto simp: setDeferredMultiBulkLength_def Let_def out_stream_def chunk_str_def nth_append)
  qed
qed

section \<open>Writing out\<close>

definition pending :: "'a client_scheme \<Rightarrow> string" where
  "pending c = drop (cl_sentlen c) (out_stream c)"

text \<open>The piece at the head, the static buffer or else the first chunk, is the one that was partly sent, and
  something of it is left; no deferred length is open.\<close>

definition head_piece :: "'a client_scheme \<Rightarrow> string" where
  "head_piece c = (if cl_buf c \<noteq> [] then cl_buf c else case cl_reply c of [] \<Rightarrow> [] | ch # _ \<Rightarrow> chunk_str ch)"

definition sent_wf :: "'a client_scheme \<Rightarrow> bool" where
  "sent_wf c \<longleftrightarrow> (\<forall>ch \<in> set (cl_reply c). ch_text ch \<noteq> None) \<and> (cl_sentlen c = 0 \<or> cl_sentlen c < length (head_piece c))"

definition piece_sent :: "'a client_scheme \<Rightarrow> nat \<Rightarrow> 'a client_scheme" where
  "piece_sent c n =
     (if cl_buf c \<noteq> []
      then if cl_sentlen c + n = length (cl_buf c) then c\<lparr>cl_buf := [], cl_sentlen := 0\<rparr> else c\<lparr>cl_sentlen := cl_sentlen c + n\<rparr>
      else if cl_sentlen c + n = length (chunk_str (hd (cl_reply c)))
      then c\<lparr>cl_reply := tl (cl_reply c), cl_sentlen := 0\<rparr> else c\<lparr>cl_sentlen := cl_sentlen c + n\<rparr>)"

lemma piece_sent_spec:
  assumes "sent_wf c" "0 < n" "n \<le> length (head_piece c) - cl_sentlen c"
  shows "sent_wf (piece_sent c n)" "take n (drop (cl_sentlen c) (head_piece c)) @ pending (piece_sent c n) = pending c"
    "length (cl_reply (piece_sent c n)) \<le> length (cl_reply c)"
proof -
  have "\<exists>R. out_stream c = head_piece c @ R"
    by (cases "cl_reply c"; cases "cl_buf c = []") (simp_all add: out_stream_def head_piece_def)
  then obtain R where o: "out_stream c = head_piece c @ R" by blast
  let ?h = "head_piece c" and ?k = "cl_sentlen c"
  have k: "?k + n \<le> length ?h" using assms(2,3) by linarith
  have ne: "?h \<noteq> []" using assms(2,3) by auto
  have pend: "pending c = take n (drop ?k ?h) @ drop (?k + n) ?h @ R"
  proof -
    have "drop ?k ?h = take n (drop ?k ?h) @ drop (?k + n) ?h" by (metis add.commute append_take_drop_id drop_drop)
    then show ?thesis using k unfolding pending_def o by (metis append_assoc add_leD1 drop_append diff_is_0_eq drop0)
  qed
  show "take n (drop ?k ?h) @ pending (piece_sent c n) = pending c" "sent_wf (piece_sent c n)"
    "length (cl_reply (piece_sent c n)) \<le> length (cl_reply c)"
  proof -
    have "pending (piece_sent c n) = drop (?k + n) ?h @ R \<and> sent_wf (piece_sent c n) \<and>
      length (cl_reply (piece_sent c n)) \<le> length (cl_reply c)"
    proof (cases "cl_buf c = []")
      case True
      then obtain ch l where r: "cl_reply c = ch # l" using ne by (cases "cl_reply c") (simp_all add: head_piece_def)
      then have h: "?h = chunk_str ch" "R = concat (map chunk_str l)" using True o by (simp_all add: head_piece_def out_stream_def)
      show ?thesis
      proof (cases "?k + n = length ?h")
        case e: True
        then have "piece_sent c n = c\<lparr>cl_reply := l, cl_sentlen := 0\<rparr>" using True r h by (simp add: piece_sent_def)
        then show ?thesis using assms(1) True r h e by (simp add: pending_def out_stream_def sent_wf_def head_piece_def split: list.splits)
      next
        case e: False
        then have "piece_sent c n = c\<lparr>cl_sentlen := ?k + n\<rparr>" using True r h by (simp add: piece_sent_def)
        then show ?thesis using assms(1) True r h e k by (simp add: pending_def out_stream_def sent_wf_def head_piece_def)
      qed
    next
      case False
      then have h: "?h = cl_buf c" "R = concat (map chunk_str (cl_reply c))" using o by (simp_all add: head_piece_def out_stream_def)
      show ?thesis
      proof (cases "?k + n = length ?h")
        case e: True
        then have "piece_sent c n = c\<lparr>cl_buf := [], cl_sentlen := 0\<rparr>" using False h by (simp add: piece_sent_def)
        then show ?thesis using assms(1) h e by (simp add: pending_def out_stream_def sent_wf_def head_piece_def split: list.splits)
      next
        case e: False
        then have "piece_sent c n = c\<lparr>cl_sentlen := ?k + n\<rparr>" using False h by (simp add: piece_sent_def)
        then show ?thesis using assms(1) False h e k by (simp add: pending_def out_stream_def sent_wf_def head_piece_def)
      qed
    qed
    then show "take n (drop ?k ?h) @ pending (piece_sent c n) = pending c" "sent_wf (piece_sent c n)"
      "length (cl_reply (piece_sent c n)) \<le> length (cl_reply c)" using pend by simp_all
  qed
qed

lemma write_loop_done: "\<not> clientHasPendingReplies c \<Longrightarrow> write_loop wr over i tot nw c = Some (c, [], nw)"
  by (subst write_loop.simps) simp

lemma write_loop_step:
  assumes "sent_wf c" "head_piece c \<noteq> []" "write_next wr i (head_piece c) (cl_sentlen c) = Some n"
  shows "write_loop wr over i tot nw c =
      (if n \<le> 0 then Some (c, [], n)
       else if tot + nat n > NET_MAX_WRITES_PER_EVENT \<and> \<not> over
       then Some (piece_sent c (nat n), take (nat n) (drop (cl_sentlen c) (head_piece c)), n)
       else do {
         (c2, out', n') \<leftarrow> write_loop wr over (i + 1) (tot + nat n) n (piece_sent c (nat n));
         Some (c2, take (nat n) (drop (cl_sentlen c) (head_piece c)) @ out', n')
       })"
proof (cases "cl_buf c = []")
  case True
  then obtain ch l u where r: "cl_reply c = ch # l" "ch_text ch = Some u"
    using assms by (cases "cl_reply c") (auto simp: head_piece_def sent_wf_def)
  then have "head_piece c = u" "chunk_str ch = u" using True by (simp_all add: head_piece_def chunk_str_def)
  then show ?thesis using True r assms(2,3)
    by (subst write_loop.simps) (simp add: clientHasPendingReplies_def piece_sent_def Let_def)
next
  case False
  then have "head_piece c = cl_buf c" by (simp add: head_piece_def)
  then show ?thesis using False assms(3) by (subst write_loop.simps) (simp add: clientHasPendingReplies_def piece_sent_def Let_def)
qed

lemma write_loop_empty:
  assumes "sent_wf c" "head_piece c = []" "clientHasPendingReplies c"
  shows "write_loop wr over i tot nw c = write_loop wr over i tot nw (c\<lparr>cl_reply := tl (cl_reply c)\<rparr>)"
    "sent_wf (c\<lparr>cl_reply := tl (cl_reply c)\<rparr>)" "pending (c\<lparr>cl_reply := tl (cl_reply c)\<rparr>) = pending c"
    "length (tl (cl_reply c)) < length (cl_reply c)"
proof -
  have b: "cl_buf c = []" using assms(2) by (auto simp: head_piece_def split: if_splits)
  then obtain ch l where r: "cl_reply c = ch # l" using assms(3) by (cases "cl_reply c") (auto simp: clientHasPendingReplies_def)
  then have u: "ch_text ch = Some []" "chunk_str ch = []" using assms(1,2) b by (auto simp: head_piece_def sent_wf_def chunk_str_def)
  show "write_loop wr over i tot nw c = write_loop wr over i tot nw (c\<lparr>cl_reply := tl (cl_reply c)\<rparr>)"
    using b r u by (subst write_loop.simps) (simp add: clientHasPendingReplies_def)
  show "sent_wf (c\<lparr>cl_reply := tl (cl_reply c)\<rparr>)" "pending (c\<lparr>cl_reply := tl (cl_reply c)\<rparr>) = pending c"
    "length (tl (cl_reply c)) < length (cl_reply c)"
    using assms(1) b r u by (auto simp: sent_wf_def head_piece_def pending_def out_stream_def split: list.splits)
qed

lemma pending_nonempty:
  assumes "sent_wf c" "\<not> clientHasPendingReplies c"
  shows "pending c = []"
  using assms by (simp add: sent_wf_def clientHasPendingReplies_def pending_def out_stream_def)

text \<open>The results of calls of \<open>write\<close> for the sizes \<open>ns\<close>, from the \<open>i\<close>-th call on.\<close>

fun write_results :: "(nat \<Rightarrow> nat \<Rightarrow> int) \<Rightarrow> nat \<Rightarrow> nat list \<Rightarrow> int list" where
  "write_results wr i [] = []"
| "write_results wr i (n # ns) = wr i n # write_results wr (i + 1) ns"

text \<open>\<open>written\<close>: the calls for \<open>ns\<close> were made, each for something that was queued, all but the last took bytes and
  stayed within the limit, and together they took \<open>out\<close>.\<close>

definition written :: "(nat \<Rightarrow> nat \<Rightarrow> int) \<Rightarrow> bool \<Rightarrow> nat \<Rightarrow> nat \<Rightarrow> nat list \<Rightarrow> nat \<Rightarrow> string \<Rightarrow> bool" where
  "written wr over i tot ns m out \<longleftrightarrow>
     (let rs = write_results wr i ns
      in (\<forall>n \<in> set ns. 0 < n \<and> n \<le> m) \<and> (\<forall>r \<in> set (butlast rs). 0 < r) \<and> length out = sum_list (map nat rs) \<and>
         (over \<or> tot + sum_list (map nat (butlast rs)) \<le> NET_MAX_WRITES_PER_EVENT))"

lemma write_results_Nil [simp]: "write_results wr i ns = [] \<longleftrightarrow> ns = []"
  by (cases ns) auto

lemma written_Cons:
  assumes "written wr over (i + 1) (tot + nat (wr i n)) ns m out" "0 < n" "n \<le> m'" "m \<le> m'" "0 < wr i n" "length o1 = nat (wr i n)"
    "over \<or> tot \<le> NET_MAX_WRITES_PER_EVENT"
  shows "written wr over i tot (n # ns) m' (o1 @ out)"
  using assms by (auto simp: written_def Let_def add.assoc)

lemma piece_sent_close [simp]: "cl_close_after_reply (piece_sent c n) = cl_close_after_reply c"
  by (simp add: piece_sent_def)

lemma write_loop_spec:
  assumes wr: "\<And>i n. wr i n \<le> int n" and c: "sent_wf c" and tot: "over \<or> tot \<le> NET_MAX_WRITES_PER_EVENT"
  shows "\<exists>c' out ns. write_loop wr over i tot nw c = Some (c', out, last (nw # write_results wr i ns)) \<and>
    out @ pending c' = pending c \<and> sent_wf c' \<and> cl_close_after_reply c' = cl_close_after_reply c \<and>
    written wr over i tot ns (length (pending c)) out \<and>
    (\<not> clientHasPendingReplies c' \<or> ns \<noteq> [] \<and> last (write_results wr i ns) \<le> 0 \<or> tot + length out > NET_MAX_WRITES_PER_EVENT \<and> \<not> over)"
  using c tot
proof (induction "length (pending c) + length (cl_reply c)" arbitrary: i tot nw c rule: less_induct)
  case less
  have nil: "written wr over i tot [] k []" for k using less.prems(2) by (simp add: written_def)
  show ?case
  proof (cases "head_piece c = []")
    case True
    show ?thesis
    proof (cases "clientHasPendingReplies c")
      case p: True
      note E = write_loop_empty [OF less.prems(1) True p]
      show ?thesis using less.hyps [of "c\<lparr>cl_reply := tl (cl_reply c)\<rparr>"] E(2-4) less.prems(2) unfolding E(1) by simp
    next
      case False
      then show ?thesis using less.prems nil
        by (intro exI [of _ c] exI [of _ "[]"]) (simp add: write_loop_done pending_nonempty)
    qed
  next
    case False
    let ?r = "length (head_piece c) - cl_sentlen c"
    have s: "cl_sentlen c < length (head_piece c)" using less.prems(1) False by (auto simp: sent_wf_def)
    then have r0: "0 < ?r" by simp
    have rp: "?r \<le> length (pending c)"
      by (cases "cl_reply c") (auto simp: pending_def out_stream_def head_piece_def)
    have n: "write_next wr i (head_piece c) (cl_sentlen c) = Some (wr i ?r)" using s wr [of i ?r] by (simp add: write_next_def Let_def)
    note step = write_loop_step [OF less.prems(1) False n, of over tot nw]
    show ?thesis
    proof (cases "wr i ?r \<le> 0")
      case True
      then have "written wr over i tot [?r] (length (pending c)) []" using r0 rp less.prems(2) by (simp add: written_def)
      then show ?thesis unfolding step using less.prems True by (intro exI [of _ c] exI [of _ "[]"] exI [of _ "[?r]"]) simp
    next
      case pos: False
      let ?n = "nat (wr i ?r)" let ?c = "piece_sent c ?n" let ?o = "take ?n (drop (cl_sentlen c) (head_piece c))"
      have nn: "0 < ?n" "?n \<le> ?r" using pos wr [of i ?r] by linarith+
      note P = piece_sent_spec [OF less.prems(1) nn]
      have lo: "length ?o = ?n" using nn s by simp
      have len: "?n + length (pending ?c) = length (pending c)" using P(2) lo by (metis length_append)
      have cons: "written wr over i tot (?r # ns) (length (pending c)) (?o @ out)"
        if "written wr over (i + 1) (tot + ?n) ns (length (pending ?c)) out" for ns out
        by (rule written_Cons [OF that r0 rp _ _ lo less.prems(2)]) (use len pos in auto)
      show ?thesis
      proof (cases "tot + ?n > NET_MAX_WRITES_PER_EVENT \<and> \<not> over")
        case True
        have "written wr over i tot [?r] (length (pending c)) ?o" using r0 rp less.prems(2) lo by (simp add: written_def)
        then show ?thesis unfolding step using P pos lo True
          by (intro exI [of _ ?c] exI [of _ ?o] exI [of _ "[?r]"]) simp
      next
        case go: False
        have "length (pending ?c) + length (cl_reply ?c) < length (pending c) + length (cl_reply c)" using len P(3) nn by linarith
        moreover have "over \<or> tot + ?n \<le> NET_MAX_WRITES_PER_EVENT" using go by auto
        ultimately obtain c' out ns where
          L: "write_loop wr over (i + 1) (tot + ?n) (wr i ?r) ?c = Some (c', out, last (wr i ?r # write_results wr (i + 1) ns))"
          "out @ pending c' = pending ?c" "sent_wf c'" "cl_close_after_reply c' = cl_close_after_reply c"
          "written wr over (i + 1) (tot + ?n) ns (length (pending ?c)) out"
          "\<not> clientHasPendingReplies c' \<or> ns \<noteq> [] \<and> last (write_results wr (i + 1) ns) \<le> 0 \<or>
             tot + ?n + length out > NET_MAX_WRITES_PER_EVENT \<and> \<not> over"
          using less.hyps [OF _ P(1), of "tot + ?n" "i + 1" "wr i ?r"] unfolding piece_sent_close by blast
        have "last (nw # write_results wr i (?r # ns)) = last (wr i ?r # write_results wr (i + 1) ns)" by simp
        moreover have "\<not> clientHasPendingReplies c' \<or> ?r # ns \<noteq> [] \<and> last (write_results wr i (?r # ns)) \<le> 0 \<or>
             tot + length (?o @ out) > NET_MAX_WRITES_PER_EVENT \<and> \<not> over"
          using L(6) lo by (auto simp del: length_take)
        ultimately show ?thesis unfolding step if_not_P [OF pos] if_not_P [OF go] using P(2) L cons [OF L(5)]
          by (intro exI [of _ c'] exI [of _ "?o @ out"] exI [of _ "?r # ns"]) simp
      qed
    qed
  qed
qed

section \<open>Properties\<close>

lemma digit_chars: "digit_char 0 = CHR ''0''" "digit_char 1 = CHR ''1''" "digit_char (Suc 0) = CHR ''1''" "digit_char 2 = CHR ''2''" "digit_char 3 = CHR ''3''" "digit_char (Suc (Suc (Suc 0))) = CHR ''3''"
  by code_simp+

lemma c_text_id [simp]: "NUL \<notin> set s \<Longrightarrow> c_text s = s"
  by (auto simp: c_text_def takeWhile_eq_all_conv)

text \<open>C16. What a client is sent is exactly the sequence of its replies in the Redis protocol, in the order
  in which they were added, however they are spread over the static buffer and the chunks: strings, errors and
  statuses given as C strings, integers of either sign, multi bulk lengths, and bulk replies of buffers, of strings
  of less than 4 GB, of numbers, and of objects of any encoding.\<close>
theorem replies_in_order:
  assumes "accepts c" "int64 n" "int64 k" "0 \<le> k" "NUL \<notin> set e" "length s < 2 ^ 32"
    "str_obj obj" "obj_text obj \<noteq> dec_int (- (2 ^ 63))" "length (obj_text obj) < 2 ^ 63"
  shows "out_stream (addReplyString c s) = out_stream c @ s \<and>
    out_stream (addReplyError c e) = out_stream c @ ''-ERR '' @ e @ CRLF \<and>
    out_stream (addReplyStatus c e) = out_stream c @ ''+'' @ e @ CRLF \<and>
    (\<exists>c'. addReplyLongLong c n = Some c' \<and> out_stream c' = out_stream c @ '':'' @ dec_int n @ CRLF) \<and>
    (\<exists>c'. addReplyMultiBulkLen c k = Some c' \<and> out_stream c' = out_stream c @ ''*'' @ dec_int k @ CRLF) \<and>
    (\<exists>c'. addReplyBulk c obj = Some c' \<and> out_stream c' = out_stream c @ bulk (obj_text obj)) \<and>
    (\<exists>c'. addReplyBulkCBuffer c s = Some c' \<and> out_stream c' = out_stream c @ bulk s) \<and>
    (\<exists>c'. addReplyBulkLongLong c n = Some c' \<and> out_stream c' = out_stream c @ bulk (dec_int n)) \<and>
    out_stream (addReplyBulkSds c s) = out_stream c @ bulk s"
proof (intro conjI)
  have z: "dec_int 0 = ''0''" "dec_int 1 = ''1''" by (simp_all add: dec_int_def dec_nat.simps digit_chars)
  have buffer: "\<exists>c'. addReplyBulkCBuffer c t = Some c' \<and> out_stream c' = out_stream c @ bulk t" if "length t < 2 ^ 32" for t
    using prefix_output [OF assms(1), of "int (length t)" "CHR ''$''"] that
    by (auto simp: addReplyBulkCBuffer_def bulk_def int64_def)
  show "\<exists>c'. addReplyLongLong c n = Some c' \<and> out_stream c' = out_stream c @ '':'' @ dec_int n @ CRLF"
    using assms(1) prefix_output [OF assms(1,2), of "CHR '':''"] z by (auto simp: addReplyLongLong_def)
  show "\<exists>c'. addReplyMultiBulkLen c k = Some c' \<and> out_stream c' = out_stream c @ ''*'' @ dec_int k @ CRLF"
    using assms(1,4) prefix_output [OF assms(1,3), of "CHR ''*''"] by (auto simp: addReplyMultiBulkLen_def)
  show "\<exists>c'. addReplyBulk c obj = Some c' \<and> out_stream c' = out_stream c @ bulk (obj_text obj)"
    using addReplyBulk_output [OF assms(1,7-9)] by blast
  show "\<exists>c'. addReplyBulkCBuffer c s = Some c' \<and> out_stream c' = out_stream c @ bulk s" by (rule buffer [OF assms(6)])
  have "length (dec_int n) < 2 ^ 32" using length_dec_int64 [OF assms(2)] by simp
  from buffer [OF this] show "\<exists>c'. addReplyBulkLongLong c n = Some c' \<and> out_stream c' = out_stream c @ bulk (dec_int n)"
    using assms(2) by (simp add: addReplyBulkLongLong_def ll_text_spec)
qed (use assms(1,5,6) in \<open>simp_all add: addReplyError_def addReplyErrorLength_def addReplyStatus_def addReplyStatusLength_def
  addReplyBulkSds_def sdsull2str_spec bulk_def\<close>)

definition ex_client :: client where
  "ex_client = \<lparr>cl_fd = 7, cl_lua = False, cl_reply_off = False, cl_reply_skip = False, cl_master = False,
     cl_master_force_reply = False, cl_close_after_reply = False, cl_pending_write = False, cl_replstate = 0,
     cl_put_online_on_ack = False, cl_buf = [], cl_reply = [], cl_sentlen = 0\<rparr>"

theorem replies_in_order_witness:
  "\<exists>c'. addReplyBulk ex_client \<lparr>o_type = OBJ_STRING, o_encoding = OBJ_ENCODING_INT, o_lru = 0, o_refcount = 1, o_ptr = PInt (-12) :: unit obj_ptr\<rparr> = Some c' \<and>
     out_stream c' = ''$3'' @ CRLF @ ''-12'' @ CRLF"
proof -
  let ?o = "\<lparr>o_type = OBJ_STRING, o_encoding = OBJ_ENCODING_INT, o_lru = 0, o_refcount = 1, o_ptr = PInt (-12) :: unit obj_ptr\<rparr>"
  have t: "obj_text ?o = ''-12''" by (simp add: obj_text_def dec_int_def dec_nat.simps digit_chars)
  have "accepts ex_client" "int64 0" "str_obj ?o" by (simp_all add: ex_client_def accepts_def prepareClientToWrite_def int64_def str_obj_def)
  moreover have "obj_text ?o \<noteq> dec_int (- (2 ^ 63))" "length (obj_text ?o) < 2 ^ 63"
    unfolding t by (simp_all add: dec_int_def dec_nat.simps digit_chars)
  ultimately have "\<exists>c'. addReplyBulk ex_client ?o = Some c' \<and> out_stream c' = out_stream ex_client @ bulk ''-12''"
    using replies_in_order [of ex_client 0 0 "[]" "[]" ?o] unfolding t by simp
  moreover have "out_stream ex_client = []" "bulk ''-12'' = ''$3'' @ CRLF @ ''-12'' @ CRLF"
    by (simp_all add: ex_client_def out_stream_def bulk_def dec_nat.simps digit_chars)
  ultimately show ?thesis by simp
qed

text \<open>C22. A reply whose length is only known at the end: the length is put in front of everything that was
  added after \<open>addDeferredMultiBulkLength\<close>, behind everything added before.\<close>
theorem deferred_length_in_front:
  assumes "accepts c" "addDeferredMultiBulkLength c = (c1, node)"
  shows "\<exists>c'. setDeferredMultiBulkLength (fold (\<lambda>t c. addReplyString c t) ts c1) node n = Some c' \<and>
    out_stream c' = out_stream c @ ''*'' @ dec_int n @ CRLF @ concat ts"
proof -
  obtain c0 where c0: "prepareClientToWrite c = (c0, True)" "accepts c0" "cl_reply c0 = cl_reply c" "cl_buf c0 = cl_buf c"
    using assms(1) by (rule accepts_cases)
  have node: "node = Some (length (cl_reply c))" using assms(2) c0 by (simp add: addDeferredMultiBulkLength_def)
  have "c1 = c0\<lparr>cl_reply := cl_reply c @ [\<lparr>ch_text = None, ch_raw = True\<rparr>]\<rparr>" using assms(2) c0 by (simp add: addDeferredMultiBulkLength_def)
  then have "deferred c1 (cl_reply c) (cl_buf c) []" using c0 by (simp add: deferred_def accepts_def)
  from deferred_set [OF deferred_strings [OF this, of ts], of n] show ?thesis by (simp add: node out_stream_def)
qed

theorem deferred_length_in_front_witness:
  "\<exists>c'. setDeferredMultiBulkLength (fold (\<lambda>t c. addReplyString c t) ['':1'' @ CRLF, '':2'' @ CRLF] (fst (addDeferredMultiBulkLength ex_client)))
      (snd (addDeferredMultiBulkLength ex_client)) 2 = Some c' \<and>
    out_stream c' = ''*2'' @ CRLF @ '':1'' @ CRLF @ '':2'' @ CRLF"
proof -
  have "accepts ex_client" by (simp add: ex_client_def accepts_def prepareClientToWrite_def)
  moreover have "dec_int 2 = ''2''" by (simp add: dec_int_def dec_nat.simps digit_chars)
  moreover have "out_stream ex_client = []" by (simp add: ex_client_def out_stream_def)
  ultimately show ?thesis using deferred_length_in_front [of ex_client "fst (addDeferredMultiBulkLength ex_client)"
    "snd (addDeferredMultiBulkLength ex_client)" "['':1'' @ CRLF, '':2'' @ CRLF]" 2] by simp
qed

text \<open>C6. Writing to the socket loses, repeats and reorders nothing, whatever numbers of bytes the calls of
  \<open>write\<close> take: the bytes that went out followed by what is still queued are what was queued before, and their number
  is what the calls that were made took together. Every call is for something that is queued. The loop ends; it
  stops only when all is sent, when the last call took nothing, or when more than the limit per event is out, and
  it makes no call beyond that. The client is freed exactly when the last call failed with another error than
  \<open>EAGAIN\<close>, or when it was to be closed and nothing is left.\<close>
theorem writeToClient_exact:
  assumes "\<And>i n. wr i n \<le> int n" "sent_wf c"
  shows "\<exists>c' out ok ns rs. writeToClient wr over eagain c = Some (c', out, ok) \<and> rs = write_results wr 0 ns \<and>
    out @ pending c' = pending c \<and> sent_wf c' \<and>
    (\<forall>n \<in> set ns. 0 < n \<and> n \<le> length (pending c)) \<and> (\<forall>r \<in> set (butlast rs). 0 < r) \<and> length out = sum_list (map nat rs) \<and>
    (over \<or> sum_list (map nat (butlast rs)) \<le> NET_MAX_WRITES_PER_EVENT) \<and>
    (pending c' = [] \<or> rs \<noteq> [] \<and> last rs \<le> 0 \<or> length out > NET_MAX_WRITES_PER_EVENT \<and> \<not> over) \<and>
    (\<not> ok \<longleftrightarrow> rs \<noteq> [] \<and> last rs = -1 \<and> \<not> eagain \<or> \<not> clientHasPendingReplies c' \<and> cl_close_after_reply c)"
proof -
  obtain c1 out ns where L: "write_loop wr over 0 0 0 c = Some (c1, out, last (0 # write_results wr 0 ns))"
    "out @ pending c1 = pending c" "sent_wf c1" "cl_close_after_reply c1 = cl_close_after_reply c"
    "written wr over 0 0 ns (length (pending c)) out"
    "\<not> clientHasPendingReplies c1 \<or> ns \<noteq> [] \<and> last (write_results wr 0 ns) \<le> 0 \<or> 0 + length out > NET_MAX_WRITES_PER_EVENT \<and> \<not> over"
    using write_loop_spec [of wr, OF assms, of over 0 0 0] by auto
  define rs where "rs = write_results wr 0 ns"
  have W: "\<forall>n \<in> set ns. 0 < n \<and> n \<le> length (pending c)" "\<forall>r \<in> set (butlast rs). 0 < r" "length out = sum_list (map nat rs)"
    "over \<or> sum_list (map nat (butlast rs)) \<le> NET_MAX_WRITES_PER_EVENT"
    using L(5) by (auto simp: written_def Let_def rs_def)
  have p: "pending c1 = []" "pending (c1\<lparr>cl_sentlen := 0\<rparr>) = []" "sent_wf (c1\<lparr>cl_sentlen := 0\<rparr>)" if "\<not> clientHasPendingReplies c1"
    using that L(3) by (simp_all add: clientHasPendingReplies_def pending_def out_stream_def sent_wf_def)
  define c' where "c' = (if last (0 # rs) = -1 \<and> \<not> eagain \<or> clientHasPendingReplies c1 then c1 else c1\<lparr>cl_sentlen := 0\<rparr>)"
  define ok where "ok \<longleftrightarrow> \<not> (last (0 # rs) = -1 \<and> \<not> eagain \<or> \<not> clientHasPendingReplies c1 \<and> cl_close_after_reply c)"
  have run: "writeToClient wr over eagain c = Some (c', out, ok)"
    using L(1,4) by (auto simp: writeToClient_def c'_def ok_def simp flip: rs_def)
  have same: "pending c' = pending c1" "sent_wf c'" "clientHasPendingReplies c' = clientHasPendingReplies c1"
    using p L(3) by (auto simp: c'_def clientHasPendingReplies_def)
  have stop: "pending c' = [] \<or> rs \<noteq> [] \<and> last rs \<le> 0 \<or> length out > NET_MAX_WRITES_PER_EVENT \<and> \<not> over"
    using L(6) p(1) same(1) by (auto simp: rs_def)
  have freed: "\<not> ok \<longleftrightarrow> rs \<noteq> [] \<and> last rs = -1 \<and> \<not> eagain \<or> \<not> clientHasPendingReplies c' \<and> cl_close_after_reply c"
    using same(3) by (auto simp: ok_def)
  have "out @ pending c' = pending c" using L(2) same(1) by simp
  then show ?thesis using run rs_def same(2) W stop freed by blast
qed

theorem writeToClient_exact_witness:
  "\<exists>c' out ok. writeToClient (\<lambda>i n. min 3 (int n)) False True (ex_client\<lparr>cl_buf := ''+OK'', cl_reply := [\<lparr>ch_text = Some ''$0'', ch_raw = True\<rparr>]\<rparr>)
       = Some (c', out, ok) \<and> out = ''+OK$0'' \<and> pending c' = []"
proof -
  let ?c = "ex_client\<lparr>cl_buf := ''+OK'', cl_reply := [\<lparr>ch_text = Some ''$0'', ch_raw = True\<rparr>]\<rparr>"
  let ?wr = "\<lambda>(i :: nat) n. min 3 (int n)"
  have c: "sent_wf ?c" "pending ?c = ''+OK$0''" by (simp_all add: ex_client_def sent_wf_def pending_def out_stream_def chunk_str_def)
  have "?wr i n \<le> int n" for i n by simp
  from writeToClient_exact [OF this c(1), of False True] obtain c' out ok ns rs where
    w: "writeToClient ?wr False True ?c = Some (c', out, ok)" "rs = write_results ?wr 0 ns" "out @ pending c' = pending ?c"
      "\<forall>n \<in> set ns. 0 < n \<and> n \<le> length (pending ?c)"
      "pending c' = [] \<or> rs \<noteq> [] \<and> last rs \<le> 0 \<or> length out > NET_MAX_WRITES_PER_EVENT \<and> \<not> False" by blast
  have "\<forall>r \<in> set (write_results ?wr i ns). 0 < r" if "\<forall>n \<in> set ns. 0 < n" for i ns
    using that by (induction ns arbitrary: i) auto
  then have "rs \<noteq> [] \<Longrightarrow> 0 < last rs" using w(2,4) by (metis last_in_set)
  moreover have "length (out @ pending c') = 5" using w(3) c(2) by simp
  ultimately have "pending c' = []" using w(5) by (auto simp: NET_MAX_WRITES_PER_EVENT_def)
  then show ?thesis using w(1,3) c(2) by auto
qed

end
