(* ===== verification/Sds.thy ===== *)
theory Sds
  imports Object
begin

text \<open>
  The dynamic strings of \<open>src/redis-stable/src/sds.c\<close> and \<open>sds.h\<close>. An \<open>sds\<close> is its header (type,
  length, capacity, each cut to the width of the header type) and the bytes allocated behind it; a
  byte that was never written is \<^const>\<open>None\<close>. Every access is checked against the allocation, so
  \<^const>\<open>None\<close> as a result means an access out of bounds, a read of an unwritten byte, a failed
  assertion or a signed overflow. \<open>size_t\<close> arithmetic is modulo $2^{64}$; \<open>s_malloc\<close> is \<open>zmalloc\<close>,
  which does not return without memory.
\<close>

section \<open>Headers (sds.h)\<close>

datatype sds_type = SDS_TYPE_5 | SDS_TYPE_8 | SDS_TYPE_16 | SDS_TYPE_32 | SDS_TYPE_64

record sds =
  sd_type :: sds_type
  sd_len :: nat
  sd_alloc :: nat
  sd_buf :: "char option list"

definition SDS_MAX_PREALLOC :: nat where
  "SDS_MAX_PREALLOC = 1024 * 1024"

definition size_t :: "int \<Rightarrow> nat" where
  "size_t n = nat (n mod 2 ^ 64)"

fun type_bits :: "sds_type \<Rightarrow> nat" where
  "type_bits SDS_TYPE_5 = 5"
| "type_bits SDS_TYPE_8 = 8"
| "type_bits SDS_TYPE_16 = 16"
| "type_bits SDS_TYPE_32 = 32"
| "type_bits SDS_TYPE_64 = 64"

definition sdslen :: "sds \<Rightarrow> nat" where
  "sdslen s = sd_len s"

definition sdsavail :: "sds \<Rightarrow> nat" where
  "sdsavail s =
     (case sd_type s of
        SDS_TYPE_5 \<Rightarrow> 0
      | SDS_TYPE_32 \<Rightarrow> nat ((int (sd_alloc s) - int (sd_len s)) mod 2 ^ 32)
      | _ \<Rightarrow> size_t (int (sd_alloc s) - int (sd_len s)))"

definition sdssetlen :: "sds \<Rightarrow> nat \<Rightarrow> sds" where
  "sdssetlen s n = s\<lparr>sd_len := n mod 2 ^ type_bits (sd_type s)\<rparr>"

definition sdsinclen :: "sds \<Rightarrow> nat \<Rightarrow> sds" where
  "sdsinclen s n = s\<lparr>sd_len := (sd_len s + n) mod 2 ^ type_bits (sd_type s)\<rparr>"

definition sdsalloc :: "sds \<Rightarrow> nat" where
  "sdsalloc s = (if sd_type s = SDS_TYPE_5 then sd_len s else sd_alloc s)"

definition sdssetalloc :: "sds \<Rightarrow> nat \<Rightarrow> sds" where
  "sdssetalloc s n = (if sd_type s = SDS_TYPE_5 then s else s\<lparr>sd_alloc := n mod 2 ^ type_bits (sd_type s)\<rparr>)"

fun sdsHdrSize :: "sds_type \<Rightarrow> nat" where
  "sdsHdrSize SDS_TYPE_5 = 1"
| "sdsHdrSize SDS_TYPE_8 = 3"
| "sdsHdrSize SDS_TYPE_16 = 5"
| "sdsHdrSize SDS_TYPE_32 = 9"
| "sdsHdrSize SDS_TYPE_64 = 17"

definition sdsReqType :: "nat \<Rightarrow> sds_type" where
  "sdsReqType string_size =
     (if string_size < 2 ^ 5 then SDS_TYPE_5
      else if string_size < 2 ^ 8 then SDS_TYPE_8
      else if string_size < 2 ^ 16 then SDS_TYPE_16
      else if string_size < 2 ^ 32 then SDS_TYPE_32
      else SDS_TYPE_64)"

section \<open>Memory and C strings\<close>

text \<open>The bytes behind a header of size \<open>h\<close> in an allocation of \<open>h + n + 1\<close> bytes.\<close>

definition s_malloc :: "nat \<Rightarrow> nat \<Rightarrow> char option list" where
  "s_malloc h n = replicate (size_t (int (h + n + 1)) - h) None"

definition s_realloc :: "nat \<Rightarrow> char option list \<Rightarrow> nat \<Rightarrow> char option list" where
  "s_realloc h b n = (let k = size_t (int (h + n + 1)) - h in take k b @ replicate (k - length b) None)"

definition put_cells :: "char option list \<Rightarrow> nat \<Rightarrow> char option list \<Rightarrow> char option list option" where
  "put_cells b i xs = (if i + length xs \<le> length b then Some (take i b @ xs @ drop (i + length xs) b) else None)"

definition put_chars :: "char option list \<Rightarrow> nat \<Rightarrow> string \<Rightarrow> char option list option" where
  "put_chars b i t = put_cells b i (map Some t)"

definition get_cells :: "char option list \<Rightarrow> nat \<Rightarrow> nat \<Rightarrow> char option list option" where
  "get_cells b i n = (if i + n \<le> length b then Some (take n (drop i b)) else None)"

definition get_chars :: "char option list \<Rightarrow> nat \<Rightarrow> nat \<Rightarrow> string option" where
  "get_chars b i n = do { cs \<leftarrow> get_cells b i n; those cs }"

fun cell_strlen :: "char option list \<Rightarrow> nat option" where
  "cell_strlen [] = None"
| "cell_strlen (None # b) = None"
| "cell_strlen (Some c # b) = (if c = NUL then Some 0 else map_option Suc (cell_strlen b))"

definition c_str :: "string \<Rightarrow> string" where
  "c_str t = takeWhile (\<lambda>c. c \<noteq> NUL) t"

definition isspace :: "char \<Rightarrow> bool" where
  "isspace c \<longleftrightarrow> chr_code c = (32::nat) \<or> 9 \<le> chr_code c \<and> chr_code c \<le> (13::nat)"

definition isprint :: "char \<Rightarrow> bool" where
  "isprint c \<longleftrightarrow> (32::nat) \<le> chr_code c \<and> chr_code c \<le> (126::nat)"

definition toupper :: "char \<Rightarrow> char" where
  "toupper c = (if (97::nat) \<le> chr_code c \<and> chr_code c \<le> (122::nat) then char_of (chr_code c - (32::nat)) else c)"

section \<open>Creation and growth\<close>

text \<open>The pointer \<open>init\<close> is \<^const>\<open>None\<close> for \<open>NULL\<close>, else the bytes it points to.\<close>

definition sdsnewlen :: "string option \<Rightarrow> nat \<Rightarrow> sds option" where
  "sdsnewlen init initlen =
     (let t0 = sdsReqType initlen;
          ty = (if t0 = SDS_TYPE_5 \<and> initlen = 0 then SDS_TYPE_8 else t0);
          b0 = s_malloc (sdsHdrSize ty) initlen;
          b1 = (case init of None \<Rightarrow> map (\<lambda>_. Some NUL) b0 | Some _ \<Rightarrow> b0);
          s = sdssetalloc (sdssetlen \<lparr>sd_type = ty, sd_len = 0, sd_alloc = 0, sd_buf = b1\<rparr> initlen) initlen
      in do {
        b2 \<leftarrow> (case init of
                None \<Rightarrow> Some b1
              | Some p \<Rightarrow> if initlen = 0 then Some b1 else if length p < initlen then None else put_chars b1 0 (take initlen p));
        b3 \<leftarrow> put_chars b2 initlen [NUL];
        Some (s\<lparr>sd_buf := b3\<rparr>)
      })"

definition sdsempty :: "sds option" where
  "sdsempty = sdsnewlen (Some []) 0"

definition sdsnew :: "string option \<Rightarrow> sds option" where
  "sdsnew init = sdsnewlen init (case init of None \<Rightarrow> 0 | Some p \<Rightarrow> length (c_str p))"

definition sdsdup :: "sds \<Rightarrow> sds option" where
  "sdsdup s = do { t \<leftarrow> get_chars (sd_buf s) 0 (sdslen s); sdsnewlen (Some t) (sdslen s) }"

definition sdsupdatelen :: "sds \<Rightarrow> sds option" where
  "sdsupdatelen s = do { n \<leftarrow> cell_strlen (sd_buf s); Some (sdssetlen s (size_t (to_int32 (int n)))) }"

definition sdsclear :: "sds \<Rightarrow> sds option" where
  "sdsclear s = do { b \<leftarrow> put_chars (sd_buf s) 0 [NUL]; Some ((sdssetlen s 0)\<lparr>sd_buf := b\<rparr>) }"

definition resize_to :: "sds \<Rightarrow> sds_type \<Rightarrow> nat \<Rightarrow> sds option" where
  "resize_to s ty newlen =
     (if sd_type s = ty then Some (sdssetalloc (s\<lparr>sd_buf := s_realloc (sdsHdrSize ty) (sd_buf s) newlen\<rparr>) newlen)
      else do {
        cs \<leftarrow> get_cells (sd_buf s) 0 (sdslen s + 1);
        b \<leftarrow> put_cells (s_malloc (sdsHdrSize ty) newlen) 0 cs;
        Some (sdssetalloc (sdssetlen \<lparr>sd_type = ty, sd_len = 0, sd_alloc = 0, sd_buf = b\<rparr> (sdslen s)) newlen)
      })"

definition sdsMakeRoomFor :: "sds \<Rightarrow> nat \<Rightarrow> sds option" where
  "sdsMakeRoomFor s addlen =
     (if addlen \<le> sdsavail s then Some s
      else let n = size_t (int (sdslen s + addlen));
               newlen = (if n < SDS_MAX_PREALLOC then size_t (int (n * 2)) else size_t (int (n + SDS_MAX_PREALLOC)));
               t0 = sdsReqType newlen
           in resize_to s (if t0 = SDS_TYPE_5 then SDS_TYPE_8 else t0) newlen)"

definition sdsRemoveFreeSpace :: "sds \<Rightarrow> sds option" where
  "sdsRemoveFreeSpace s = resize_to s (sdsReqType (sdslen s)) (sdslen s)"

definition sdsAllocSize :: "sds \<Rightarrow> nat" where
  "sdsAllocSize s = size_t (int (sdsHdrSize (sd_type s) + sdsalloc s + 1))"

definition sdsIncrLen :: "sds \<Rightarrow> int \<Rightarrow> sds option" where
  "sdsIncrLen s incr =
     (let len = int (sd_len s); free = int (sd_alloc s) - len;
          ok = (case sd_type s of
                  SDS_TYPE_5 \<Rightarrow> incr > 0 \<and> len + incr < 32 \<or> incr < 0 \<and> len \<ge> - incr
                | SDS_TYPE_32 \<Rightarrow> incr \<ge> 0 \<and> free mod 2 ^ 32 \<ge> incr \<or> incr < 0 \<and> len \<ge> - incr
                | SDS_TYPE_64 \<Rightarrow> incr \<ge> 0 \<and> free mod 2 ^ 64 \<ge> incr \<or> incr < 0 \<and> len \<ge> - incr
                | _ \<Rightarrow> incr \<ge> 0 \<and> free \<ge> incr \<or> incr < 0 \<and> len \<ge> - incr);
          s1 = sdssetlen s (size_t (len + incr))
      in if incr = - (2 ^ 31) \<or> \<not> ok then None
         else do { b \<leftarrow> put_chars (sd_buf s) (sd_len s1) [NUL]; Some (s1\<lparr>sd_buf := b\<rparr>) })"

definition sdsgrowzero :: "sds \<Rightarrow> nat \<Rightarrow> sds option" where
  "sdsgrowzero s len =
     (let curlen = sdslen s
      in if len \<le> curlen then Some s
         else do {
           s1 \<leftarrow> sdsMakeRoomFor s (len - curlen);
           b \<leftarrow> put_chars (sd_buf s1) curlen (replicate (len - curlen + 1) NUL);
           Some (sdssetlen (s1\<lparr>sd_buf := b\<rparr>) len)
         })"

definition sdscatlen :: "sds \<Rightarrow> string \<Rightarrow> sds option" where
  "sdscatlen s t =
     (let curlen = sdslen s
      in do {
        s1 \<leftarrow> sdsMakeRoomFor s (length t);
        b1 \<leftarrow> put_chars (sd_buf s1) curlen t;
        b2 \<leftarrow> put_chars b1 (curlen + length t) [NUL];
        Some ((sdssetlen s1 (curlen + length t))\<lparr>sd_buf := b2\<rparr>)
      })"

definition sdscat :: "sds \<Rightarrow> string \<Rightarrow> sds option" where
  "sdscat s t = sdscatlen s (c_str t)"

definition sdscatsds :: "sds \<Rightarrow> sds \<Rightarrow> sds option" where
  "sdscatsds s t = do { u \<leftarrow> get_chars (sd_buf t) 0 (sdslen t); sdscatlen s u }"

definition sdscpylen :: "sds \<Rightarrow> string \<Rightarrow> sds option" where
  "sdscpylen s t =
     do {
       s1 \<leftarrow> (if sdsalloc s < length t then sdsMakeRoomFor s (size_t (int (length t) - int (sdslen s))) else Some s);
       b1 \<leftarrow> put_chars (sd_buf s1) 0 t;
       b2 \<leftarrow> put_chars b1 (length t) [NUL];
       Some (sdssetlen (s1\<lparr>sd_buf := b2\<rparr>) (length t))
     }"

definition sdscpy :: "sds \<Rightarrow> string \<Rightarrow> sds option" where
  "sdscpy s t = sdscpylen s (c_str t)"

definition sdsfromlonglong :: "int \<Rightarrow> sds option" where
  "sdsfromlonglong v = do { t \<leftarrow> sdsll2str v; sdsnewlen (Some t) (length t) }"

section \<open>Formatted output\<close>

datatype fmt_arg = ArgStr string | ArgSds sds | ArgInt int | ArgUint nat

text \<open>Copies text to position \<open>i\<close>, a C \<open>int\<close>; \<open>room\<close> tells whether space is made first.\<close>

definition fmt_put :: "bool \<Rightarrow> sds \<Rightarrow> int \<Rightarrow> string \<Rightarrow> (sds \<times> int) option" where
  "fmt_put room s i t =
     do {
       s1 \<leftarrow> (if room \<and> sdsavail s < length t then sdsMakeRoomFor s (length t) else Some s);
       b \<leftarrow> (if i < 0 then None else put_chars (sd_buf s1) (nat i) t);
       Some (sdsinclen (s1\<lparr>sd_buf := b\<rparr>) (length t), to_int32 (i + int (length t)))
     }"

fun fmt_arg_text :: "char \<Rightarrow> fmt_arg \<Rightarrow> string option" where
  "fmt_arg_text c (ArgStr t) = (if c = CHR ''s'' then Some (c_str t) else None)"
| "fmt_arg_text c (ArgSds s) = (if c = CHR ''S'' then get_chars (sd_buf s) 0 (sdslen s) else None)"
| "fmt_arg_text c (ArgInt v) = (if c = CHR ''i'' \<and> int32 v \<or> c = CHR ''I'' \<and> int64 v then sdsll2str v else None)"
| "fmt_arg_text c (ArgUint v) = (if c = CHR ''u'' \<and> v < 2 ^ 32 \<or> c = CHR ''U'' \<and> v < 2 ^ 64 then Some (sdsull2str v) else None)"

text \<open>The format is the text in front of its terminator; \<^const>\<open>None\<close> after a final \<open>%\<close>, where the code
  runs over the terminator.\<close>

fun sdscatfmt_loop :: "string \<Rightarrow> fmt_arg list \<Rightarrow> sds \<Rightarrow> int \<Rightarrow> (sds \<times> int) option" where
  "sdscatfmt_loop [] args s i = Some (s, i)"
| "sdscatfmt_loop (c # f) args s i =
     do {
       s1 \<leftarrow> (if sdsavail s = 0 then sdsMakeRoomFor s 1 else Some s);
       (if c \<noteq> CHR ''%'' then do { (s2, i2) \<leftarrow> fmt_put False s1 i [c]; sdscatfmt_loop f args s2 i2 }
        else case f of
            [] \<Rightarrow> None
          | nx # f' \<Rightarrow>
              if nx \<in> set ''sSiIuU''
              then (case args of
                      [] \<Rightarrow> None
                    | a # args' \<Rightarrow> do {
                        t \<leftarrow> fmt_arg_text nx a;
                        (s2, i2) \<leftarrow> fmt_put True s1 i t;
                        sdscatfmt_loop f' args' s2 i2
                      })
              else do { (s2, i2) \<leftarrow> fmt_put False s1 i [nx]; sdscatfmt_loop f' args s2 i2 })
     }"

definition sdscatfmt :: "sds \<Rightarrow> string \<Rightarrow> fmt_arg list \<Rightarrow> sds option" where
  "sdscatfmt s fmt args =
     do {
       (s1, i) \<leftarrow> sdscatfmt_loop (c_str fmt) args s (to_int32 (int (sdslen s)));
       b \<leftarrow> (if i < 0 then None else put_chars (sd_buf s1) (nat i) [NUL]);
       Some (s1\<lparr>sd_buf := b\<rparr>)
     }"

section \<open>Operations in place\<close>

text \<open>\<open>strchr(cset, c)\<close> finds the terminator of \<open>cset\<close> too.\<close>

definition in_cset :: "string \<Rightarrow> char \<Rightarrow> bool" where
  "in_cset cset c \<longleftrightarrow> c = NUL \<or> c \<in> set (c_str cset)"

fun trim_ep :: "string \<Rightarrow> string \<Rightarrow> nat \<Rightarrow> nat \<Rightarrow> nat" where
  "trim_ep cset t sp ep = (if sp < ep \<and> in_cset cset (t ! ep) then trim_ep cset t sp (ep - 1) else ep)"

declare trim_ep.simps [simp del]

definition sdstrim :: "sds \<Rightarrow> string \<Rightarrow> sds option" where
  "sdstrim s cset =
     do {
       t \<leftarrow> get_chars (sd_buf s) 0 (sdslen s);
       (let sp = length (takeWhile (in_cset cset) t);
            len = (if sp = length t then 0 else trim_ep cset t sp (length t - 1) - sp + 1)
        in do {
          cs \<leftarrow> get_cells (sd_buf s) sp len;
          b1 \<leftarrow> put_cells (sd_buf s) 0 cs;
          b2 \<leftarrow> put_chars b1 len [NUL];
          Some (sdssetlen (s\<lparr>sd_buf := b2\<rparr>) len)
        })
     }"

text \<open>The start and the length of the range kept, with the conversions of \<open>len\<close> to \<open>int\<close>;
  \<^const>\<open>None\<close> where \<open>(end-start)+1\<close> overflows.\<close>

definition sdsrange_bounds :: "nat \<Rightarrow> int \<Rightarrow> int \<Rightarrow> (nat \<times> nat) option" where
  "sdsrange_bounds len start end0 =
     (let neg = (\<lambda>x. if x < 0 then max 0 (to_int32 (int len + x)) else x);
          st = neg start; en = neg end0; slen = to_int32 (int len)
      in if st > en then Some (0, 0)
         else if en - st + 1 \<ge> 2 ^ 31 then None
         else if st \<ge> slen then Some (nat st, 0)
         else if en \<ge> slen then Some (nat st, nat (slen - 1 - st + 1))
         else Some (nat st, nat (en - st + 1)))"

definition sdsrange :: "sds \<Rightarrow> int \<Rightarrow> int \<Rightarrow> sds option" where
  "sdsrange s start end0 =
     (if sdslen s = 0 then Some s
      else do {
        (st, newlen) \<leftarrow> sdsrange_bounds (sdslen s) start end0;
        b1 \<leftarrow> (if st \<noteq> 0 \<and> newlen \<noteq> 0 then do { cs \<leftarrow> get_cells (sd_buf s) st newlen; put_cells (sd_buf s) 0 cs }
               else Some (sd_buf s));
        b2 \<leftarrow> put_chars b1 newlen [NUL];
        Some (sdssetlen (s\<lparr>sd_buf := b2\<rparr>) newlen)
      })"

definition map_prefix :: "(char \<Rightarrow> char) \<Rightarrow> sds \<Rightarrow> nat \<Rightarrow> sds option" where
  "map_prefix f s n = do { t \<leftarrow> get_chars (sd_buf s) 0 n; b \<leftarrow> put_chars (sd_buf s) 0 (map f t); Some (s\<lparr>sd_buf := b\<rparr>) }"

definition sdstolower :: "sds \<Rightarrow> sds option" where
  "sdstolower s = map_prefix tolower s (nat (to_int32 (int (sdslen s))))"

definition sdstoupper :: "sds \<Rightarrow> sds option" where
  "sdstoupper s = map_prefix toupper s (nat (to_int32 (int (sdslen s))))"

fun mapchar :: "string \<Rightarrow> string \<Rightarrow> char \<Rightarrow> char" where
  "mapchar (f # fs) (t # ts) c = (if c = f then t else mapchar fs ts c)"
| "mapchar _ _ c = c"

definition sdsmapchars :: "sds \<Rightarrow> string \<Rightarrow> string \<Rightarrow> nat \<Rightarrow> sds option" where
  "sdsmapchars s from to setlen =
     (if setlen \<le> length from \<and> setlen \<le> length to
      then map_prefix (mapchar (take setlen from) (take setlen to)) s (sdslen s) else None)"

definition sdscmp :: "sds \<Rightarrow> sds \<Rightarrow> int option" where
  "sdscmp s1 s2 =
     (let l1 = sdslen s1; l2 = sdslen s2; minlen = (if l1 < l2 then l1 else l2)
      in do {
        a \<leftarrow> get_chars (sd_buf s1) 0 minlen;
        b \<leftarrow> get_chars (sd_buf s2) 0 minlen;
        (let cmp = memcmp a b in Some (if cmp = 0 then to_int32 (int l1 - int l2) else cmp))
      })"

section \<open>Splitting, joining, quoting\<close>

function split_loop :: "string \<Rightarrow> string \<Rightarrow> nat \<Rightarrow> nat \<Rightarrow> sds list option" where
  "split_loop s sep start j =
     (if int j < int (length s) - (int (length sep) - 1) \<and> sep \<noteq> []
      then if length sep = 1 \<and> s ! j = sep ! 0 \<or> take (length sep) (drop j s) = sep
           then do {
             tok \<leftarrow> sdsnewlen (Some (drop start s)) (j - start);
             toks \<leftarrow> split_loop s sep (j + length sep) (j + length sep);
             Some (tok # toks)
           }
           else split_loop s sep start (j + 1)
      else do { tok \<leftarrow> sdsnewlen (Some (drop start s)) (length s - start); Some [tok] })"
  by pat_completeness auto
termination
  by (relation "measure (\<lambda>(s, sep, start, j). length s + 1 - j)") (auto simp: length_greater_0_conv [symmetric] simp del: length_greater_0_conv)

declare split_loop.simps [simp del]

text \<open>The inner \<^const>\<open>None\<close> is the \<open>NULL\<close> of an empty separator. The array of tokens is a list, without
  the doubling of its allocation.\<close>

definition sdssplitlen :: "string \<Rightarrow> string \<Rightarrow> sds list option option" where
  "sdssplitlen s sep =
     (if length sep < 1 then Some None
      else if s = [] then Some (Some [])
      else map_option Some (split_loop s sep 0 0))"

fun join_loop :: "('a \<Rightarrow> sds \<Rightarrow> sds option) \<Rightarrow> (sds \<Rightarrow> sds option) \<Rightarrow> 'a list \<Rightarrow> sds \<Rightarrow> sds option" where
  "join_loop cat cat_sep [] s = Some s"
| "join_loop cat cat_sep (a # as) s =
     do {
       s1 \<leftarrow> cat a s;
       s2 \<leftarrow> (if as \<noteq> [] then cat_sep s1 else Some s1);
       join_loop cat cat_sep as s2
     }"

definition sdsjoin :: "string list \<Rightarrow> string \<Rightarrow> sds option" where
  "sdsjoin argv sep = do { s \<leftarrow> sdsempty; join_loop (\<lambda>a s. sdscat s a) (\<lambda>s. sdscat s sep) argv s }"

definition sdsjoinsds :: "sds list \<Rightarrow> string \<Rightarrow> sds option" where
  "sdsjoinsds argv sep = do { s \<leftarrow> sdsempty; join_loop (\<lambda>a s. sdscatsds s a) (\<lambda>s. sdscatlen s sep) argv s }"

definition hex_char :: "nat \<Rightarrow> char" where
  "hex_char d = (if d < 10 then char_of (48 + d) else char_of (87 + d))"

definition repr_char :: "char \<Rightarrow> string" where
  "repr_char c =
     (if c = CHR 0x5C \<or> c = CHR 0x22 then [CHR 0x5C, c]
      else if c = CHR 0x0A then [CHR 0x5C, CHR ''n'']
      else if c = CHR 0x0D then [CHR 0x5C, CHR ''r'']
      else if c = CHR 0x09 then [CHR 0x5C, CHR ''t'']
      else if c = CHR 0x07 then [CHR 0x5C, CHR ''a'']
      else if c = CHR 0x08 then [CHR 0x5C, CHR ''b'']
      else if isprint c then [c]
      else [CHR 0x5C, CHR ''x'', hex_char (chr_code c div 16), hex_char (chr_code c mod 16)])"

fun catrepr_loop :: "sds \<Rightarrow> string \<Rightarrow> sds option" where
  "catrepr_loop s [] = Some s"
| "catrepr_loop s (c # p) = do { s1 \<leftarrow> sdscatlen s (repr_char c); catrepr_loop s1 p }"

definition sdscatrepr :: "sds \<Rightarrow> string \<Rightarrow> sds option" where
  "sdscatrepr s p = do { s1 \<leftarrow> sdscatlen s [CHR 0x22]; s2 \<leftarrow> catrepr_loop s1 p; sdscatlen s2 [CHR 0x22] }"

definition is_hex_digit :: "char \<Rightarrow> bool" where
  "is_hex_digit c \<longleftrightarrow> (48::nat) \<le> chr_code c \<and> chr_code c \<le> (57::nat) \<or> (97::nat) \<le> chr_code c \<and> chr_code c \<le> (102::nat) \<or>
     (65::nat) \<le> chr_code c \<and> chr_code c \<le> (70::nat)"

definition hex_digit_to_int :: "char \<Rightarrow> nat" where
  "hex_digit_to_int c =
     (if 48 \<le> chr_code c \<and> chr_code c \<le> (57::nat) then chr_code c - 48
      else if 97 \<le> chr_code c \<and> chr_code c \<le> (102::nat) then chr_code c - 87
      else if 65 \<le> chr_code c \<and> chr_code c \<le> (70::nat) then chr_code c - 55
      else 0)"

datatype quoting = Unquoted | InQ | InSQ

text \<open>\<open>*p\<close> of a string with its terminator cut off.\<close>

definition peek :: "string \<Rightarrow> char" where
  "peek p = (case p of [] \<Rightarrow> NUL | c # _ \<Rightarrow> c)"

definition unescape :: "char \<Rightarrow> char" where
  "unescape c =
     (if c = CHR ''n'' then CHR 0x0A else if c = CHR ''r'' then CHR 0x0D else if c = CHR ''t'' then CHR 0x09
      else if c = CHR ''b'' then CHR 0x08 else if c = CHR ''a'' then CHR 0x07 else c)"

text \<open>One token from \<open>p\<close>: its text and the rest of the line, or \<^const>\<open>None\<close> for \<open>goto err\<close>.\<close>

function (sequential) get_token :: "quoting \<Rightarrow> string \<Rightarrow> string \<Rightarrow> (string \<times> string) option" where
  "get_token InQ p cur =
     (if peek p = CHR 0x5C \<and> peek (drop 1 p) = CHR ''x'' \<and> is_hex_digit (peek (drop 2 p)) \<and> is_hex_digit (peek (drop 3 p))
      then get_token InQ (drop 4 p)
             (cur @ [char_of ((hex_digit_to_int (peek (drop 2 p)) * 16 + hex_digit_to_int (peek (drop 3 p))) mod 256)])
      else if peek p = CHR 0x5C \<and> peek (drop 1 p) \<noteq> NUL then get_token InQ (drop 2 p) (cur @ [unescape (peek (drop 1 p))])
      else if peek p = CHR 0x22
      then if peek (drop 1 p) \<noteq> NUL \<and> \<not> isspace (peek (drop 1 p)) then None else Some (cur, drop 1 p)
      else if peek p = NUL then None
      else get_token InQ (drop 1 p) (cur @ [peek p]))"
| "get_token InSQ p cur =
     (if peek p = CHR 0x5C \<and> peek (drop 1 p) = CHR 0x27 then get_token InSQ (drop 2 p) (cur @ [CHR 0x27])
      else if peek p = CHR 0x27
      then if peek (drop 1 p) \<noteq> NUL \<and> \<not> isspace (peek (drop 1 p)) then None else Some (cur, drop 1 p)
      else if peek p = NUL then None
      else get_token InSQ (drop 1 p) (cur @ [peek p]))"
| "get_token Unquoted p cur =
     (if peek p = NUL then Some (cur, p)
      else if peek p \<in> {CHR '' '', CHR 0x0A, CHR 0x0D, CHR 0x09} then Some (cur, drop 1 p)
      else if peek p = CHR 0x22 then get_token InQ (drop 1 p) cur
      else if peek p = CHR 0x27 then get_token InSQ (drop 1 p) cur
      else get_token Unquoted (drop 1 p) (cur @ [peek p]))"
  by pat_completeness auto
termination
  by (relation "measure (\<lambda>(q, p, cur). length p)") (auto simp: peek_def NUL_def split: list.splits)

declare get_token.simps [simp del]

lemma peek_simps [simp]: "peek [] = NUL" "peek (c # p) = c"
  by (simp_all add: peek_def)

lemma get_token_shorter: "get_token q p cur = Some (t, p') \<Longrightarrow> length p' \<le> length p"
proof (induction "length p" arbitrary: q p cur rule: less_induct)
  case less
  have IH: "length p' \<le> length p" if "get_token r (drop k p) c = Some (t, p')" "p \<noteq> []" "0 < k" for r k c
  proof -
    have "length (drop k p) < length p" using that(2,3) by simp
    from less.hyps [OF this that(1)] show ?thesis by simp
  qed
  show ?case
  proof (cases "p = []")
    case True
    then show ?thesis using less.prems by (cases q) (auto simp: get_token.simps [of "[]"] NUL_def)
  next
    case False
    note I = IH [OF _ False]
    show ?thesis
    proof (cases q)
      case Unquoted
      show ?thesis using less.prems unfolding Unquoted get_token.simps(3) [of p] by (auto split: if_splits dest: I)
    next
      case InQ
      show ?thesis using less.prems unfolding InQ get_token.simps(1) [of p]
        by (simp split: if_splits add: I) (auto dest: I)
    next
      case InSQ
      show ?thesis using less.prems unfolding InSQ get_token.simps(2) [of p] by (auto split: if_splits dest: I)
    qed
  qed
qed

lemma get_token_consumes:
  assumes "get_token Unquoted p cur = Some (t, p')" "peek p \<noteq> NUL"
  shows "length p' < length p"
proof -
  have "p \<noteq> []" using assms(2) by auto
  then have "length (drop 1 p) < length p" by simp
  then show ?thesis using assms unfolding get_token.simps(3) [of p]
    by (auto split: if_splits dest!: get_token_shorter)
qed

text \<open>The loop over the tokens; the tokens are given by their text.\<close>

function splitargs_loop :: "string \<Rightarrow> string list option" where
  "splitargs_loop line =
     (let p = dropWhile (\<lambda>c. c \<noteq> NUL \<and> isspace c) line
      in if peek p = NUL then Some []
         else case get_token Unquoted p [] of
             None \<Rightarrow> None
           | Some (tok, p') \<Rightarrow> map_option (Cons tok) (splitargs_loop p'))"
  by pat_completeness auto
termination
proof (relation "measure length", goal_cases)
  case (2 line p a tok p')
  have "length p \<le> length line" unfolding 2(1) by (rule length_dropWhile_le)
  then show ?case using get_token_consumes [of p "[]" tok p'] 2 by simp
qed simp

declare splitargs_loop.simps [simp del]

definition sdssplitargs :: "string \<Rightarrow> string list option" where
  "sdssplitargs line = splitargs_loop line"

end
