(* ===== verification/SdsSpec.thy ===== *)
theory SdsSpec
  imports Sds "HOL-Library.Sublist"
begin

text \<open>
  The operations of \<open>sds.c\<close> implement operations on plain strings: \<open>sds_rep s t\<close> says that the header,
  the capacity and the allocation of \<open>s\<close> fit together and that its text is \<open>t\<close>. The lemmas show, for
  every operation, that it runs without error on such strings and what it does to the text;
  \<open>sdssplitargs\<close> reads back what \<open>sdscatrepr\<close> prints, and \<open>sdssplitlen\<close> and \<open>sdsjoinsds\<close> are inverse.
\<close>

section \<open>Dynamic strings represent strings\<close>

text \<open>The type of a string: the header can hold the capacity, the capacity is within the allocation, and
  behind the \<open>length t\<close> bytes of the text stands the terminator.\<close>

definition sds_rep :: "sds \<Rightarrow> string \<Rightarrow> bool" where
  "sds_rep s t \<longleftrightarrow> sd_len s = length t \<and> length t \<le> sdsalloc s \<and> sdsalloc s < 2 ^ type_bits (sd_type s) \<and>
     sdsalloc s < length (sd_buf s) \<and> (sd_type s \<noteq> SDS_TYPE_5 \<longrightarrow> length (sd_buf s) = sd_alloc s + 1) \<and>
     take (length t + 1) (sd_buf s) = map Some (t @ [NUL])"

text \<open>The same while the terminator is not yet written, as within \<open>sdscatfmt\<close>.\<close>

definition sds_body :: "sds \<Rightarrow> string \<Rightarrow> bool" where
  "sds_body s t \<longleftrightarrow> sd_len s = length t \<and> length t \<le> sdsalloc s \<and> sdsalloc s < 2 ^ type_bits (sd_type s) \<and>
     sdsalloc s < length (sd_buf s) \<and> (sd_type s \<noteq> SDS_TYPE_5 \<longrightarrow> length (sd_buf s) = sd_alloc s + 1) \<and>
     take (length t) (sd_buf s) = map Some t"

text \<open>Sizes far below the wrap-around of \<open>size_t\<close>.\<close>

definition sds_fits :: "nat \<Rightarrow> bool" where
  "sds_fits n \<longleftrightarrow> n < 2 ^ 62"

lemma size_t_id: "n < 2 ^ 64 \<Longrightarrow> size_t (int n) = n"
proof -
  assume "n < 2 ^ 64"
  then have "int n < 2 ^ 64" by (metis of_nat_less_numeral_power_cancel_iff)
  then show ?thesis by (simp add: size_t_def)
qed

lemma those_Some [simp]: "those (map Some xs) = Some xs"
  by (induction xs) simp_all

lemma put_chars_Some: "i + length t \<le> length b \<Longrightarrow> put_chars b i t = Some (take i b @ map Some t @ drop (i + length t) b)"
  by (simp add: put_chars_def put_cells_def)

lemma take_map_prefix:
  assumes "take (length t + 1) b = map Some (t @ [NUL])"
  shows "take (length t) b = map Some t" "length t < length b"
proof -
  have "take (length t) (take (length t + 1) b) = map Some t" unfolding assms by simp
  then show "take (length t) b = map Some t" by (simp add: min_def)
  have "length (take (length t + 1) b) = length t + 1" unfolding assms by simp
  then show "length t < length b" by simp
qed

lemma sds_rep_body: "sds_rep s t \<longleftrightarrow> sds_body s t \<and> take (length t + 1) (sd_buf s) = map Some (t @ [NUL])"
  using take_map_prefix(1) [of t "sd_buf s"] by (auto simp: sds_rep_def sds_body_def)

lemma get_chars_prefix:
  assumes "sds_rep s t" "n \<le> length t"
  shows "get_chars (sd_buf s) 0 n = Some (take n t)"
proof -
  note P = take_map_prefix [of t "sd_buf s"]
  have r: "take (length t + 1) (sd_buf s) = map Some (t @ [NUL])" using assms(1) by (simp add: sds_rep_def)
  have "take n (sd_buf s) = take n (take (length t) (sd_buf s))" using assms(2) by simp
  also have "\<dots> = map Some (take n t)" unfolding P(1) [OF r] by (simp add: take_map)
  finally have "take n (sd_buf s) = map Some (take n t)" .
  then show ?thesis using P(2) [OF r] assms(2) by (simp add: get_chars_def get_cells_def)
qed

lemma get_chars_rep: "sds_rep s t \<Longrightarrow> get_chars (sd_buf s) 0 (sdslen s) = Some t"
  using get_chars_prefix [of s t "length t"] by (simp add: sds_rep_def sdslen_def)

lemma sdslen_rep: "sds_rep s t \<Longrightarrow> sdslen s = length t"
  by (simp add: sds_rep_def sdslen_def)

lemma mod_pow_diff: "l \<le> a \<Longrightarrow> a < 2 ^ k \<Longrightarrow> nat ((int a - int l) mod 2 ^ k) = a - l"
proof -
  assume a: "l \<le> a" "a < 2 ^ k"
  then have "int (a - l) < int (2 ^ k)" by (metis less_imp_diff_less of_nat_less_iff)
  then have "int (a - l) mod 2 ^ k = int (a - l)" by simp
  then show ?thesis using a(1) by (simp add: of_nat_diff)
qed

lemma type_bits_le: "2 ^ type_bits ty \<le> (2::nat) ^ 64"
  by (cases ty) simp_all

lemma sdsavail_body:
  assumes "sds_body s t"
  shows "sdsavail s = sdsalloc s - length t"
proof (cases "sd_type s = SDS_TYPE_5")
  case True
  then show ?thesis using assms by (simp add: sdsavail_def sdsalloc_def sds_body_def)
next
  case False
  then have b: "length t \<le> sd_alloc s" "sd_alloc s < 2 ^ type_bits (sd_type s)" "sd_len s = length t"
    using assms by (auto simp: sds_body_def sdsalloc_def)
  have w: "sd_alloc s < 2 ^ 64" using b(2) type_bits_le [of "sd_type s"] by linarith
  show ?thesis using b(2) False mod_pow_diff [OF b(1) w] mod_pow_diff [OF b(1), of 32] unfolding sdsavail_def sdsalloc_def size_t_def b(3)
    by (cases "sd_type s") (simp_all only: sds_type.simps if_False type_bits.simps simp_thms)
qed

lemma sdsavail_rep: "sds_rep s t \<Longrightarrow> sdsavail s = sdsalloc s - length t"
  by (simp add: sds_rep_body sdsavail_body)

text \<open>Storing a text that fits.\<close>

lemma sds_rep_store:
  assumes "sds_rep s t" "length u \<le> sdsalloc s" "length b = length (sd_buf s)" "take (length u + 1) b = map Some (u @ [NUL])"
  shows "sds_rep (sdssetlen (s\<lparr>sd_buf := b\<rparr>) (length u)) u"
  using assms by (auto simp: sds_rep_def sdssetlen_def sdsalloc_def)

lemma sdsReqType_bits: "n < 2 ^ 64 \<Longrightarrow> n < 2 ^ type_bits (sdsReqType n)"
  by (simp add: sdsReqType_def)

lemma s_malloc_length: "h + n + 1 < 2 ^ 64 \<Longrightarrow> length (s_malloc h n) = n + 1"
  unfolding s_malloc_def by (subst size_t_id) simp_all

lemma s_realloc_eq: "h + n + 1 < 2 ^ 64 \<Longrightarrow> s_realloc h b n = take (n + 1) b @ replicate (n + 1 - length b) None"
  unfolding s_realloc_def Let_def by (simp only: size_t_id) simp

lemma s_realloc_length: "h + n + 1 < 2 ^ 64 \<Longrightarrow> length (s_realloc h b n) = n + 1"
  by (subst s_realloc_eq) simp_all

lemma take_s_realloc: "h + n + 1 < 2 ^ 64 \<Longrightarrow> k \<le> n + 1 \<Longrightarrow> k \<le> length b \<Longrightarrow> take k (s_realloc h b n) = take k b"
  by (subst s_realloc_eq) (simp_all add: min_def)

lemma sdsHdrSize_le: "sdsHdrSize ty \<le> 17"
  by (cases ty) simp_all

lemma resize_to_body:
  assumes "sds_body s t" "length t \<le> n" "n < 2 ^ 63" "n < 2 ^ type_bits ty" "ty = SDS_TYPE_5 \<Longrightarrow> n = length t"
  shows "\<exists>s'. resize_to s ty n = Some s' \<and> sds_body s' t \<and> sdsalloc s' = n \<and>
    take (length t + 1) (sd_buf s') = take (length t + 1) (sd_buf s)"
proof -
  have h: "sdsHdrSize ty + n + 1 < 2 ^ 64" using assms(3) sdsHdrSize_le [of ty] by simp
  have r: "take (length t) (sd_buf s) = map Some t" "sd_len s = length t" "length t < length (sd_buf s)" using assms(1) by (auto simp: sds_body_def)
  let ?c = "take (length t + 1) (sd_buf s)"
  have c: "length ?c = length t + 1" "take (length t) ?c = map Some t" using r by (simp_all add: min_def)
  show ?thesis
  proof (cases "sd_type s = ty")
    case True
    let ?b = "s_realloc (sdsHdrSize ty) (sd_buf s) n"
    have b: "take (length t + 1) ?b = ?c" "length ?b = n + 1"
      using take_s_realloc [OF h, of "length t + 1" "sd_buf s"] r assms(2) s_realloc_length [OF h] by simp_all
    have "take (length t) ?b = map Some t" using arg_cong [OF b(1), of "take (length t)"] c(2) by (simp add: min_def)
    then show ?thesis using True assms(2,4,5) r(2) b
      by (auto simp: resize_to_def sds_body_def sdssetalloc_def sdsalloc_def)
  next
    case False
    let ?b = "?c @ drop (length t + 1) (s_malloc (sdsHdrSize ty) n)"
    have "get_cells (sd_buf s) 0 (sdslen s + 1) = Some ?c" using r by (simp add: get_cells_def sdslen_def)
    moreover have "put_cells (s_malloc (sdsHdrSize ty) n) 0 ?c = Some ?b"
      using s_malloc_length [OF h] assms(2) c(1) by (simp add: put_cells_def del: length_take)
    moreover have "take (length t + 1) ?b = ?c" "take (length t) ?b = map Some t" "length ?b = n + 1"
      using c s_malloc_length [OF h] assms(2) by (simp_all del: length_take take_take)
    ultimately show ?thesis using False assms(2,4,5) r(2)
      by (auto simp: resize_to_def sds_body_def sdssetalloc_def sdsalloc_def sdssetlen_def sdslen_def simp del: take_append length_append)
  qed
qed

lemma resize_to_rep:
  assumes "sds_rep s t" "length t \<le> n" "n < 2 ^ 63" "n < 2 ^ type_bits ty" "ty = SDS_TYPE_5 \<Longrightarrow> n = length t"
  shows "\<exists>s'. resize_to s ty n = Some s' \<and> sds_rep s' t \<and> sdsalloc s' = n"
  using resize_to_body [of s t n ty] assms by (auto simp: sds_rep_body)

lemma sdsMakeRoomFor_body:
  assumes "sds_body s t" "sds_fits (length t + n)"
  shows "\<exists>s'. sdsMakeRoomFor s n = Some s' \<and> sds_body s' t \<and> length t + n \<le> sdsalloc s' \<and> n \<le> sdsavail s' \<and>
    take (length t + 1) (sd_buf s') = take (length t + 1) (sd_buf s)"
proof (cases "n \<le> sdsavail s")
  case True
  then show ?thesis using assms(1) sdsavail_body [OF assms(1)] by (auto simp: sdsMakeRoomFor_def sds_body_def)
next
  case False
  let ?n = "length t + n"
  let ?m = "if ?n < SDS_MAX_PREALLOC then ?n * 2 else ?n + SDS_MAX_PREALLOC"
  let ?ty = "if sdsReqType ?m = SDS_TYPE_5 then SDS_TYPE_8 else sdsReqType ?m"
  have fit: "?n < 2 ^ 62" using assms(2) by (simp add: sds_fits_def)
  have m: "?n \<le> ?m" "?m < 2 ^ 63" using fit by (simp_all add: SDS_MAX_PREALLOC_def)
  have len: "sdslen s = length t" using assms(1) by (simp add: sds_body_def sdslen_def)
  have eq: "sdsMakeRoomFor s n = resize_to s ?ty ?m"
  proof -
    have "size_t (int ?n) = ?n" "size_t (int (?n * 2)) = ?n * 2" "size_t (int (?n + SDS_MAX_PREALLOC)) = ?n + SDS_MAX_PREALLOC"
      by (rule size_t_id, use fit in \<open>simp add: SDS_MAX_PREALLOC_def\<close>)+
    then show ?thesis using False unfolding sdsMakeRoomFor_def Let_def len by simp
  qed
  have ty: "k < 2 ^ type_bits (if sdsReqType k = SDS_TYPE_5 then SDS_TYPE_8 else sdsReqType k)" if "k < 2 ^ 63" for k
    using sdsReqType_bits [of k] that by (cases "sdsReqType k = SDS_TYPE_5") simp_all
  have "\<exists>s'. resize_to s ?ty ?m = Some s' \<and> sds_body s' t \<and> sdsalloc s' = ?m \<and> take (length t + 1) (sd_buf s') = take (length t + 1) (sd_buf s)"
    by (rule resize_to_body [OF assms(1) _ m(2) ty [OF m(2)]]) (use m(1) in linarith, metis sds_type.distinct(1))
  then show ?thesis unfolding eq using m(1) by (auto simp: sdsavail_body)
qed

lemma sdsMakeRoomFor_rep:
  assumes "sds_rep s t" "sds_fits (length t + n)"
  shows "\<exists>s'. sdsMakeRoomFor s n = Some s' \<and> sds_rep s' t \<and> length t + n \<le> sdsalloc s' \<and> n \<le> sdsavail s'"
  using sdsMakeRoomFor_body [of s t n] assms by (auto simp: sds_rep_body)

lemma sdsRemoveFreeSpace_rep:
  assumes "sds_rep s t" "sds_fits (length t)"
  shows "\<exists>s'. sdsRemoveFreeSpace s = Some s' \<and> sds_rep s' t \<and> sdsalloc s' = length t"
  unfolding sdsRemoveFreeSpace_def sdslen_rep [OF assms(1)] using assms
  by (intro resize_to_rep) (auto simp: sds_fits_def intro: sdsReqType_bits)

lemma sdsnewlen_rep:
  assumes "sds_fits n" "case init of None \<Rightarrow> t = replicate n NUL | Some p \<Rightarrow> n \<le> length p \<and> t = take n p"
  shows "\<exists>s. sdsnewlen init n = Some s \<and> sds_rep s t"
proof -
  let ?ty = "if sdsReqType n = SDS_TYPE_5 \<and> n = 0 then SDS_TYPE_8 else sdsReqType n"
  have fit: "n < 2 ^ 62" using assms(1) by (simp add: sds_fits_def)
  have ty: "n < 2 ^ type_bits ?ty" using sdsReqType_bits [of n] fit by simp
  have l: "length (s_malloc (sdsHdrSize ?ty) n) = n + 1" using fit sdsHdrSize_le [of ?ty] by (intro s_malloc_length) simp
  have lt: "length t = n" using assms(2) by (auto split: option.splits)
  define b where "b = (case init of None \<Rightarrow> map (\<lambda>_. Some NUL) (s_malloc (sdsHdrSize ?ty) n) | Some _ \<Rightarrow> s_malloc (sdsHdrSize ?ty) n)"
  have lb: "length b = n + 1" using l unfolding b_def by (cases init) simp_all
  have c: "(case init of None \<Rightarrow> Some b | Some p \<Rightarrow> if n = 0 then Some b else if length p < n then None else put_chars b 0 (take n p))
      = Some (map Some t @ drop n b)"
  proof (cases init)
    case None
    have "b = replicate (n + 1) (Some NUL)" using None l by (simp only: b_def option.case map_replicate_const)
    then have "b = map Some (replicate n NUL) @ [Some NUL]" by (simp add: replicate_append_same)
    then show ?thesis using None assms(2) by simp
  next
    case (Some p)
    then show ?thesis using assms(2) lb by (auto simp: put_chars_Some min_def)
  qed
  let ?s0 = "sdssetalloc (sdssetlen \<lparr>sd_type = ?ty, sd_len = 0, sd_alloc = 0, sd_buf = b\<rparr> n) n"
  have p: "put_chars (map Some t @ drop n b) n [NUL] = Some (map Some (t @ [NUL]))" using lb lt by (simp add: put_chars_Some)
  have "sdsnewlen init n = Some (?s0\<lparr>sd_buf := map Some (t @ [NUL])\<rparr>)"
    unfolding sdsnewlen_def Let_def b_def [symmetric] c using p by simp
  moreover have "sds_rep ((sdssetalloc (sdssetlen \<lparr>sd_type = y, sd_len = 0, sd_alloc = 0, sd_buf = b\<rparr> n) n)\<lparr>sd_buf := map Some (t @ [NUL])\<rparr>) t"
    if "n < 2 ^ type_bits y" for y
    using that lt by (cases y) (simp_all add: sds_rep_def sdssetalloc_def sdssetlen_def sdsalloc_def)
  ultimately show ?thesis using ty by blast
qed

lemma sds_rep_append:
  assumes "sds_rep s t" "length t + length u \<le> sdsalloc s"
  shows "\<exists>b. put_chars (sd_buf s) (length t) u = Some b \<and>
    (\<exists>b'. put_chars b (length t + length u) [NUL] = Some b' \<and> sds_rep (sdssetlen (s\<lparr>sd_buf := b'\<rparr>) (length t + length u)) (t @ u))"
proof -
  have r: "take (length t + 1) (sd_buf s) = map Some (t @ [NUL])" "sdsalloc s < length (sd_buf s)" using assms(1) by (simp_all add: sds_rep_def)
  let ?b = "map Some (t @ u) @ drop (length t + length u) (sd_buf s)"
  have b: "put_chars (sd_buf s) (length t) u = Some ?b" using take_map_prefix(1) [OF r(1)] r(2) assms(2) by (simp add: put_chars_Some)
  let ?b' = "map Some (t @ u @ [NUL]) @ drop (length t + length u + 1) (sd_buf s)"
  have b': "put_chars ?b (length t + length u) [NUL] = Some ?b'" using r(2) assms(2) by (simp add: put_chars_Some)
  have "sds_rep (sdssetlen (s\<lparr>sd_buf := ?b'\<rparr>) (length (t @ u))) (t @ u)"
    by (rule sds_rep_store [OF assms(1)]) (use assms(2) r(2) in simp_all)
  then show ?thesis using b b' by simp
qed

lemma setlen_upd: "(sdssetlen s n)\<lparr>sd_buf := b\<rparr> = sdssetlen (s\<lparr>sd_buf := b\<rparr>) n"
  by (simp add: sdssetlen_def)

lemma sdscatlen_rep:
  assumes "sds_rep s t" "sds_fits (length t + length u)"
  shows "\<exists>s'. sdscatlen s u = Some s' \<and> sds_rep s' (t @ u)"
proof -
  obtain s1 where s1: "sdsMakeRoomFor s (length u) = Some s1" "sds_rep s1 t" "length t + length u \<le> sdsalloc s1"
    using sdsMakeRoomFor_rep [OF assms] by blast
  from sds_rep_append [OF s1(2,3)] show ?thesis unfolding sdscatlen_def Let_def sdslen_rep [OF assms(1)] setlen_upd
    using s1(1) by auto
qed

lemma sdsgrowzero_rep:
  assumes "sds_rep s t" "sds_fits n"
  shows "\<exists>s'. sdsgrowzero s n = Some s' \<and> sds_rep s' (t @ replicate (n - length t) NUL)"
proof (cases "n \<le> length t")
  case True
  then show ?thesis using assms(1) by (simp add: sdsgrowzero_def Let_def sdslen_rep)
next
  case False
  then obtain s1 where s1: "sdsMakeRoomFor s (n - length t) = Some s1" "sds_rep s1 t" "n \<le> sdsalloc s1"
    using sdsMakeRoomFor_rep [OF assms(1), of "n - length t"] assms(2) by auto
  have r: "take (length t + 1) (sd_buf s1) = map Some (t @ [NUL])" "sdsalloc s1 < length (sd_buf s1)" using s1(2) by (simp_all add: sds_rep_def)
  let ?u = "replicate (n - length t) NUL"
  let ?b = "map Some (t @ ?u @ [NUL]) @ drop (n + 1) (sd_buf s1)"
  have b: "put_chars (sd_buf s1) (length t) (replicate (n - length t + 1) NUL) = Some ?b"
    using take_map_prefix(1) [OF r(1)] r(2) s1(3) False by (simp add: put_chars_Some replicate_append_same)
  have "sds_rep (sdssetlen (s1\<lparr>sd_buf := ?b\<rparr>) (length (t @ ?u))) (t @ ?u)"
    by (rule sds_rep_store [OF s1(2)]) (use s1(3) r(2) False in simp_all)
  then show ?thesis unfolding sdsgrowzero_def Let_def sdslen_rep [OF assms(1)] using s1(1) b False by simp
qed

lemma sdscpylen_rep:
  assumes "sds_rep s t" "sds_fits (length u)"
  shows "\<exists>s'. sdscpylen s u = Some s' \<and> sds_rep s' u"
proof -
  have "\<exists>s1. (if sdsalloc s < length u then sdsMakeRoomFor s (size_t (int (length u) - int (sdslen s))) else Some s) = Some s1 \<and>
    sds_rep s1 t \<and> length u \<le> sdsalloc s1"
  proof (cases "sdsalloc s < length u")
    case True
    then have l: "length t \<le> length u" using assms(1) by (simp add: sds_rep_def)
    have "int (length u) - int (length t) = int (length u - length t)" using l by simp
    then have "size_t (int (length u) - int (length t)) = length u - length t"
      using assms(2) by (simp only:) (rule size_t_id, simp add: sds_fits_def)
    moreover have "sds_fits (length t + (length u - length t))" using l assms(2) by simp
    ultimately show ?thesis using True sdsMakeRoomFor_rep [OF assms(1), of "length u - length t"] l by (auto simp: sdslen_rep [OF assms(1)])
  next
    case False
    then show ?thesis using assms(1) by simp
  qed
  then obtain s1 where s1: "(if sdsalloc s < length u then sdsMakeRoomFor s (size_t (int (length u) - int (sdslen s))) else Some s) = Some s1"
    "sds_rep s1 t" "length u \<le> sdsalloc s1" by blast
  have lb: "sdsalloc s1 < length (sd_buf s1)" using s1(2) by (simp add: sds_rep_def)
  let ?b1 = "map Some u @ drop (length u) (sd_buf s1)" let ?b2 = "map Some (u @ [NUL]) @ drop (length u + 1) (sd_buf s1)"
  have b: "put_chars (sd_buf s1) 0 u = Some ?b1" "put_chars ?b1 (length u) [NUL] = Some ?b2" using s1(3) lb by (simp_all add: put_chars_Some)
  have "sds_rep (sdssetlen (s1\<lparr>sd_buf := ?b2\<rparr>) (length u)) u"
    by (rule sds_rep_store [OF s1(2,3)]) (use s1(3) lb in simp_all)
  then show ?thesis unfolding sdscpylen_def s1(1) using b by simp
qed

lemma sdsclear_rep:
  assumes "sds_rep s t"
  shows "\<exists>s'. sdsclear s = Some s' \<and> sds_rep s' []"
proof -
  have "0 < length (sd_buf s)" using assms by (auto simp: sds_rep_def)
  then have b: "put_chars (sd_buf s) 0 [NUL] = Some (Some NUL # drop 1 (sd_buf s))" by (simp add: put_chars_Some Suc_le_eq)
  have "sds_rep (sdssetlen (s\<lparr>sd_buf := Some NUL # drop 1 (sd_buf s)\<rparr>) (length ([]::string))) []"
    by (rule sds_rep_store [OF assms]) (use \<open>0 < length (sd_buf s)\<close> in simp_all)
  then show ?thesis using b by (simp add: sdsclear_def setlen_upd)
qed

text \<open>Keeping the bytes \<open>i\<close> to \<open>i + n - 1\<close>.\<close>

lemma keep_range:
  assumes "sds_rep s t" "i + n \<le> length t"
  shows "get_cells (sd_buf s) i n = Some (map Some (take n (drop i t)))"
    "put_cells (sd_buf s) 0 (map Some (take n (drop i t))) = Some (map Some (take n (drop i t)) @ drop n (sd_buf s))"
    "put_chars (map Some (take n (drop i t)) @ drop n (sd_buf s)) n [NUL] = Some (map Some (take n (drop i t) @ [NUL]) @ drop (n + 1) (sd_buf s))"
    "sds_rep (sdssetlen (s\<lparr>sd_buf := map Some (take n (drop i t) @ [NUL]) @ drop (n + 1) (sd_buf s)\<rparr>) n) (take n (drop i t))"
proof -
  have r: "take (length t + 1) (sd_buf s) = map Some (t @ [NUL])" "length t \<le> sdsalloc s" "sdsalloc s < length (sd_buf s)"
    using assms(1) by (simp_all add: sds_rep_def)
  have "take n (drop i (sd_buf s)) = take n (drop i (take (length t) (sd_buf s)))" using assms(2) by (simp add: drop_take min_def)
  then have c: "take n (drop i (sd_buf s)) = map Some (take n (drop i t))"
    unfolding take_map_prefix(1) [OF r(1)] by (simp add: take_map drop_map)
  have l: "length (take n (drop i t)) = n" using assms(2) by simp
  show "get_cells (sd_buf s) i n = Some (map Some (take n (drop i t)))" using c r assms(2) by (simp add: get_cells_def)
  show "put_cells (sd_buf s) 0 (map Some (take n (drop i t))) = Some (map Some (take n (drop i t)) @ drop n (sd_buf s))"
    using r assms(2) l by (simp add: put_cells_def del: length_take)
  show "put_chars (map Some (take n (drop i t)) @ drop n (sd_buf s)) n [NUL] = Some (map Some (take n (drop i t) @ [NUL]) @ drop (n + 1) (sd_buf s))"
    using r assms(2) l by (simp add: put_chars_Some)
  have "sds_rep (sdssetlen (s\<lparr>sd_buf := map Some (take n (drop i t) @ [NUL]) @ drop (n + 1) (sd_buf s)\<rparr>) (length (take n (drop i t)))) (take n (drop i t))"
    by (rule sds_rep_store [OF assms(1)]) (use l r assms(2) in simp_all)
  then show "sds_rep (sdssetlen (s\<lparr>sd_buf := map Some (take n (drop i t) @ [NUL]) @ drop (n + 1) (sd_buf s)\<rparr>) n) (take n (drop i t))"
    using l by simp
qed

definition slice :: "string \<Rightarrow> int \<Rightarrow> int \<Rightarrow> string" where
  "slice t a b = (let pos = (\<lambda>x. nat (if x < 0 then max 0 (int (length t) + x) else x)) in drop (pos a) (take (pos b + 1) t))"

lemma slice_from: "t \<noteq> [] \<Longrightarrow> slice t (int n) (-1) = drop n t"
  by (cases t) (simp_all add: slice_def Let_def nat_add_distrib)

lemma sdsrange_bounds_slice:
  assumes "t \<noteq> []" "length t < 2 ^ 31" "int32 a" "int32 b" "b < 2 ^ 31 - 1"
  shows "\<exists>i n. sdsrange_bounds (length t) a b = Some (i, n) \<and> (n \<noteq> 0 \<longrightarrow> i + n \<le> length t) \<and> take n (drop i t) = slice t a b"
proof -
  let ?L = "int (length t)"
  let ?f = "\<lambda>x. if x < 0 then max 0 (?L + x) else x"
  have l32: "to_int32 ?L = ?L" "?L \<ge> 1" using assms(1,2) by (simp_all add: to_int32_id int32_def Suc_le_eq)
  have t32: "(if x < 0 then max 0 (to_int32 (?L + x)) else x) = ?f x" if "int32 x" for x
    using that assms(2) by (auto simp: int32_def to_int32_id)
  have fb: "?f b < 2 ^ 31 - 1" using assms(2,5) by auto
  have fa: "0 \<le> ?f a" by auto
  have e: "sdsrange_bounds (length t) a b = (if ?f a > ?f b then Some (0, 0) else if ?f a \<ge> ?L then Some (nat (?f a), 0)
      else if ?f b \<ge> ?L then Some (nat (?f a), nat (?L - 1 - ?f a + 1)) else Some (nat (?f a), nat (?f b - ?f a + 1)))"
    unfolding sdsrange_bounds_def Let_def t32 [OF assms(3)] t32 [OF assms(4)] l32(1) using fa fb by (simp split: if_split)
  have s: "slice t a b = drop (nat (?f a)) (take (nat (?f b) + 1) t)" by (simp add: slice_def Let_def)
  have "0 \<le> ?f b" by auto
  then obtain A B where AB: "?f a = A" "?f b = B" "0 \<le> A" "0 \<le> B" using fa by blast
  consider "A > B" | "A \<le> B" "A \<ge> ?L" | "A \<le> B" "A < ?L" "B \<ge> ?L" | "A \<le> B" "A < ?L" "B < ?L" by linarith
  then show ?thesis
  proof cases
    case 1
    then have "nat B + 1 \<le> nat A" using AB(3,4) by linarith
    then show ?thesis using 1 unfolding e s AB(1,2) by (auto simp: min_def)
  next
    case 2
    then have "length t \<le> nat A" by linarith
    then show ?thesis using 2 unfolding e s AB(1,2) by auto
  next
    case 3
    then have "nat (?L - 1 - A + 1) = length t - nat A" "length t \<le> nat B + 1" "nat A < length t" using AB(3,4) by linarith+
    then show ?thesis using 3 unfolding e s AB(1,2) by auto
  next
    case 4
    then have "nat (B - A + 1) = nat B + 1 - nat A" "nat B + 1 \<le> length t" "nat A \<le> nat B" using AB(3,4) by linarith+
    then show ?thesis using 4 unfolding e s AB(1,2) by (auto simp: drop_take)
  qed
qed

lemma sdsrange_rep:
  assumes "sds_rep s t" "length t < 2 ^ 31" "int32 a" "int32 b" "b < 2 ^ 31 - 1"
  shows "\<exists>s'. sdsrange s a b = Some s' \<and> sds_rep s' (slice t a b)"
proof (cases "t = []")
  case True
  then show ?thesis using assms(1) by (simp add: sdsrange_def sdslen_rep slice_def)
next
  case False
  obtain i n where n: "sdsrange_bounds (length t) a b = Some (i, n)" "n \<noteq> 0 \<Longrightarrow> i + n \<le> length t" "take n (drop i t) = slice t a b"
    using sdsrange_bounds_slice [OF False assms(2-5)] by blast
  define j where "j = (if n = 0 then 0 else i)"
  have j: "j + n \<le> length t" "take n (drop j t) = slice t a b" using n(2,3) by (auto simp: j_def)
  note K = keep_range [OF assms(1) j(1)]
  have "(if i \<noteq> 0 \<and> n \<noteq> 0 then do { cs \<leftarrow> get_cells (sd_buf s) i n; put_cells (sd_buf s) 0 cs } else Some (sd_buf s))
      = Some (map Some (take n (drop j t)) @ drop n (sd_buf s))"
  proof (cases "i \<noteq> 0 \<and> n \<noteq> 0")
    case True
    then show ?thesis using K(1,2) by (simp add: j_def)
  next
    case False
    then have j0: "j = 0" by (auto simp: j_def)
    then have "take n (sd_buf s) = map Some (take n t)" using K(1) by (auto simp: get_cells_def split: if_splits)
    then show ?thesis using False j0 by (simp only: if_False drop_0) (metis append_take_drop_id)
  qed
  then have "sdsrange s a b = Some (sdssetlen (s\<lparr>sd_buf := map Some (take n (drop j t) @ [NUL]) @ drop (n + 1) (sd_buf s)\<rparr>) n)"
    using False unfolding sdsrange_def sdslen_rep [OF assms(1)] n(1) using K(3) by simp
  then show ?thesis using K(4) unfolding j(2) by blast
qed

text \<open>Trimming.\<close>

lemma trim_ep_spec:
  assumes "sp < length t" "\<not> in_cset cset (t ! sp)" "sp \<le> ep" "ep < length t"
  shows "take (trim_ep cset t sp ep - sp + 1) (drop sp t) = rev (dropWhile (in_cset cset) (rev (take (ep - sp + 1) (drop sp t)))) \<and>
    sp \<le> trim_ep cset t sp ep \<and> trim_ep cset t sp ep \<le> ep"
  using assms(3,4)
proof (induction ep rule: less_induct)
  case (less ep)
  have tk: "take (ep - sp + 1) (drop sp t) = take (ep - sp) (drop sp t) @ [t ! ep]"
    using less.prems by (simp add: take_Suc_conv_app_nth)
  show ?case
  proof (cases "sp < ep \<and> in_cset cset (t ! ep)")
    case True
    then have e: "trim_ep cset t sp ep = trim_ep cset t sp (ep - 1)" by (subst trim_ep.simps) simp
    have s: "ep - 1 - sp + 1 = ep - sp" using True by linarith
    have b: "ep - 1 < ep" "sp \<le> ep - 1" "ep - 1 < length t" using True less.prems by linarith+
    from less.IH [OF b] b(1) have "trim_ep cset t sp (ep - 1) \<le> ep" by linarith
    then show ?thesis using less.IH [OF b] True unfolding e tk s by simp
  next
    case False
    then have e: "trim_ep cset t sp ep = ep" by (subst trim_ep.simps) auto
    have "\<not> in_cset cset (t ! ep)" using False less.prems(1) assms(2) by (metis le_neq_implies_less)
    then show ?thesis using less.prems unfolding e tk by simp
  qed
qed

definition trim :: "(char \<Rightarrow> bool) \<Rightarrow> string \<Rightarrow> string" where
  "trim P t = rev (dropWhile P (rev (dropWhile P t)))"

lemma sdstrim_rep:
  assumes "sds_rep s t"
  shows "\<exists>s'. sdstrim s cset = Some s' \<and> sds_rep s' (trim (in_cset cset) t)"
proof -
  let ?P = "in_cset cset"
  let ?sp = "length (takeWhile ?P t)"
  let ?n = "if ?sp = length t then 0 else trim_ep cset t ?sp (length t - 1) - ?sp + 1"
  have d: "drop ?sp t = dropWhile ?P t" by (simp add: dropWhile_eq_drop)
  have n: "?sp + ?n \<le> length t \<and> take ?n (drop ?sp t) = trim ?P t"
  proof (cases "?sp = length t")
    case True
    then have "dropWhile ?P t = []" using d by (metis drop_all order_refl)
    then have "trim ?P t = []" by (simp only: trim_def rev.simps dropWhile.simps)
    then show ?thesis using True by simp
  next
    case False
    have sp: "?sp < length t" using False length_takeWhile_le [of ?P t] by linarith
    have "length t - 1 - ?sp + 1 = length (drop ?sp t)" using sp by simp
    then have r: "rev (dropWhile ?P (rev (take (length t - 1 - ?sp + 1) (drop ?sp t)))) = trim ?P t" by (simp only: take_all order_refl trim_def d)
    have b: "?sp \<le> length t - 1" "length t - 1 < length t" using sp by linarith+
    note T = trim_ep_spec [OF sp nth_length_takeWhile [OF sp] b]
    have "?sp + (trim_ep cset t ?sp (length t - 1) - ?sp + 1) \<le> length t" using T b(2) by linarith
    then show ?thesis using T False unfolding r by simp
  qed
  note K = keep_range [OF assms n [THEN conjunct1]]
  show ?thesis unfolding sdstrim_def get_chars_rep [OF assms] Option.bind.simps Let_def K(1-3)
    using K(4) n by simp
qed

lemma map_prefix_rep:
  assumes "sds_rep s t"
  shows "\<exists>s'. map_prefix f s (length t) = Some s' \<and> sds_rep s' (map f t)"
proof -
  have r: "take (length t + 1) (sd_buf s) = map Some (t @ [NUL])" using assms by (simp add: sds_rep_def)
  note P = take_map_prefix [OF r]
  let ?b = "map Some (map f t) @ drop (length t) (sd_buf s)"
  have b: "put_chars (sd_buf s) 0 (map f t) = Some ?b" using P(2) by (simp add: put_chars_Some)
  have n: "sd_buf s ! length t = Some NUL" using arg_cong [OF r, of "\<lambda>xs. xs ! length t"] P(2) by (simp add: nth_append)
  have "take (length t + 1) ?b = map Some (map f t @ [NUL])" using P(2) n by (simp add: take_Suc_conv_app_nth Cons_nth_drop_Suc [symmetric])
  then have "sds_rep (s\<lparr>sd_buf := ?b\<rparr>) (map f t)" using assms P(2) by (auto simp: sds_rep_def sdsalloc_def)
  moreover have "map_prefix f s (length t) = Some (s\<lparr>sd_buf := ?b\<rparr>)"
    using get_chars_rep [OF assms] b by (simp add: map_prefix_def sdslen_rep [OF assms])
  ultimately show ?thesis by blast
qed

lemma sdscase_rep:
  assumes "sds_rep s t" "length t < 2 ^ 31"
  shows "\<exists>s'. sdstolower s = Some s' \<and> sds_rep s' (map tolower t)" "\<exists>s'. sdstoupper s = Some s' \<and> sds_rep s' (map toupper t)"
proof -
  have "nat (to_int32 (int (length t))) = length t" using assms(2) by (simp add: to_int32_id int32_def)
  then show "\<exists>s'. sdstolower s = Some s' \<and> sds_rep s' (map tolower t)" "\<exists>s'. sdstoupper s = Some s' \<and> sds_rep s' (map toupper t)"
    using map_prefix_rep [OF assms(1)] by (simp_all add: sdstolower_def sdstoupper_def sdslen_rep [OF assms(1)])
qed

lemma sdsmapchars_rep:
  assumes "sds_rep s t" "n \<le> length from" "n \<le> length to"
  shows "\<exists>s'. sdsmapchars s from to n = Some s' \<and> sds_rep s' (map (mapchar (take n from) (take n to)) t)"
  using assms map_prefix_rep [OF assms(1)] by (simp add: sdsmapchars_def sdslen_rep)

lemma cell_strlen_prefix: "cell_strlen (map Some (t @ [NUL]) @ b) = Some (length (c_str t))"
  by (induction t) (simp_all add: c_str_def)

lemma sdsupdatelen_rep:
  assumes "sds_rep s t" "length t < 2 ^ 31"
  shows "\<exists>s'. sdsupdatelen s = Some s' \<and> sds_rep s' (c_str t)"
proof -
  have r: "take (length t + 1) (sd_buf s) = map Some (t @ [NUL])" using assms(1) by (simp add: sds_rep_def)
  have bf: "sd_buf s = map Some (t @ [NUL]) @ drop (length t + 1) (sd_buf s)" unfolding r [symmetric] by simp
  have l: "length (c_str t) \<le> length t" by (simp add: c_str_def length_takeWhile_le)
  then have n: "size_t (to_int32 (int (length (c_str t)))) = length (c_str t)"
    using assms(2) by (simp add: to_int32_id int32_def size_t_id)
  have c: "take (length (c_str t) + 1) (t @ [NUL]) = c_str t @ [NUL]"
    by (induction t) (simp_all add: c_str_def)
  have "take (length (c_str t) + 1) (sd_buf s) = take (length (c_str t) + 1) (take (length t + 1) (sd_buf s))" using l by (simp add: min_def)
  also have "\<dots> = map Some (c_str t @ [NUL])" unfolding r take_map c ..
  finally have tk: "take (length (c_str t) + 1) (sd_buf s) = map Some (c_str t @ [NUL])" .
  have "sds_rep (sdssetlen (s\<lparr>sd_buf := sd_buf s\<rparr>) (length (c_str t))) (c_str t)"
    by (rule sds_rep_store [OF assms(1) _ refl tk]) (use l assms(1) in \<open>simp add: sds_rep_def\<close>)
  moreover have "cell_strlen (sd_buf s) = Some (length (c_str t))" by (subst bf) (rule cell_strlen_prefix)
  ultimately show ?thesis using n by (simp add: sdsupdatelen_def)
qed

lemma sdsIncrLen_shrink:
  assumes "sds_rep s t" "n \<le> length t" "0 < n" "n < 2 ^ 31" "length t < 2 ^ 63"
  shows "\<exists>s'. sdsIncrLen s (- int n) = Some s' \<and> sds_rep s' (take (length t - n) t)"
proof -
  let ?k = "length t - n"
  have l: "sd_len s = length t" "length t < length (sd_buf s)" "length t < 2 ^ type_bits (sd_type s)" using assms(1) by (auto simp: sds_rep_def)
  have "int (length t) - int n = int ?k" using assms(2) by simp
  then have k: "size_t (int (length t) - int n) = ?k" using assms(5) by (simp only:) (rule size_t_id, simp)
  have s1: "sd_len (sdssetlen s ?k) = ?k" using l(3) by (simp add: sdssetlen_def)
  note K = keep_range [OF assms(1), of 0 ?k, unfolded drop_0 add_0, OF diff_le_self]
  have p: "put_chars (sd_buf s) ?k [NUL] = Some (map Some (take ?k t @ [NUL]) @ drop (?k + 1) (sd_buf s))"
  proof -
    have "take ?k (sd_buf s) = map Some (take ?k t)" using K(1) by (auto simp: get_cells_def split: if_splits)
    then show ?thesis using l(2) by (simp add: put_chars_Some)
  qed
  have "int n \<noteq> 2 ^ 31" using assms(4) by simp
  then have "sdsIncrLen s (- int n) = Some ((sdssetlen s ?k)\<lparr>sd_buf := map Some (take ?k t @ [NUL]) @ drop (?k + 1) (sd_buf s)\<rparr>)"
    using assms(2-4) unfolding sdsIncrLen_def Let_def l(1) diff_conv_add_uminus [symmetric] k s1 p
    by (cases "sd_type s") simp_all
  then show ?thesis using K(4) by (simp add: setlen_upd)
qed

text \<open>The use after \<open>sdsMakeRoomFor\<close>: bytes \<open>u\<close> were written behind the text.\<close>

lemma sdsIncrLen_grow:
  assumes "sds_rep s t" "length u \<le> sdsavail s" "u \<noteq> []" "length u < 2 ^ 31" "put_chars (sd_buf s) (length t) u = Some b" "sds_fits (length t + length u)"
  shows "\<exists>s'. sdsIncrLen (s\<lparr>sd_buf := b\<rparr>) (int (length u)) = Some s' \<and> sds_rep s' (t @ u)"
proof -
  have ne5: "sd_type s \<noteq> SDS_TYPE_5" using assms(2,3) by (auto simp: sdsavail_def)
  have l: "sd_len s = length t" "length t \<le> sd_alloc s" "sd_alloc s < 2 ^ type_bits (sd_type s)" "sdsalloc s = sd_alloc s"
    using assms(1) ne5 by (auto simp: sds_rep_def sdsalloc_def)
  have a: "length t + length u \<le> sd_alloc s" using assms(2) sdsavail_rep [OF assms(1)] l by linarith
  obtain b' where b': "put_chars b (length t + length u) [NUL] = Some b'" "sds_rep (sdssetlen (s\<lparr>sd_buf := b'\<rparr>) (length t + length u)) (t @ u)"
    using sds_rep_append [OF assms(1), of u] a l(4) assms(5) by auto
  have k: "size_t (int (length t) + int (length u)) = length t + length u"
    using size_t_id [of "length t + length u"] assms(6) by (simp add: sds_fits_def)
  have s1: "sd_len (sdssetlen (s\<lparr>sd_buf := b\<rparr>) (length t + length u)) = length t + length u" using a l(3) by (simp add: sdssetlen_def)
  have fr: "int (sd_alloc s) - int (length t) = int (sd_alloc s - length t)" using l(2) by simp
  have m: "int (sd_alloc s - length t) mod 2 ^ type_bits (sd_type s) = int (sd_alloc s - length t)"
  proof -
    have "int (sd_alloc s - length t) < int (2 ^ type_bits (sd_type s))" using l(3) by (metis less_imp_diff_less of_nat_less_iff)
    then show ?thesis by simp
  qed
  have L: "sd_len (s\<lparr>sd_buf := b\<rparr>) = length t" "sd_alloc (s\<lparr>sd_buf := b\<rparr>) = sd_alloc s" "sd_type (s\<lparr>sd_buf := b\<rparr>) = sd_type s"
    "sd_buf (s\<lparr>sd_buf := b\<rparr>) = b" using l(1) by simp_all
  have "sdsIncrLen (s\<lparr>sd_buf := b\<rparr>) (int (length u)) = Some ((sdssetlen (s\<lparr>sd_buf := b\<rparr>) (length t + length u))\<lparr>sd_buf := b'\<rparr>)"
    using ne5 a m unfolding sdsIncrLen_def Let_def L k s1 b'(1) fr by (cases "sd_type s") simp_all
  then show ?thesis using b'(2) by (simp add: setlen_upd)
qed

section \<open>Formatted output: lemmas\<close>

fun fmt_text :: "string \<Rightarrow> fmt_arg list \<Rightarrow> string option" where
  "fmt_text [] args = Some []"
| "fmt_text (c # f) args =
     (if c \<noteq> CHR ''%'' then map_option (Cons c) (fmt_text f args)
      else case f of
          [] \<Rightarrow> None
        | nx # f' \<Rightarrow>
            if nx \<in> set ''sSiIuU''
            then (case args of
                    [] \<Rightarrow> None
                  | a # args' \<Rightarrow> do { t \<leftarrow> fmt_arg_text nx a; u \<leftarrow> fmt_text f' args'; Some (t @ u) })
            else map_option (Cons nx) (fmt_text f' args))"

lemma fmt_put_body:
  assumes "sds_body s t" "length t + length u < 2 ^ 31" "room \<or> length u \<le> sdsavail s"
  shows "\<exists>s'. fmt_put room s (int (length t)) u = Some (s', int (length t + length u)) \<and> sds_body s' (t @ u)"
proof -
  have fit: "sds_fits (length t + length u)" using assms(2) by (simp add: sds_fits_def)
  have "\<exists>s1. (if room \<and> sdsavail s < length u then sdsMakeRoomFor s (length u) else Some s) = Some s1 \<and>
    sds_body s1 t \<and> length t + length u \<le> sdsalloc s1"
  proof (cases "room \<and> sdsavail s < length u")
    case True
    then show ?thesis using sdsMakeRoomFor_body [OF assms(1) fit] by auto
  next
    case False
    have "length t \<le> sdsalloc s" using assms(1) by (simp add: sds_body_def)
    moreover have "length u \<le> sdsavail s" using False assms(3) by linarith
    ultimately have "length t + length u \<le> sdsalloc s" using sdsavail_body [OF assms(1)] by linarith
    then show ?thesis using False assms(1) by (simp only: if_False) simp
  qed
  then obtain s1 where s1: "(if room \<and> sdsavail s < length u then sdsMakeRoomFor s (length u) else Some s) = Some s1"
    "sds_body s1 t" "length t + length u \<le> sdsalloc s1" by blast
  have B: "take (length t) (sd_buf s1) = map Some t" "sdsalloc s1 < length (sd_buf s1)" "sdsalloc s1 < 2 ^ type_bits (sd_type s1)" "sd_len s1 = length t"
    using s1(2) by (auto simp: sds_body_def)
  let ?b = "map Some (t @ u) @ drop (length t + length u) (sd_buf s1)"
  have b: "put_chars (sd_buf s1) (length t) u = Some ?b" using B s1(3) by (simp add: put_chars_Some)
  have t32: "to_int32 (int (length t) + int (length u)) = int (length t) + int (length u)" using assms(2) by (simp add: to_int32_id int32_def)
  have "sds_body (sdsinclen (s1\<lparr>sd_buf := ?b\<rparr>) (length u)) (t @ u)"
    using s1(2,3) B by (auto simp: sds_body_def sdsinclen_def sdsalloc_def)
  then show ?thesis unfolding fmt_put_def s1(1) using b t32 by simp
qed

lemma sdscatfmt_loop_body:
  "\<lbrakk>sds_body s t; fmt_text f args = Some u; length t + length u < 2 ^ 31\<rbrakk> \<Longrightarrow>
   \<exists>s'. sdscatfmt_loop f args s (int (length t)) = Some (s', int (length t + length u)) \<and> sds_body s' (t @ u)"
proof (induction "length f" arbitrary: f args s t u rule: less_induct)
  case less
  show ?case
  proof (cases f)
    case Nil
    then show ?thesis using less.prems by simp
  next
    case (Cons c g)
    have IH: "\<exists>s''. sdscatfmt_loop h as s' (int (length (t @ v))) = Some (s'', int (length t + length u)) \<and> sds_body s'' (t @ u)"
      if "length h < length f" "sds_body s' (t @ v)" "fmt_text h as = Some w" "u = v @ w" for h as s' v w
      using less.hyps [OF that(1-3)] that(4) less.prems(3) by (simp add: add.assoc)
    have "\<exists>s1. (if sdsavail s = 0 then sdsMakeRoomFor s 1 else Some s) = Some s1 \<and> sds_body s1 t \<and> 1 \<le> sdsavail s1"
      using sdsMakeRoomFor_body [OF less.prems(1), of 1] less.prems(1,3) by (cases "sdsavail s = 0") (auto simp: sds_fits_def)
    then obtain s1 where s1: "(if sdsavail s = 0 then sdsMakeRoomFor s 1 else Some s) = Some s1" "sds_body s1 t" "1 \<le> sdsavail s1" by blast
    have one: "\<exists>s2. fmt_put False s1 (int (length t)) [x] = Some (s2, int (length (t @ [x]))) \<and> sds_body s2 (t @ [x])" if "u = x # w" for x w
      using fmt_put_body [OF s1(2), of "[x]" False] s1(3) less.prems(3) that by simp
    show ?thesis
    proof (cases "c = CHR ''%''")
      case False
      then obtain w where w: "fmt_text g args = Some w" "u = c # w" using less.prems(2) Cons by auto
      obtain s2 where s2: "fmt_put False s1 (int (length t)) [c] = Some (s2, int (length (t @ [c])))" "sds_body s2 (t @ [c])"
        using one [OF w(2)] by blast
      show ?thesis using IH [OF _ s2(2) w(1)] w(2) False s2(1) Cons s1(1) by simp
    next
      case pc: True
      then obtain nx h where h: "g = nx # h" using less.prems(2) Cons by (cases g) auto
      show ?thesis
      proof (cases "nx \<in> set ''sSiIuU''")
        case True
        then obtain a as v w where a: "args = a # as" "fmt_arg_text nx a = Some v" "fmt_text h as = Some w" "u = v @ w"
          using less.prems(2) Cons pc h by (cases args) (auto simp: bind_eq_Some_conv)
        obtain s2 where s2: "fmt_put True s1 (int (length t)) v = Some (s2, int (length (t @ v)))" "sds_body s2 (t @ v)"
          using fmt_put_body [OF s1(2), of v True] less.prems(3) a(4) by auto
        show ?thesis using IH [OF _ s2(2) a(3,4)] True s2(1) Cons s1(1) pc h a(1,2) by simp
      next
        case False
        then obtain w where w: "fmt_text h args = Some w" "u = nx # w" using less.prems(2) Cons pc h by auto
        obtain s2 where s2: "fmt_put False s1 (int (length t)) [nx] = Some (s2, int (length (t @ [nx])))" "sds_body s2 (t @ [nx])"
          using one [OF w(2)] by blast
        show ?thesis using IH [OF _ s2(2) w(1)] w(2) False s2(1) Cons s1(1) pc h by simp
      qed
    qed
  qed
qed

lemma sdscatfmt_rep:
  assumes "sds_rep s t" "fmt_text (c_str fmt) args = Some u" "length t + length u < 2 ^ 31"
  shows "\<exists>s'. sdscatfmt s fmt args = Some s' \<and> sds_rep s' (t @ u)"
proof -
  have b: "sds_body s t" using assms(1) by (simp add: sds_rep_body)
  obtain s1 where s1: "sdscatfmt_loop (c_str fmt) args s (int (length t)) = Some (s1, int (length t + length u))" "sds_body s1 (t @ u)"
    using sdscatfmt_loop_body [OF b assms(2,3)] by blast
  let ?n = "length t + length u"
  have B: "take ?n (sd_buf s1) = map Some (t @ u)" "?n < length (sd_buf s1)" using s1(2) by (auto simp: sds_body_def)
  let ?b = "map Some (t @ u @ [NUL]) @ drop (?n + 1) (sd_buf s1)"
  have p: "put_chars (sd_buf s1) ?n [NUL] = Some ?b" using B by (simp add: put_chars_Some)
  have "sds_rep (s1\<lparr>sd_buf := ?b\<rparr>) (t @ u)" using s1(2) B by (auto simp: sds_rep_body sds_body_def sdsalloc_def)
  moreover have "to_int32 (int (sdslen s)) = int (length t)" using assms(3) by (simp add: sdslen_rep [OF assms(1)] to_int32_id int32_def)
  moreover have "nat (int ?n) = ?n" by simp
  ultimately show ?thesis using s1(1) p unfolding sdscatfmt_def by simp
qed

section \<open>Comparing, splitting, joining: lemmas\<close>

lemma sdscmp_rep:
  assumes "sds_rep s1 a" "sds_rep s2 b" "length a < 2 ^ 31" "length b < 2 ^ 31"
  shows "\<exists>r. sdscmp s1 s2 = Some r \<and> (r = 0 \<longleftrightarrow> a = b) \<and> (r < 0 \<longleftrightarrow> ord_class.lexordp (map chr_code a) (map chr_code b))"
proof -
  let ?m = "if length a < length b then length a else length b"
  have g: "get_chars (sd_buf s1) 0 ?m = Some (take ?m a)" "get_chars (sd_buf s2) 0 ?m = Some (take ?m b)"
    by (rule get_chars_prefix [OF assms(1)], simp) (rule get_chars_prefix [OF assms(2)], simp)
  have t: "to_int32 (int (length a) - int (length b)) = int (length a) - int (length b)"
    using assms(3,4) by (simp add: to_int32_id int32_def)
  have "sdscmp s1 s2 = Some (if memcmp (take ?m a) (take ?m b) = 0 then int (length a) - int (length b) else memcmp (take ?m a) (take ?m b))"
    unfolding sdscmp_def Let_def sdslen_rep [OF assms(1)] sdslen_rep [OF assms(2)] g t by simp
  then show ?thesis using compare_spec [of a b] by blast
qed

fun joined :: "string \<Rightarrow> string list \<Rightarrow> string" where
  "joined sep [] = []"
| "joined sep [t] = t"
| "joined sep (t # u # ts) = t @ sep @ joined sep (u # ts)"

lemma joined_Cons: "ts \<noteq> [] \<Longrightarrow> joined sep (t # ts) = t @ sep @ joined sep ts"
  by (cases ts) simp_all

lemma join_loop_rep:
  assumes cat: "\<And>a t s u. R a t \<Longrightarrow> sds_rep s u \<Longrightarrow> sds_fits (length u + length t) \<Longrightarrow> \<exists>s'. cat a s = Some s' \<and> sds_rep s' (u @ t)"
    and cat_sep: "\<And>s u. sds_rep s u \<Longrightarrow> sds_fits (length u + length sep) \<Longrightarrow> \<exists>s'. cat_sep s = Some s' \<and> sds_rep s' (u @ sep)"
  shows "\<lbrakk>list_all2 R as ts; sds_rep s u; sds_fits (length u + length (joined sep ts))\<rbrakk> \<Longrightarrow>
    \<exists>s'. join_loop cat cat_sep as s = Some s' \<and> sds_rep s' (u @ joined sep ts)"
proof (induction as ts arbitrary: s u rule: list_all2_induct)
  case Nil
  then show ?case by simp
next
  case (Cons a as t ts)
  show ?case
  proof (cases "as = []")
    case True
    then have ts: "ts = []" using Cons.hyps by simp
    show ?thesis using cat [OF Cons.hyps(1) Cons.prems(1)] Cons.prems(2) True ts by auto
  next
    case False
    then have ts: "ts \<noteq> []" using Cons.hyps(2) by auto
    have f: "sds_fits (length u + length t)" "sds_fits (length (u @ t) + length sep)" "sds_fits (length (u @ t @ sep) + length (joined sep ts))"
      using Cons.prems(2) by (simp_all add: joined_Cons [OF ts] sds_fits_def)
    obtain s1 where s1: "cat a s = Some s1" "sds_rep s1 (u @ t)" using cat [OF Cons.hyps(1) Cons.prems(1) f(1)] by blast
    obtain s2 where s2: "cat_sep s1 = Some s2" "sds_rep s2 (u @ t @ sep)" using cat_sep [OF s1(2) f(2)] by auto
    show ?thesis using Cons.IH [OF s2(2) f(3)] s1(1) s2(1) False by (simp add: joined_Cons [OF ts])
  qed
qed

lemma sdsempty_rep: "\<exists>s. sdsempty = Some s \<and> sds_rep s []"
  unfolding sdsempty_def by (rule sdsnewlen_rep) (simp_all add: sds_fits_def)

lemma sdsjoinsds_rep:
  assumes "list_all2 sds_rep argv ts" "sds_fits (length (joined sep ts))"
  shows "\<exists>s. sdsjoinsds argv sep = Some s \<and> sds_rep s (joined sep ts)"
proof -
  obtain s0 where s0: "sdsempty = Some s0" "sds_rep s0 []" using sdsempty_rep by blast
  have "\<exists>s'. join_loop (\<lambda>a s. sdscatsds s a) (\<lambda>s. sdscatlen s sep) argv s0 = Some s' \<and> sds_rep s' ([] @ joined sep ts)"
    by (rule join_loop_rep [where R = sds_rep]) (use assms s0 in \<open>auto simp: sdscatsds_def get_chars_rep intro: sdscatlen_rep\<close>)
  then show ?thesis unfolding sdsjoinsds_def s0(1) by simp
qed

lemma sdsjoin_rep:
  assumes "sds_fits (length (joined (c_str sep) (map c_str argv)))"
  shows "\<exists>s. sdsjoin argv sep = Some s \<and> sds_rep s (joined (c_str sep) (map c_str argv))"
proof -
  obtain s0 where s0: "sdsempty = Some s0" "sds_rep s0 []" using sdsempty_rep by blast
  have "\<exists>s'. join_loop (\<lambda>a s. sdscat s a) (\<lambda>s. sdscat s sep) argv s0 = Some s' \<and> sds_rep s' ([] @ joined (c_str sep) (map c_str argv))"
    by (rule join_loop_rep [where R = "\<lambda>a t. t = c_str a"])
       (use assms s0 in \<open>auto simp: sdscat_def list_all2_conv_all_nth intro: sdscatlen_rep\<close>)
  then show ?thesis unfolding sdsjoin_def s0(1) by simp
qed

text \<open>The loop of \<open>sdssplitlen\<close>, with no separator between \<open>start\<close> and \<open>j\<close>.\<close>

lemma token_clean:
  assumes "\<And>i. start \<le> i \<Longrightarrow> i + length sep \<le> e \<Longrightarrow> take (length sep) (drop i s) \<noteq> sep" "e \<le> length s" "start \<le> e" "sep \<noteq> []"
  shows "\<not> sublist sep (take (e - start) (drop start s))"
proof
  assume "sublist sep (take (e - start) (drop start s))"
  then obtain ps ss where e: "take (e - start) (drop start s) = ps @ sep @ ss" by (auto simp: sublist_def)
  have "length (ps @ sep @ ss) = e - start" unfolding e [symmetric] using assms(2,3) by simp
  then have l: "start + length ps + length sep \<le> e" using assms(3) by simp
  have "drop start s = ps @ sep @ ss @ drop (e - start) (drop start s)" using e append_take_drop_id [of "e - start" "drop start s"] by simp
  then have "drop (start + length ps) s = sep @ ss @ drop (e - start) (drop start s)" by (metis add.commute append_eq_conv_conj drop_drop)
  then have "take (length sep) (drop (start + length ps) s) = sep" by simp
  then show False using assms(1) [of "start + length ps"] l by simp
qed

lemma split_loop_rep:
  assumes "sep \<noteq> []" "length s < 2 ^ 31" "start \<le> j" "j \<le> length s"
    "\<And>i. start \<le> i \<Longrightarrow> i < j \<Longrightarrow> take (length sep) (drop i s) \<noteq> sep"
  shows "\<exists>toks ts. split_loop s sep start j = Some toks \<and> list_all2 sds_rep toks ts \<and> joined sep ts = drop start s \<and> ts \<noteq> [] \<and>
    (\<forall>t \<in> set ts. \<not> sublist sep t)"
  using assms(3-5)
proof (induction "length s - j" arbitrary: start j rule: less_induct)
  case less
  have sp: "0 < length sep" using assms(1) by simp
  have tok: "\<exists>tk. sdsnewlen (Some (drop start s)) k = Some tk \<and> sds_rep tk (take k (drop start s))" if "k \<le> length s - start" for k
    using that assms(2) by (intro sdsnewlen_rep) (simp_all add: sds_fits_def)
  show ?case
  proof (cases "int j < int (length s) - (int (length sep) - 1)")
    case go: True
    then have jl: "j + length sep \<le> length s" by linarith
    show ?thesis
    proof (cases "take (length sep) (drop j s) = sep")
      case True
      let ?k = "j + length sep"
      obtain tk where tk: "sdsnewlen (Some (drop start s)) (j - start) = Some tk" "sds_rep tk (take (j - start) (drop start s))"
        using tok [of "j - start"] less.prems(2) by (meson diff_le_mono)
      have d: "length s - ?k < length s - j" using jl assms(1) by (cases sep) auto
      obtain toks ts where R: "split_loop s sep ?k ?k = Some toks" "list_all2 sds_rep toks ts" "joined sep ts = drop ?k s" "ts \<noteq> []"
        "\<forall>t \<in> set ts. \<not> sublist sep t" using less.hyps [OF d, of ?k] jl by auto
      have e: "split_loop s sep start j = Some (tk # toks)"
        using go assms(1) True tk(1) R(1) by (subst split_loop.simps) simp
      have "drop start s = take (j - start) (drop start s) @ drop j s" using less.prems(1) by (metis append_take_drop_id drop_drop le_add_diff_inverse2)
      also have "drop j s = sep @ drop ?k s" using True by (metis append_take_drop_id add.commute drop_drop)
      finally have "joined sep (take (j - start) (drop start s) # ts) = drop start s" by (simp add: joined_Cons [OF R(4)] R(3))
      moreover have "\<not> sublist sep (take (j - start) (drop start s))"
      proof (rule token_clean)
        show "take (length sep) (drop i s) \<noteq> sep" if "start \<le> i" "i + length sep \<le> j" for i
          by (rule less.prems(3) [OF that(1)]) (use that(2) sp in linarith)
      qed (use less.prems(1,2) assms(1) in simp_all)
      ultimately show ?thesis unfolding e using tk(2) R(2,5)
        by (intro exI [of _ "tk # toks"] exI [of _ "take (j - start) (drop start s) # ts"]) simp
    next
      case False
      have "\<not> (length sep = 1 \<and> s ! j = sep ! 0)"
      proof
        assume "length sep = 1 \<and> s ! j = sep ! 0"
        then have "take (length sep) (drop j s) = sep" using jl by (cases sep) (auto simp: take_Suc_conv_app_nth)
        then show False using False by simp
      qed
      then have e: "split_loop s sep start j = split_loop s sep start (j + 1)"
        using go assms(1) False by (subst split_loop.simps) auto
      have j1: "j + 1 \<le> length s" "length s - (j + 1) < length s - j" using jl assms(1) by (cases sep; auto)+
      show ?thesis unfolding e
        by (rule less.hyps [OF j1(2) _ j1(1)]) (use less.prems(1,3) False in \<open>auto simp: less_Suc_eq\<close>)
    qed
  next
    case False
    obtain tk where tk: "sdsnewlen (Some (drop start s)) (length s - start) = Some tk" "sds_rep tk (drop start s)"
      using tok [of "length s - start"] by auto
    have e: "split_loop s sep start j = Some [tk]" using False tk(1) by (subst split_loop.simps) simp
    have "\<not> sublist sep (take (length s - start) (drop start s))"
    proof (rule token_clean)
      show "take (length sep) (drop i s) \<noteq> sep" if "start \<le> i" "i + length sep \<le> length s" for i
        by (rule less.prems(3) [OF that(1)]) (use that(2) False in linarith)
    qed (use less.prems(1,2) assms(1) in simp_all)
    then show ?thesis unfolding e using tk(2) by (intro exI [of _ "[tk]"] exI [of _ "[drop start s]"]) simp
  qed
qed

section \<open>Quoting: lemmas\<close>

definition repr :: "string \<Rightarrow> string" where
  "repr p = [CHR 0x22] @ concat (map repr_char p) @ [CHR 0x22]"

lemma length_repr_char: "length (repr_char c) \<le> 4"
  by (simp add: repr_char_def)

lemma length_repr_chars: "length (concat (map repr_char p)) \<le> 4 * length p"
proof (induction p)
  case (Cons c p)
  then show ?case using length_repr_char [of c] by simp
qed simp

lemma catrepr_loop_rep:
  "\<lbrakk>sds_rep s t; sds_fits (length t + length (concat (map repr_char p)))\<rbrakk> \<Longrightarrow>
   \<exists>s'. catrepr_loop s p = Some s' \<and> sds_rep s' (t @ concat (map repr_char p))"
proof (induction p arbitrary: s t)
  case (Cons c p)
  have f: "sds_fits (length t + length (repr_char c))" "sds_fits (length (t @ repr_char c) + length (concat (map repr_char p)))"
    using Cons.prems(2) by (simp_all add: sds_fits_def)
  obtain s1 where "sdscatlen s (repr_char c) = Some s1" "sds_rep s1 (t @ repr_char c)" using sdscatlen_rep [OF Cons.prems(1) f(1)] by blast
  then show ?case using Cons.IH [of s1 "t @ repr_char c"] f(2) by simp
qed simp

lemma sdscatrepr_rep:
  assumes "sds_rep s t" "sds_fits (length t + length (repr p))"
  shows "\<exists>s'. sdscatrepr s p = Some s' \<and> sds_rep s' (t @ repr p)"
proof -
  let ?q = "concat (map repr_char p)"
  have f: "sds_fits (length t + length [CHR 0x22])" "sds_fits (length (t @ [CHR 0x22]) + length ?q)"
    "sds_fits (length ((t @ [CHR 0x22]) @ ?q) + length [CHR 0x22])" using assms(2) by (simp_all add: sds_fits_def repr_def)
  obtain s1 where s1: "sdscatlen s [CHR 0x22] = Some s1" "sds_rep s1 (t @ [CHR 0x22])" using sdscatlen_rep [OF assms(1) f(1)] by blast
  obtain s2 where s2: "catrepr_loop s1 p = Some s2" "sds_rep s2 ((t @ [CHR 0x22]) @ ?q)" using catrepr_loop_rep [OF s1(2) f(2)] by blast
  show ?thesis using sdscatlen_rep [OF s2(2) f(3)] s1(1) s2(1) by (simp add: sdscatrepr_def repr_def)
qed

lemma hex_code: "d < 16 \<Longrightarrow> chr_code (hex_char d) = (if d < 10 then 48 + d else 87 + d)"
  by (simp add: hex_char_def)

lemma hex_char_digit: "d < 16 \<Longrightarrow> is_hex_digit (hex_char d) \<and> hex_digit_to_int (hex_char d) = d"
  by (simp add: is_hex_digit_def hex_digit_to_int_def hex_code)

lemma get_token_hex:
  assumes "is_hex_digit a" "is_hex_digit b"
  shows "get_token InQ (CHR 0x5C # CHR ''x'' # a # b # r) cur = get_token InQ r (cur @ [char_of ((hex_digit_to_int a * 16 + hex_digit_to_int b) mod 256)])"
  using assms by (subst get_token.simps) simp

lemma get_token_esc:
  assumes "e \<noteq> CHR ''x''" "e \<noteq> NUL"
  shows "get_token InQ (CHR 0x5C # e # r) cur = get_token InQ r (cur @ [unescape e])"
  using assms by (subst get_token.simps) simp

lemma get_token_plain:
  assumes "c \<noteq> CHR 0x5C" "c \<noteq> CHR 0x22" "c \<noteq> NUL"
  shows "get_token InQ (c # r) cur = get_token InQ r (cur @ [c])"
  using assms by (subst get_token.simps) simp

lemma get_token_repr_char: "get_token InQ (repr_char c @ r) cur = get_token InQ r (cur @ [c])"
proof -
  consider "c \<in> {CHR 0x5C, CHR 0x22}" | "c \<in> {CHR 0x0A, CHR 0x0D, CHR 0x09, CHR 0x07, CHR 0x08}"
    | "c \<notin> {CHR 0x5C, CHR 0x22, CHR 0x0A, CHR 0x0D, CHR 0x09, CHR 0x07, CHR 0x08}" "isprint c"
    | "c \<notin> {CHR 0x5C, CHR 0x22, CHR 0x0A, CHR 0x0D, CHR 0x09, CHR 0x07, CHR 0x08}" "\<not> isprint c" by blast
  then show ?thesis
  proof cases
    case 1
    then show ?thesis by (auto simp: repr_char_def get_token_esc unescape_def NUL_def)
  next
    case 2
    then show ?thesis by (auto simp: repr_char_def get_token_esc unescape_def NUL_def)
  next
    case 3
    have "c \<noteq> NUL" using 3(2) by (auto simp: isprint_def NUL_def)
    then show ?thesis using 3 by (simp add: repr_char_def get_token_plain)
  next
    case 4
    let ?h = "hex_char (chr_code c div 16)" let ?l = "hex_char (chr_code c mod 16)"
    have d: "chr_code c div 16 < (16::nat)" using chr_code_less [of c] by linarith
    note H = hex_char_digit [OF d] and L = hex_char_digit [of "chr_code c mod 16"]
    have v: "hex_digit_to_int ?h * 16 + hex_digit_to_int ?l = chr_code c" using H L by simp
    have "repr_char c = [CHR 0x5C, CHR ''x'', ?h, ?l]" using 4 by (simp add: repr_char_def)
    then have "get_token InQ (repr_char c @ r) cur = get_token InQ (CHR 0x5C # CHR ''x'' # ?h # ?l # r) cur" by simp
    also have "\<dots> = get_token InQ r (cur @ [char_of ((chr_code c :: nat) mod 256)])"
      using get_token_hex [of ?h ?l r cur] H L unfolding v by simp
    finally show ?thesis by simp
  qed
qed

lemma get_token_repr:
  assumes "r = [] \<or> isspace (hd r)"
  shows "get_token InQ (concat (map repr_char p) @ CHR 0x22 # r) cur = Some (cur @ p, r)"
proof (induction p arbitrary: cur)
  case Nil
  then show ?case using assms by (subst get_token.simps) (cases r; simp)
next
  case (Cons c p)
  then show ?case by (simp add: get_token_repr_char)
qed

lemma splitargs_loop_repr:
  assumes "r = [] \<or> isspace (hd r)"
  shows "splitargs_loop (repr p @ r) = map_option (Cons p) (splitargs_loop r)"
proof -
  let ?line = "CHR 0x22 # concat (map repr_char p) @ CHR 0x22 # r"
  have "\<not> isspace (CHR 0x22)" by (simp add: isspace_def)
  then have dw: "dropWhile (\<lambda>c. c \<noteq> NUL \<and> isspace c) ?line = ?line" by simp
  have "get_token Unquoted ?line [] = get_token InQ (concat (map repr_char p) @ CHR 0x22 # r) []"
    by (subst get_token.simps) (simp add: NUL_def)
  then have g: "get_token Unquoted ?line [] = Some (p, r)" using get_token_repr [OF assms, of p "[]"] by simp
  have "splitargs_loop ?line = map_option (Cons p) (splitargs_loop r)"
    unfolding splitargs_loop.simps [of ?line] Let_def dw g by (simp add: NUL_def)
  then show ?thesis by (simp add: repr_def)
qed

lemma splitargs_loop_space: "splitargs_loop (CHR '' '' # r) = splitargs_loop r"
proof -
  have "dropWhile (\<lambda>c. c \<noteq> NUL \<and> isspace c) (CHR '' '' # r) = dropWhile (\<lambda>c. c \<noteq> NUL \<and> isspace c) r"
    by (simp add: isspace_def NUL_def)
  then show ?thesis unfolding splitargs_loop.simps [of "CHR '' '' # r"] splitargs_loop.simps [of r] by simp
qed

lemma sdssplitargs_reprs: "sdssplitargs (joined '' '' (map repr args)) = Some args"
  unfolding sdssplitargs_def
proof (induction args)
  case Nil
  then show ?case by (subst splitargs_loop.simps) simp
next
  case (Cons a args)
  show ?case
  proof (cases "args = []")
    case True
    have "splitargs_loop [] = Some []" by (subst splitargs_loop.simps) simp
    then show ?thesis using True splitargs_loop_repr [of "[]" a] by simp
  next
    case False
    have "isspace (CHR '' '')" by (simp add: isspace_def)
    then show ?thesis using Cons.IH False splitargs_loop_repr [of "CHR '' '' # joined '' '' (map repr args)" a]
      by (simp add: joined_Cons splitargs_loop_space)
  qed
qed

section \<open>Properties\<close>

text \<open>Operations on one string, and what they do to its text. \<open>OpRead\<close> is the way the server reads from
  a socket: room is made, bytes are written behind the text, and the length is corrected.\<close>

datatype sds_op =
    OpCat string | OpCatC string | OpCpy string | OpGrow nat | OpRoom nat | OpPack | OpClear | OpUpdateLen
  | OpRange int int | OpTrim string | OpLower | OpUpper | OpMapChars string string | OpCut nat | OpRead string
  | OpRepr string | OpFmt string "fmt_arg list"

fun apply_op :: "sds_op \<Rightarrow> sds \<Rightarrow> sds option" where
  "apply_op (OpCat u) s = sdscatlen s u"
| "apply_op (OpCatC u) s = sdscat s u"
| "apply_op (OpCpy u) s = sdscpylen s u"
| "apply_op (OpGrow n) s = sdsgrowzero s n"
| "apply_op (OpRoom n) s = sdsMakeRoomFor s n"
| "apply_op OpPack s = sdsRemoveFreeSpace s"
| "apply_op OpClear s = sdsclear s"
| "apply_op OpUpdateLen s = sdsupdatelen s"
| "apply_op (OpRange a b) s = sdsrange s a b"
| "apply_op (OpTrim cset) s = sdstrim s cset"
| "apply_op OpLower s = sdstolower s"
| "apply_op OpUpper s = sdstoupper s"
| "apply_op (OpMapChars from to) s = sdsmapchars s from to (length from)"
| "apply_op (OpCut n) s = sdsIncrLen s (- int n)"
| "apply_op (OpRead u) s =
     do {
       s1 \<leftarrow> sdsMakeRoomFor s (length u);
       b \<leftarrow> put_chars (sd_buf s1) (sdslen s) u;
       sdsIncrLen (s1\<lparr>sd_buf := b\<rparr>) (int (length u))
     }"
| "apply_op (OpRepr p) s = sdscatrepr s p"
| "apply_op (OpFmt fmt args) s = sdscatfmt s fmt args"

fun op_text :: "sds_op \<Rightarrow> string \<Rightarrow> string" where
  "op_text (OpCat u) t = t @ u"
| "op_text (OpCatC u) t = t @ c_str u"
| "op_text (OpCpy u) t = u"
| "op_text (OpGrow n) t = t @ replicate (n - length t) NUL"
| "op_text (OpRoom n) t = t"
| "op_text OpPack t = t"
| "op_text OpClear t = []"
| "op_text OpUpdateLen t = c_str t"
| "op_text (OpRange a b) t = slice t a b"
| "op_text (OpTrim cset) t = trim (in_cset cset) t"
| "op_text OpLower t = map tolower t"
| "op_text OpUpper t = map toupper t"
| "op_text (OpMapChars from to) t = map (mapchar from (take (length from) to)) t"
| "op_text (OpCut n) t = take (length t - n) t"
| "op_text (OpRead u) t = t @ u"
| "op_text (OpRepr p) t = t @ repr p"
| "op_text (OpFmt fmt args) t = t @ (case fmt_text (c_str fmt) args of None \<Rightarrow> [] | Some u \<Rightarrow> u)"

text \<open>The calls the code is made for: lengths that an \<open>int\<close> can hold, cuts within the text, one replacement
  for every character replaced, arguments that match the format.\<close>

fun op_ok :: "sds_op \<Rightarrow> string \<Rightarrow> bool" where
  "op_ok (OpRoom n) t \<longleftrightarrow> length t + n < 2 ^ 31"
| "op_ok (OpRange a b) t \<longleftrightarrow> length t < 2 ^ 31 \<and> int32 a \<and> int32 b \<and> b < 2 ^ 31 - 1"
| "op_ok (OpMapChars from to) t \<longleftrightarrow> length t < 2 ^ 31 \<and> length from \<le> length to"
| "op_ok (OpCut n) t \<longleftrightarrow> 0 < n \<and> n \<le> length t \<and> length t < 2 ^ 31"
| "op_ok (OpRead u) t \<longleftrightarrow> u \<noteq> [] \<and> length t + length u < 2 ^ 31"
| "op_ok (OpFmt fmt args) t \<longleftrightarrow> (\<exists>u. fmt_text (c_str fmt) args = Some u \<and> length t + length u < 2 ^ 31)"
| "op_ok op t \<longleftrightarrow> length t < 2 ^ 31 \<and> length (op_text op t) < 2 ^ 31"

fun run_ops :: "sds_op list \<Rightarrow> sds \<Rightarrow> sds option" where
  "run_ops [] s = Some s"
| "run_ops (op # ops) s = do { s1 \<leftarrow> apply_op op s; run_ops ops s1 }"

fun ops_ok :: "sds_op list \<Rightarrow> string \<Rightarrow> bool" where
  "ops_ok [] t \<longleftrightarrow> True"
| "ops_ok (op # ops) t \<longleftrightarrow> op_ok op t \<and> ops_ok ops (op_text op t)"

lemma fits31: "n < 2 ^ 31 \<Longrightarrow> sds_fits n"
  by (simp add: sds_fits_def)

lemma apply_read:
  assumes "sds_rep s t" "u \<noteq> []" "length t + length u < 2 ^ 31"
  shows "\<exists>s'. apply_op (OpRead u) s = Some s' \<and> sds_rep s' (t @ u)"
proof -
  note fit = fits31 [OF assms(3)]
  obtain s1 where s1: "sdsMakeRoomFor s (length u) = Some s1" "sds_rep s1 t" "length t + length u \<le> sdsalloc s1" "length u \<le> sdsavail s1"
    using sdsMakeRoomFor_rep [OF assms(1) fit] by blast
  obtain b where b: "put_chars (sd_buf s1) (length t) u = Some b" using sds_rep_append [OF s1(2,3)] by blast
  have "length u < 2 ^ 31" using assms(3) by simp
  from sdsIncrLen_grow [OF s1(2,4) assms(2) this b fit] show ?thesis using s1(1) b by (simp add: sdslen_rep [OF assms(1)])
qed

lemma apply_op_rep:
  assumes "sds_rep s t" "op_ok op t"
  shows "\<exists>s'. apply_op op s = Some s' \<and> sds_rep s' (op_text op t)"
proof (cases op)
  case (OpCatC u)
  then show ?thesis using assms sdscatlen_rep [OF assms(1), of "c_str u"] by (simp add: sdscat_def fits31)
next
  case (OpRoom n)
  then show ?thesis using assms sdsMakeRoomFor_rep [OF assms(1) fits31, of n] by auto
next
  case OpPack
  then show ?thesis using assms sdsRemoveFreeSpace_rep [OF assms(1) fits31] by auto
next
  case (OpFmt fmt args)
  then obtain u where u: "fmt_text (c_str fmt) args = Some u" "length t + length u < 2 ^ 31" using assms(2) by auto
  show ?thesis using sdscatfmt_rep [OF assms(1) u] u(1) OpFmt by simp
next
  case (OpGrow n)
  then have "n < 2 ^ 31" using assms(2) by auto
  from sdsgrowzero_rep [OF assms(1) fits31 [OF this]] OpGrow show ?thesis by simp
next
  case (OpRead u)
  then show ?thesis using apply_read [OF assms(1), of u] assms(2) by simp
next
  case (OpMapChars src dst)
  then show ?thesis using sdsmapchars_rep [OF assms(1), of "length src" src dst] assms(2) by simp
next
  case (OpCut n)
  then show ?thesis using sdsIncrLen_shrink [OF assms(1), of n] assms(2) by simp
qed (use assms in \<open>auto intro: sdscatlen_rep sdscpylen_rep sdsclear_rep sdsupdatelen_rep sdsrange_rep sdstrim_rep
  sdscase_rep sdscatrepr_rep simp: fits31\<close>)

text \<open>C3. Strings are well typed throughout: from a string whose header fits its capacity and whose
  capacity fits its allocation, every sequence of operations runs without an access out of bounds, a
  read of an unwritten byte or a failed assertion, ends in such a string again, and its text is the one
  the operations give on plain strings.\<close>
theorem sds_runs_typed:
  assumes "sds_rep s t" "ops_ok ops t"
  shows "\<exists>s'. run_ops ops s = Some s' \<and> sds_rep s' (fold op_text ops t)"
  using assms
proof (induction ops arbitrary: s t)
  case (Cons op ops)
  obtain s1 where "apply_op op s = Some s1" "sds_rep s1 (op_text op t)" using apply_op_rep [OF Cons.prems(1), of op] Cons.prems(2) by auto
  then show ?case using Cons.IH [of s1 "op_text op t"] Cons.prems(2) by simp
qed simp

definition ex_sds :: sds where
  "ex_sds = \<lparr>sd_type = SDS_TYPE_5, sd_len = 2, sd_alloc = 0, sd_buf = map Some [CHR ''a'', CHR ''b'', NUL]\<rparr>"

lemma ex_sds_rep: "sds_rep ex_sds ''ab''"
  by (simp add: ex_sds_def sds_rep_def sdsalloc_def)

theorem sds_runs_typed_witness:
  "\<exists>s'. run_ops [OpCat ''cd'', OpRange 1 (-1), OpUpper, OpRead ''!''] ex_sds = Some s' \<and> sds_rep s' ''BCD!''"
proof -
  let ?ops = "[OpCat ''cd'', OpRange 1 (-1), OpUpper, OpRead ''!'']"
  have s: "slice ''abcd'' 1 (-1) = ''bcd''" by (simp add: slice_def)
  have u: "toupper (CHR ''b'') = CHR ''B''" "toupper (CHR ''c'') = CHR ''C''" "toupper (CHR ''d'') = CHR ''D''" by code_simp+
  have "ops_ok ?ops ''ab''" by (simp add: s int32_def)
  then show ?thesis using sds_runs_typed [OF ex_sds_rep, of ?ops] by (simp add: s u)
qed

text \<open>C21. Splitting a non-empty string at a separator and joining the tokens with the separator gives the
  string back, and no token contains the separator; an empty separator gives \<open>NULL\<close>, the empty string no
  token.\<close>
theorem sds_split_join:
  assumes "sep \<noteq> []" "s \<noteq> []" "length s < 2 ^ 31"
  shows "\<exists>toks ts s'. sdssplitlen s sep = Some (Some toks) \<and> list_all2 sds_rep toks ts \<and> (\<forall>t \<in> set ts. \<not> sublist sep t) \<and>
    sdsjoinsds toks sep = Some s' \<and> sds_rep s' s \<and> sdssplitlen s [] = Some None \<and> sdssplitlen [] sep = Some (Some [])"
proof -
  obtain toks ts where T: "split_loop s sep 0 0 = Some toks" "list_all2 sds_rep toks ts" "joined sep ts = drop 0 s" "\<forall>t \<in> set ts. \<not> sublist sep t"
    using split_loop_rep [OF assms(1,3), of 0 0] by auto
  have "sds_fits (length (joined sep ts))" using T(3) assms(3) by (simp add: fits31)
  from sdsjoinsds_rep [OF T(2) this] show ?thesis using T assms by (auto simp: sdssplitlen_def Suc_le_eq)
qed

theorem sds_split_join_witness:
  "\<exists>toks ts s'. sdssplitlen ''a--b-'' ''--'' = Some (Some toks) \<and> list_all2 sds_rep toks ts \<and> (\<forall>t \<in> set ts. \<not> sublist ''--'' t) \<and>
    sdsjoinsds toks ''--'' = Some s' \<and> sds_rep s' ''a--b-''"
  using sds_split_join [of "''--''" "''a--b-''"] by simp blast

text \<open>C9. \<open>sdssplitargs\<close> reads back what \<open>sdscatrepr\<close> prints: any strings of bytes, quoted one after the
  other with blanks between them, are split into exactly these strings.\<close>
theorem sds_quote_roundtrip:
  assumes "sds_rep s t" "length t + 4 * length p < 2 ^ 31"
  shows "\<exists>s'. sdscatrepr s p = Some s' \<and> sds_rep s' (t @ repr p) \<and>
    sdssplitargs (joined '' '' (map repr args)) = Some args \<and> sdssplitargs (repr p) = Some [p]"
proof -
  have "sds_fits (length t + length (repr p))" using assms(2) length_repr_chars [of p] by (simp add: sds_fits_def repr_def)
  then show ?thesis using sdscatrepr_rep [OF assms(1)] sdssplitargs_reprs [of args] sdssplitargs_reprs [of "[p]"] by simp
qed

theorem sds_quote_roundtrip_witness:
  "\<exists>s'. sdscatrepr ex_sds [CHR 0x22, NUL, CHR 0xFF] = Some s' \<and> sds_rep s' (''ab'' @ repr [CHR 0x22, NUL, CHR 0xFF]) \<and>
     sdssplitargs (repr [CHR 0x22, NUL, CHR 0xFF]) = Some [[CHR 0x22, NUL, CHR 0xFF]]"
  using sds_quote_roundtrip [OF ex_sds_rep, of "[CHR 0x22, NUL, CHR 0xFF]" "[]"] by auto

text \<open>C28. The comparison of two strings is zero exactly for equal texts and negative exactly when the first
  comes first in the order of the bytes; new strings and duplicates have the text they are made from.\<close>
theorem sds_compare_create:
  assumes "sds_rep s1 a" "sds_rep s2 b" "length a < 2 ^ 31" "length b < 2 ^ 31"
  shows "(\<exists>r. sdscmp s1 s2 = Some r \<and> (r = 0 \<longleftrightarrow> a = b) \<and> (r < 0 \<longleftrightarrow> ord_class.lexordp (map chr_code a) (map chr_code b))) \<and>
    (\<exists>s. sdsdup s1 = Some s \<and> sds_rep s a) \<and>
    (\<exists>s. sdsnew (Some a) = Some s \<and> sds_rep s (c_str a)) \<and>
    (\<exists>s. sdsnewlen None (length a) = Some s \<and> sds_rep s (replicate (length a) NUL)) \<and>
    (\<exists>s. sdscatsds s1 s2 = Some s \<and> sds_rep s (a @ b))"
proof (intro conjI)
  have f: "sds_fits (length a)" "sds_fits (length (c_str a))" "sds_fits (length a + length b)"
    using assms(3,4) length_takeWhile_le [of "\<lambda>c. c \<noteq> NUL" a] by (simp_all add: sds_fits_def c_str_def)
  show "\<exists>s. sdsdup s1 = Some s \<and> sds_rep s a"
    unfolding sdsdup_def get_chars_rep [OF assms(1)] Option.bind.simps unfolding sdslen_rep [OF assms(1)] using sdsnewlen_rep [OF f(1), where init = "Some a" and t = a] by simp
  have "take (length (c_str a)) a = c_str a" unfolding c_str_def by (rule takeWhile_eq_take [symmetric])
  then show "\<exists>s. sdsnew (Some a) = Some s \<and> sds_rep s (c_str a)"
    using sdsnewlen_rep [OF f(2), where init = "Some a" and t = "c_str a"] by (simp add: sdsnew_def c_str_def length_takeWhile_le)
  show "\<exists>s. sdsnewlen None (length a) = Some s \<and> sds_rep s (replicate (length a) NUL)" using sdsnewlen_rep [OF f(1), where init = None] by simp
  show "\<exists>s. sdscatsds s1 s2 = Some s \<and> sds_rep s (a @ b)"
    unfolding sdscatsds_def get_chars_rep [OF assms(2)] using sdscatlen_rep [OF assms(1) f(3)] by simp
qed (rule sdscmp_rep [OF assms])

theorem sds_compare_create_witness:
  "(\<exists>r. sdscmp ex_sds ex_sds = Some r \<and> r = 0) \<and> (\<exists>s. sdsdup ex_sds = Some s \<and> sds_rep s ''ab'') \<and> (\<exists>s. sdscatsds ex_sds ex_sds = Some s \<and> sds_rep s ''abab'')"
  using sds_compare_create [OF ex_sds_rep ex_sds_rep] by simp

end
