(* ===== verification/Resp.thy ===== *)
theory Resp
  imports Reply Sds
begin

text \<open>
  The request side of \<open>src/redis-stable/src/networking.c\<close>: the query buffer of a client, inline and
  multi bulk requests, protocol errors, the processing loop and the read handler. The client is the one of
  the replies with the fields of request parsing added; the query buffer is given by its text, and
  \<open>sdsrange\<close> acts on it through \<open>sdsrange_bounds\<close>. Executing a command is a parameter: it maps the client
  to the client afterwards, whether it returned \<open>C_OK\<close>, and whether the client still exists. The
  commands executed are recorded as a list of argument vectors. \<^const>\<open>None\<close> is a failed assertion, a
  panic or an undefined conversion.
\<close>

section \<open>State\<close>

record rclient = client +
  cl_querybuf :: string
  cl_reqtype :: nat
  cl_multibulklen :: int
  cl_bulklen :: int
  cl_argv :: "string list"
  cl_slave :: bool
  cl_blocked :: bool
  cl_multi :: bool
  cl_asking :: bool
  cl_reply_skip_next :: bool
  cl_cmd_asking :: bool
  cl_repl_ack_time :: int
  cl_reploff :: int

definition PROTO_REQ_INLINE :: nat where
  "PROTO_REQ_INLINE = 1"

definition PROTO_REQ_MULTIBULK :: nat where
  "PROTO_REQ_MULTIBULK = 2"

definition PROTO_INLINE_MAX_SIZE :: nat where
  "PROTO_INLINE_MAX_SIZE = 1024 * 64"

definition PROTO_MBULK_BIG_ARG :: int where
  "PROTO_MBULK_BIG_ARG = 1024 * 32"

definition PROTO_IOBUF_LEN :: int where
  "PROTO_IOBUF_LEN = 1024 * 16"

definition PROTO_MAX_QUERYBUF_LEN :: nat where
  "PROTO_MAX_QUERYBUF_LEN = 1024 * 1024 * 1024"

definition CR :: char where
  "CR = CHR 0x0D"

definition LF :: char where
  "LF = CHR 0x0A"

definition freeClientArgv :: "'a rclient_scheme \<Rightarrow> 'a rclient_scheme" where
  "freeClientArgv c = c\<lparr>cl_argv := [], cl_cmd_asking := False\<rparr>"

definition resetClient :: "'a rclient_scheme \<Rightarrow> 'a rclient_scheme" where
  "resetClient c =
     (let c1 = (freeClientArgv c)\<lparr>cl_reqtype := 0, cl_multibulklen := 0, cl_bulklen := -1\<rparr>;
          c2 = (if \<not> cl_multi c \<and> \<not> cl_cmd_asking c then c1\<lparr>cl_asking := False\<rparr> else c1);
          c3 = c2\<lparr>cl_reply_skip := False\<rparr>
      in if cl_reply_skip_next c then c3\<lparr>cl_reply_skip := True, cl_reply_skip_next := False\<rparr> else c3)"

section \<open>The query buffer\<close>

text \<open>The position \<open>strchr\<close> finds: it stops at a NUL byte.\<close>

definition strchr_pos :: "char \<Rightarrow> string \<Rightarrow> nat option" where
  "strchr_pos x s =
     (let n = length (takeWhile (\<lambda>y. y \<noteq> x \<and> y \<noteq> NUL) s) in if n < length s \<and> s ! n = x then Some n else None)"

definition range_text :: "string \<Rightarrow> int \<Rightarrow> int \<Rightarrow> string option" where
  "range_text s a b =
     (if s = [] then Some []
      else do { (st, n) \<leftarrow> sdsrange_bounds (length s) a b; Some (take n (drop st s)) })"

definition setProtocolError :: "'a rclient_scheme \<Rightarrow> nat \<Rightarrow> 'a rclient_scheme option" where
  "setProtocolError c pos =
     do {
       qb \<leftarrow> range_text (cl_querybuf c) (int pos) (-1);
       Some (c\<lparr>cl_close_after_reply := True, cl_querybuf := qb\<rparr>)
     }"

definition protocol_error :: "'a rclient_scheme \<Rightarrow> string \<Rightarrow> nat \<Rightarrow> 'a rclient_scheme option" where
  "protocol_error c msg pos = setProtocolError (addReplyError c (''Protocol error: '' @ msg)) pos"

section \<open>Inline requests\<close>

text \<open>The result is the client and whether \<open>C_OK\<close> was returned; \<open>now\<close> is \<open>server.unixtime\<close>.\<close>

definition processInlineBuffer :: "int \<Rightarrow> 'a rclient_scheme \<Rightarrow> ('a rclient_scheme \<times> bool) option" where
  "processInlineBuffer now c =
     (let qb = cl_querybuf c
      in case strchr_pos LF qb of
          None \<Rightarrow>
            if length qb > PROTO_INLINE_MAX_SIZE
            then do { c1 \<leftarrow> protocol_error c ''too big inline request'' 0; Some (c1, False) }
            else Some (c, False)
        | Some nl \<Rightarrow>
            (let querylen = (if nl \<noteq> 0 \<and> qb ! (nl - 1) = CR then nl - 1 else nl)
             in case sdssplitargs (take querylen qb) of
                 None \<Rightarrow> do { c1 \<leftarrow> protocol_error c ''unbalanced quotes in request'' 0; Some (c1, False) }
               | Some argv \<Rightarrow>
                   (let c1 = (if querylen = 0 \<and> cl_slave c then c\<lparr>cl_repl_ack_time := now\<rparr> else c)
                    in do {
                      qb1 \<leftarrow> range_text qb (to_int32 (int querylen + 2)) (-1);
                      Some (c1\<lparr>cl_querybuf := qb1, cl_argv := filter (\<lambda>a. a \<noteq> []) argv\<rparr>, True)
                    })))"

section \<open>Multi bulk requests\<close>

text \<open>The number of arguments. \<^const>\<open>Inl\<close> is a return from \<open>processMultibulkBuffer\<close>, \<^const>\<open>Inr\<close> goes on at
  a position.\<close>

definition mb_count :: "'a rclient_scheme \<Rightarrow> ('a rclient_scheme \<times> bool + 'a rclient_scheme \<times> nat) option" where
  "mb_count c =
     (let qb = cl_querybuf c
      in if cl_argv c \<noteq> [] then None
         else case strchr_pos CR qb of
             None \<Rightarrow>
               if length qb > PROTO_INLINE_MAX_SIZE
               then do { c1 \<leftarrow> protocol_error c ''too big mbulk count string'' 0; Some (Inl (c1, False)) }
               else Some (Inl (c, False))
           | Some nl \<Rightarrow>
               if int nl > to_int32 (int (length qb)) - 2 then Some (Inl (c, False))
               else if hd qb \<noteq> CHR ''*'' then None
               else
                 (case string2ll (take (nl - 1) (drop 1 qb)) of
                    None \<Rightarrow> do { c1 \<leftarrow> protocol_error c ''invalid multibulk length'' 0; Some (Inl (c1, False)) }
                  | Some ll \<Rightarrow>
                      if ll > 1024 * 1024
                      then do { c1 \<leftarrow> protocol_error c ''invalid multibulk length'' 0; Some (Inl (c1, False)) }
                      else if ll \<le> 0
                      then do { qb1 \<leftarrow> range_text qb (int nl + 2) (-1); Some (Inl (c\<lparr>cl_querybuf := qb1\<rparr>, True)) }
                      else Some (Inr (c\<lparr>cl_multibulklen := ll\<rparr>, nl + 2))))"

text \<open>The length of the next argument. \<^const>\<open>Inl\<close> leaves the loop, by \<open>break\<close> when the Boolean is true,
  else by \<open>return C_ERR\<close>.\<close>

definition mb_header :: "'a rclient_scheme \<Rightarrow> nat \<Rightarrow> ('a rclient_scheme \<times> nat \<times> bool + 'a rclient_scheme \<times> nat) option" where
  "mb_header c pos =
     (let qb = cl_querybuf c
      in if cl_bulklen c \<noteq> -1 then Some (Inr (c, pos))
         else case strchr_pos CR (drop pos qb) of
             None \<Rightarrow>
               if length qb > PROTO_INLINE_MAX_SIZE
               then do { c1 \<leftarrow> protocol_error c ''too big bulk count string'' 0; Some (Inl (c1, pos, False)) }
               else Some (Inl (c, pos, True))
           | Some k \<Rightarrow>
               if int (pos + k) > to_int32 (int (length qb)) - 2 then Some (Inl (c, pos, True))
               else if qb ! pos \<noteq> CHR ''$''
               then do {
                 c1 \<leftarrow> setProtocolError
                        (addReplyErrorFormat c (''Protocol error: expected '' @ [CHR 0x27, CHR ''$'', CHR 0x27] @ '', got '' @
                           [CHR 0x27, qb ! pos, CHR 0x27])) pos;
                 Some (Inl (c1, pos, False))
               }
               else
                 (case string2ll (take (k - 1) (drop (pos + 1) qb)) of
                    None \<Rightarrow> do { c1 \<leftarrow> protocol_error c ''invalid bulk length'' pos; Some (Inl (c1, pos, False)) }
                  | Some ll \<Rightarrow>
                      if ll < 0 \<or> ll > 512 * 1024 * 1024
                      then do { c1 \<leftarrow> protocol_error c ''invalid bulk length'' pos; Some (Inl (c1, pos, False)) }
                      else if ll \<ge> PROTO_MBULK_BIG_ARG
                      then do {
                        qb1 \<leftarrow> range_text qb (int (pos + k + 2)) (-1);
                        Some (Inr (c\<lparr>cl_querybuf := qb1, cl_bulklen := ll\<rparr>, 0))
                      }
                      else Some (Inr (c\<lparr>cl_bulklen := ll\<rparr>, pos + k + 2))))"

text \<open>Taking an argument that is complete, either the whole buffer or a copy.\<close>

definition mb_arg :: "'a rclient_scheme \<Rightarrow> nat \<Rightarrow> 'a rclient_scheme \<times> nat" where
  "mb_arg c pos =
     (let qb = cl_querybuf c; n = nat (cl_bulklen c);
          c1 = c\<lparr>cl_argv := cl_argv c @ [take n (drop pos qb)], cl_bulklen := -1, cl_multibulklen := cl_multibulklen c - 1\<rparr>
      in if pos = 0 \<and> cl_bulklen c \<ge> PROTO_MBULK_BIG_ARG \<and> to_int32 (int (length qb)) = cl_bulklen c + 2
         then (c1\<lparr>cl_querybuf := []\<rparr>, 0)
         else (c1, pos + n + 2))"

lemma mb_header_keeps: "mb_header c pos = Some (Inr (c1, pos1)) \<Longrightarrow> cl_multibulklen c1 = cl_multibulklen c \<and> cl_argv c1 = cl_argv c"
  by (auto simp: mb_header_def Let_def bind_eq_Some_conv split: if_splits option.splits)

lemma mb_arg_counts: "cl_multibulklen (fst (mb_arg c pos)) = cl_multibulklen c - 1"
  by (simp add: mb_arg_def Let_def)

function mb_loop :: "'a rclient_scheme \<Rightarrow> nat \<Rightarrow> ('a rclient_scheme \<times> nat \<times> bool) option" where
  "mb_loop c pos =
     (if cl_multibulklen c = 0 then Some (c, pos, True)
      else if cl_multibulklen c < 0 then None
      else case mb_header c pos of
          None \<Rightarrow> None
        | Some (Inl r) \<Rightarrow> Some r
        | Some (Inr (c1, pos1)) \<Rightarrow>
            if size_t (int (length (cl_querybuf c1)) - int pos1) < nat ((cl_bulklen c1 + 2) mod 2 ^ 32) then Some (c1, pos1, True)
            else mb_loop (fst (mb_arg c1 pos1)) (snd (mb_arg c1 pos1)))"
  by pat_completeness auto
termination
  by (relation "measure (\<lambda>(c, pos). nat (cl_multibulklen c))") (auto simp: case_prod_beta mb_arg_counts dest: mb_header_keeps)

declare mb_loop.simps [simp del]

definition processMultibulkBuffer :: "'a rclient_scheme \<Rightarrow> ('a rclient_scheme \<times> bool) option" where
  "processMultibulkBuffer c =
     do {
       r \<leftarrow> (if cl_multibulklen c = 0 then mb_count c else Some (Inr (c, 0)));
       (case r of
          Inl ret \<Rightarrow> Some ret
        | Inr (c1, pos1) \<Rightarrow>
            if cl_multibulklen c1 \<le> 0 then None
            else do {
              (c2, pos2, go) \<leftarrow> mb_loop c1 pos1;
              (if \<not> go then Some (c2, False)
               else do {
                 qb \<leftarrow> (if pos2 \<noteq> 0 then range_text (cl_querybuf c2) (int pos2) (-1) else Some (cl_querybuf c2));
                 Some (c2\<lparr>cl_querybuf := qb\<rparr>, cl_multibulklen c2 = 0)
               })
            })
     }"

section \<open>The processing loop\<close>

type_synonym 'a exec = "'a rclient_scheme \<Rightarrow> 'a rclient_scheme \<times> bool \<times> bool"

partial_function (option) processInputBuffer ::
  "'a exec \<Rightarrow> bool \<Rightarrow> int \<Rightarrow> 'a rclient_scheme \<Rightarrow> ('a rclient_scheme \<times> string list list) option" where
  "processInputBuffer exec paused now c =
     (if cl_querybuf c = [] \<or> \<not> cl_slave c \<and> paused \<or> cl_blocked c \<or> cl_close_after_reply c then Some (c, [])
      else
        (let c1 = (if cl_reqtype c = 0
                   then c\<lparr>cl_reqtype := (if hd (cl_querybuf c) = CHR ''*'' then PROTO_REQ_MULTIBULK else PROTO_REQ_INLINE)\<rparr> else c)
         in do {
           (c2, ok) \<leftarrow> (if cl_reqtype c1 = PROTO_REQ_INLINE then processInlineBuffer now c1
                        else if cl_reqtype c1 = PROTO_REQ_MULTIBULK then processMultibulkBuffer c1
                        else None);
           (if \<not> ok then Some (c2, [])
            else if cl_argv c2 = [] then processInputBuffer exec paused now (resetClient c2)
            else
              (let (c3, ret, alive) = exec c2; c4 = (if ret then resetClient c3 else c3)
               in if \<not> alive then Some (c4, [cl_argv c2])
                  else do {
                    (c5, cmds) \<leftarrow> processInputBuffer exec paused now c4;
                    Some (c5, cl_argv c2 # cmds)
                  }))
         }))"

section \<open>The read handler\<close>

datatype read_result = ReadError bool | ReadEOF | ReadBytes string

definition read_len :: "'a rclient_scheme \<Rightarrow> int" where
  "read_len c =
     (if cl_reqtype c = PROTO_REQ_MULTIBULK \<and> cl_multibulklen c \<noteq> 0 \<and> cl_bulklen c \<noteq> -1 \<and> cl_bulklen c \<ge> PROTO_MBULK_BIG_ARG
      then (let remaining = to_int32 ((cl_bulklen c + 2) mod 2 ^ 32 - int (length (cl_querybuf c)))
            in if remaining < PROTO_IOBUF_LEN then remaining else PROTO_IOBUF_LEN)
      else PROTO_IOBUF_LEN)"

text \<open>The inner \<^const>\<open>None\<close> is a client that was freed. The flag of a read error is \<open>errno == EAGAIN\<close>; the
  call of \<open>read\<close> delivers at least one and at most \<open>read_len\<close> bytes.\<close>

definition readQueryFromClient ::
  "'a exec \<Rightarrow> bool \<Rightarrow> int \<Rightarrow> nat \<Rightarrow> 'a rclient_scheme \<Rightarrow> read_result \<Rightarrow> ('a rclient_scheme option \<times> string list list) option" where
  "readQueryFromClient exec paused now maxlen c rd =
     (case rd of
        ReadError eagain \<Rightarrow> Some (if eagain then Some c else None, [])
      | ReadEOF \<Rightarrow> Some (None, [])
      | ReadBytes bs \<Rightarrow>
          if bs = [] \<or> int (length bs) > read_len c then None
          else
            (let c1 = c\<lparr>cl_querybuf := cl_querybuf c @ bs\<rparr>;
                 c2 = (if cl_master c1 then c1\<lparr>cl_reploff := cl_reploff c1 + int (length bs)\<rparr> else c1)
             in if length (cl_querybuf c2) > maxlen then Some (None, [])
                else do { (c3, cmds) \<leftarrow> processInputBuffer exec paused now c2; Some (Some c3, cmds) }))"

end
