(* ===== verification/RespSpec.thy ===== *)
theory RespSpec
  imports Resp SdsSpec
begin

text \<open>
  Request parsing is correct: the stream of the commands \<open>cmds\<close> in the multi bulk encoding, however it is cut
  into read events, is executed as \<open>cmds\<close>. The lemmas follow the stream through the parser: \<open>between\<close> and
  \<open>inside\<close> say where in the stream a client is, with \<open>z\<close> the part that has not arrived, and every stage
  (\<open>mb_count\<close>, \<open>mb_header\<close>, \<open>mb_arg\<close>, the loops) either advances or waits with \<open>z\<close> not empty. Inline requests
  are read in the notation of \<open>sdscatrepr\<close>. Two theorems exhibit requests that the code treats wrongly.
\<close>

section \<open>Lines and numbers\<close>

lemma strchr_pos_found: "x \<notin> set p \<Longrightarrow> NUL \<notin> set p \<Longrightarrow> strchr_pos x (p @ x # q) = Some (length p)"
proof -
  assume "x \<notin> set p" "NUL \<notin> set p"
  then have "takeWhile (\<lambda>y. y \<noteq> x \<and> y \<noteq> NUL) (p @ x # q) = p" by (subst takeWhile_append2) auto
  then show ?thesis by (simp add: strchr_pos_def)
qed

lemma strchr_pos_none: "x \<notin> set s \<Longrightarrow> strchr_pos x s = None"
  by (auto simp: strchr_pos_def Let_def in_set_conv_nth)

lemma range_text_drop: "length s < 2 ^ 31 \<Longrightarrow> p < 2 ^ 31 \<Longrightarrow> range_text s (int p) (-1) = Some (drop p s)"
proof (cases "s = []")
  case False
  assume "length s < 2 ^ 31" "p < 2 ^ 31"
  then obtain i n where "sdsrange_bounds (length s) (int p) (-1) = Some (i, n)" "take n (drop i s) = slice s (int p) (-1)"
    using sdsrange_bounds_slice [OF False, of "int p" "-1"] by (auto simp: int32_def)
  then show ?thesis using False by (simp add: range_text_def slice_from)
qed (simp add: range_text_def)

lemma string2ll_dec_nat: "n < 2 ^ 63 \<Longrightarrow> string2ll (dec_nat n) = Some (int n)"
  by (subst string2ll_iff) (simp add: int64_def dec_int_def)

lemma dec_nat_clean: "CR \<notin> set (dec_nat n)" "NUL \<notin> set (dec_nat n)"
  using dec_nat_digits [of CR n] dec_nat_digits [of NUL n] by (auto simp: isdigit_def CR_def NUL_def)

text \<open>A received part \<open>w\<close> of a stream that starts with a line \<open>p\<close>: either it has the line, or it lacks a part
  of it.\<close>

lemma line_cases:
  assumes "w @ z = p @ CRLF @ r"
  obtains (line) w' where "w = p @ CRLF @ w'" "w' @ z = r"
  | (part) "z \<noteq> []" "length w \<le> length p + 1" "CR \<notin> set p \<longrightarrow> (CR \<notin> set w \<or> w = p @ [CR])"
proof (cases "length w \<ge> length (p @ CRLF)")
  case True
  have "(p @ CRLF) @ r = w @ z" using assms by simp
  then obtain w' where "w = (p @ CRLF) @ w'" "w' @ z = r" using True by (auto simp: append_eq_append_conv_if split: if_splits) (metis append_take_drop_id)
  then show ?thesis using line by simp
next
  case False
  then have l: "length w \<le> length p + 1" by (simp add: CRLF_def)
  have z: "z \<noteq> []" using assms False by (auto simp: CRLF_def)
  have "CR \<notin> set w \<or> w = p @ [CR]" if cr: "CR \<notin> set p"
  proof (cases "length w \<le> length p")
    case True
    then have "w = take (length w) p" using arg_cong [OF assms, of "take (length w)"] by simp
    then show ?thesis using cr by (metis in_set_takeD)
  next
    case False
    then have "length w = length p + 1" using l by simp
    then have "w = p @ [CR]" using arg_cong [OF assms, of "take (length w)"] by (simp add: CRLF_def CR_def)
    then show ?thesis by simp
  qed
  then show ?thesis using part z l by blast
qed

text \<open>Reading a line \<open>x n CRLF\<close> behind \<open>u\<close>.\<close>

lemma number_line:
  assumes "x \<noteq> CR" "x \<noteq> NUL"
  shows "strchr_pos CR ((x # dec_nat n) @ CRLF @ w) = Some (length (dec_nat n) + 1)"
  using strchr_pos_found [of CR "x # dec_nat n" "LF # w"] dec_nat_clean [of n] assms by (simp add: CRLF_def CR_def LF_def)

section \<open>Requests as a stream\<close>

definition encode_cmd :: "string list \<Rightarrow> string" where
  "encode_cmd args = ''*'' @ dec_nat (length args) @ CRLF @ concat (map bulk args)"

definition valid_cmd :: "string list \<Rightarrow> bool" where
  "valid_cmd args \<longleftrightarrow> args \<noteq> [] \<and> length args \<le> 1024 * 1024 \<and> (\<forall>a \<in> set args. length a \<le> 512 * 1024 * 1024)"

text \<open>What is still to come for the arguments \<open>rest\<close> when the length of the first one is known (\<open>b \<noteq> -1\<close>) or
  not.\<close>

definition args_stream :: "int \<Rightarrow> string list \<Rightarrow> string" where
  "args_stream b rest = (if b = -1 then concat (map bulk rest) else hd rest @ CRLF @ concat (map bulk (tl rest)))"

text \<open>The buffer is small, or it holds nothing but (a part of) one big argument.\<close>

definition buf_ok :: "'a rclient_scheme \<Rightarrow> bool" where
  "buf_ok c \<longleftrightarrow> length (cl_querybuf c) \<le> PROTO_INLINE_MAX_SIZE \<or>
     PROTO_MBULK_BIG_ARG \<le> cl_bulklen c \<and> int (length (cl_querybuf c)) \<le> cl_bulklen c + 2"

text \<open>How little is left in the buffer when the loop waits for more.\<close>

definition buf_waits :: "'a rclient_scheme \<Rightarrow> bool" where
  "buf_waits c \<longleftrightarrow> (if cl_bulklen c = -1 then length (cl_querybuf c) \<le> 64 else int (length (cl_querybuf c)) < cl_bulklen c + 2)"

lemma bulk_eq: "bulk a = (CHR ''$'' # dec_nat (length a)) @ CRLF @ a @ CRLF"
  by (simp add: bulk_def)

lemma length_dec_nat_less: "n < 10 ^ 20 \<Longrightarrow> length (dec_nat n) \<le> 20"
  using length_dec_nat [of 20 n] by simp

lemma mb_header_step:
  assumes qb: "cl_querybuf c = u @ w" "length u = pos" and b: "cl_bulklen c = -1" and small: "length (cl_querybuf c) \<le> PROTO_INLINE_MAX_SIZE"
    and s: "w @ z = bulk a @ r" and a: "length a \<le> 512 * 1024 * 1024"
  shows "mb_header c pos = Some (Inl (c, pos, True)) \<and> z \<noteq> [] \<and> length w \<le> 64 \<or>
    (\<exists>u' w'. mb_header c pos = Some (Inr (c\<lparr>cl_querybuf := u' @ w', cl_bulklen := int (length a)\<rparr>, length u')) \<and>
       w' @ z = a @ CRLF @ r \<and> length (u' @ w') \<le> PROTO_INLINE_MAX_SIZE \<and> (int (length a) \<ge> PROTO_MBULK_BIG_ARG \<longrightarrow> u' = []))"
proof -
  have l31: "length (u @ w) < 2 ^ 31" using small qb by (simp add: PROTO_INLINE_MAX_SIZE_def)
  then have t32: "to_int32 (int (length (u @ w))) = int (length (u @ w))" by (simp add: to_int32_id int32_def)
  let ?p = "CHR ''$'' # dec_nat (length a)"
  have s': "w @ z = ?p @ CRLF @ a @ CRLF @ r" using s by (simp add: bulk_eq)
  have cr: "CR \<notin> set ?p" using dec_nat_clean(1) [of "length a"] by (simp add: CR_def)
  show ?thesis using s'
  proof (cases rule: line_cases)
    case part
    then have "CR \<notin> set w \<or> w = ?p @ [CR]" using cr by blast
    then have "mb_header c pos = Some (Inl (c, pos, True))"
    proof
      assume "CR \<notin> set w"
      then show ?thesis using qb b small by (simp add: mb_header_def Let_def strchr_pos_none)
    next
      assume w: "w = ?p @ [CR]"
      have "strchr_pos CR w = Some (length ?p)" unfolding w using strchr_pos_found [of CR ?p "[]"] cr dec_nat_clean(2) [of "length a"]
        by (simp add: NUL_def)
      then show ?thesis using qb b t32 w by (simp add: mb_header_def Let_def)
    qed
    moreover have "length w \<le> 64" using part(2) length_dec_nat_less [of "length a"] a by simp
    ultimately show ?thesis using part(1) by blast
  next
    case (line w')
    have f: "strchr_pos CR w = Some (length (dec_nat (length a)) + 1)"
      unfolding line(1) by (rule number_line) (simp_all add: CR_def NUL_def)
    have num: "take (length (dec_nat (length a))) (drop (length u + 1) (u @ w)) = dec_nat (length a)" unfolding line(1) by simp
    have ll: "string2ll (dec_nat (length a)) = Some (int (length a))" by (rule string2ll_dec_nat) (use a in simp)
    let ?k = "length u + (length (dec_nat (length a)) + 1) + 2"
    have k: "?k < 2 ^ 31" "?k \<le> length (u @ w)" using l31 line(1) by (simp_all add: CRLF_def)
    have kl: "?k = length (u @ ?p @ CRLF)" by (simp add: CRLF_def)
    have u2: "u @ w = (u @ ?p @ CRLF) @ w'" using line(1) by simp
    have d: "drop ?k (u @ w) = w'" unfolding kl u2 by (metis append_eq_conv_conj)
    have rg: "range_text (u @ w) (int ?k) (-1) = Some w'" using range_text_drop [OF l31 k(1)] d by simp
    have nth: "(u @ w) ! length u = CHR ''$''" unfolding line(1) by simp
    have nb: "\<not> int (length u + (length (dec_nat (length a)) + 1)) > to_int32 (int (length (u @ w))) - 2" using t32 k(2) by linarith
    have e: "mb_header c pos = (if int (length a) \<ge> PROTO_MBULK_BIG_ARG
        then Some (Inr (c\<lparr>cl_querybuf := w', cl_bulklen := int (length a)\<rparr>, 0)) else Some (Inr (c\<lparr>cl_bulklen := int (length a)\<rparr>, ?k)))"
      unfolding mb_header_def Let_def qb(1) qb(2) [symmetric] using b f nb nth num ll rg a by simp
    show ?thesis
    proof (cases "int (length a) \<ge> PROTO_MBULK_BIG_ARG")
      case True
      then show ?thesis unfolding e using line small qb(1) by (intro disjI2 exI [of _ "[]"] exI [of _ w']) simp
    next
      case False
      have cq: "c\<lparr>cl_bulklen := int (length a)\<rparr> = c\<lparr>cl_querybuf := (u @ ?p @ CRLF) @ w', cl_bulklen := int (length a)\<rparr>"
        unfolding u2 [symmetric] qb(1) [symmetric] by simp
      have "length ((u @ ?p @ CRLF) @ w') \<le> PROTO_INLINE_MAX_SIZE" using small unfolding qb(1) u2 .
      then show ?thesis unfolding e if_not_P [OF False] kl cq using False line(2) by blast
    qed
  qed
qed

definition bulk_known :: "int \<Rightarrow> string list \<Rightarrow> bool" where
  "bulk_known b rest \<longleftrightarrow> b = -1 \<or> rest \<noteq> [] \<and> b = int (length (hd rest))"

definition fits_at :: "string \<Rightarrow> string \<Rightarrow> int \<Rightarrow> bool" where
  "fits_at u w b \<longleftrightarrow> length (u @ w) \<le> PROTO_INLINE_MAX_SIZE \<or> u = [] \<and> PROTO_MBULK_BIG_ARG \<le> b \<and> int (length w) \<le> b + 2"

definition waits_at :: "string \<Rightarrow> int \<Rightarrow> bool" where
  "waits_at w b \<longleftrightarrow> (if b = -1 then length w \<le> 64 else int (length w) < b + 2)"

text \<open>The length of the first argument is read, or the loop waits.\<close>

lemma mb_length:
  assumes "cl_querybuf c = u @ w" "cl_bulklen c = b" "bulk_known b (a # rest)" "w @ z = args_stream b (a # rest) @ r"
    "length a \<le> 512 * 1024 * 1024" "fits_at u w b"
  shows "mb_header c (length u) = Some (Inl (c, length u, True)) \<and> z \<noteq> [] \<and> waits_at w b \<and> b = -1 \<or>
    (\<exists>u' w'. mb_header c (length u) = Some (Inr (c\<lparr>cl_querybuf := u' @ w', cl_bulklen := int (length a)\<rparr>, length u')) \<and>
       w' @ z = a @ CRLF @ concat (map bulk rest) @ r \<and> fits_at u' w' (int (length a)))"
proof (cases "b = -1")
  case True
  then have m: "length (cl_querybuf c) \<le> PROTO_INLINE_MAX_SIZE" using assms(1,6) by (simp add: fits_at_def PROTO_MBULK_BIG_ARG_def)
  have b: "cl_bulklen c = -1" using True assms(2) by simp
  have st: "w @ z = bulk a @ concat (map bulk rest) @ r" using True assms(4) by (simp add: args_stream_def)
  from mb_header_step [OF assms(1) refl b m st assms(5)] show ?thesis
  proof (elim disjE exE conjE)
    fix u' w'
    assume "mb_header c (length u) = Some (Inr (c\<lparr>cl_querybuf := u' @ w', cl_bulklen := int (length a)\<rparr>, length u'))"
      "w' @ z = a @ CRLF @ concat (map bulk rest) @ r" "length (u' @ w') \<le> PROTO_INLINE_MAX_SIZE"
    moreover from this(3) have "fits_at u' w' (int (length a))" by (simp only: fits_at_def simp_thms)
    ultimately show ?thesis by blast
  qed (use True in \<open>simp add: waits_at_def\<close>)
next
  case False
  then have b: "b = int (length a)" using assms(3) by (simp add: bulk_known_def)
  have "mb_header c (length u) = Some (Inr (c\<lparr>cl_querybuf := u @ w, cl_bulklen := int (length a)\<rparr>, length u))"
    using False assms(1,2) b by (simp add: mb_header_def Let_def)
  moreover have "w @ z = a @ CRLF @ concat (map bulk rest) @ r" using assms(4) False by (simp add: args_stream_def)
  ultimately show ?thesis using assms(6) unfolding b by blast
qed

lemma mb_arg_step:
  assumes "fits_at u w (int (length a))" "w = a @ CRLF @ w'" "length a \<le> 512 * 1024 * 1024"
  shows "\<exists>u2. mb_arg (c\<lparr>cl_querybuf := u @ w, cl_bulklen := int (length a)\<rparr>) (length u) =
      (c\<lparr>cl_querybuf := u2 @ w', cl_bulklen := -1, cl_argv := cl_argv c @ [a], cl_multibulklen := cl_multibulklen c - 1\<rparr>, length u2) \<and>
    fits_at u2 w' (-1)"
proof -
  have l: "length w = length a + 2 + length w'" using assms(2) by (simp add: CRLF_def)
  have tk: "take (length a) (drop (length u) (u @ w)) = a" using assms(2) by simp
  have t32: "to_int32 (int (length (u @ w))) = int (length (u @ w))"
    using assms(1,3) l by (auto simp: fits_at_def PROTO_INLINE_MAX_SIZE_def to_int32_id int32_def)
  show ?thesis
  proof (cases "u = [] \<and> PROTO_MBULK_BIG_ARG \<le> int (length a) \<and> length w = length a + 2")
    case True
    then have "w' = []" using l by simp
    then show ?thesis using True tk t32 by (intro exI [of _ "[]"]) (simp add: mb_arg_def Let_def fits_at_def)
  next
    case False
    have m: "length (u @ w) \<le> PROTO_INLINE_MAX_SIZE" using False assms(1) l by (auto simp: fits_at_def)
    have c: "\<not> (length u = 0 \<and> PROTO_MBULK_BIG_ARG \<le> int (length a) \<and> to_int32 (int (length (u @ w))) = int (length a) + 2)"
      using False t32 by auto
    have u: "u @ w = (u @ a @ CRLF) @ w'" using assms(2) by simp
    have k: "length u + length a + 2 = length (u @ a @ CRLF)" by (simp add: CRLF_def)
    have "mb_arg (c\<lparr>cl_querybuf := u @ w, cl_bulklen := int (length a)\<rparr>) (length u) =
      (c\<lparr>cl_querybuf := u @ w, cl_bulklen := -1, cl_argv := cl_argv c @ [a], cl_multibulklen := cl_multibulklen c - 1\<rparr>, length u + length a + 2)"
      using c tk by (simp add: mb_arg_def Let_def)
    then show ?thesis using m unfolding k unfolding u by (intro exI [of _ "u @ a @ CRLF"]) (simp add: fits_at_def)
  qed
qed

text \<open>What the loop over the arguments \<open>rest\<close> leaves: the arguments \<open>ds\<close> are taken; if some are missing, the
  stream has not arrived completely.\<close>

definition mb_done :: "'a rclient_scheme \<Rightarrow> string list \<Rightarrow> string \<Rightarrow> string \<Rightarrow> ('a rclient_scheme \<times> nat \<times> bool) option \<Rightarrow> bool" where
  "mb_done c rest z r res \<longleftrightarrow> (\<exists>u w b ds rest'.
     res = Some (c\<lparr>cl_querybuf := u @ w, cl_multibulklen := int (length rest'), cl_bulklen := b, cl_argv := cl_argv c @ ds\<rparr>, length u, True) \<and>
     rest = ds @ rest' \<and> bulk_known b rest' \<and> w @ z = args_stream b rest' @ r \<and>
     (if rest' = [] then fits_at u w (-1) else z \<noteq> [] \<and> waits_at w b) \<and> length (u @ w) < 2 ^ 31)"

lemma fits_at_length: "fits_at u w b \<Longrightarrow> b \<le> 512 * 1024 * 1024 \<Longrightarrow> length (u @ w) < 2 ^ 31"
  by (auto simp: fits_at_def PROTO_INLINE_MAX_SIZE_def)

lemma mb_doneI:
  assumes "res = Some (c\<lparr>cl_querybuf := u @ w, cl_multibulklen := int (length rest'), cl_bulklen := b, cl_argv := cl_argv c @ ds\<rparr>, length u, True)"
    "rest = ds @ rest'" "bulk_known b rest'" "w @ z = args_stream b rest' @ r"
    "if rest' = [] then fits_at u w (-1) else z \<noteq> [] \<and> waits_at w b" "length (u @ w) < 2 ^ 31"
  shows "mb_done c rest z r res"
  unfolding mb_done_def using assms by blast

lemma mb_done_take:
  assumes "mb_done (c\<lparr>cl_querybuf := q, cl_bulklen := -1, cl_argv := cl_argv c @ [a], cl_multibulklen := m\<rparr>) rest z r res"
  shows "mb_done c (a # rest) z r res"
proof -
  obtain u w b ds rest' where I: "res = Some (c\<lparr>cl_querybuf := q, cl_bulklen := -1, cl_argv := cl_argv c @ [a], cl_multibulklen := m\<rparr>
      \<lparr>cl_querybuf := u @ w, cl_multibulklen := int (length rest'), cl_bulklen := b,
        cl_argv := cl_argv (c\<lparr>cl_querybuf := q, cl_bulklen := -1, cl_argv := cl_argv c @ [a], cl_multibulklen := m\<rparr>) @ ds\<rparr>, length u, True)"
    "rest = ds @ rest'" "bulk_known b rest'" "w @ z = args_stream b rest' @ r"
    "if rest' = [] then fits_at u w (-1) else z \<noteq> [] \<and> waits_at w b" "length (u @ w) < 2 ^ 31" using assms unfolding mb_done_def by blast
  show ?thesis by (rule mb_doneI [OF _ _ I(3-6), of _ _ "a # ds"]) (simp_all add: I(1,2))
qed

lemma mb_loop_stream:
  assumes "cl_querybuf c = u @ w" "cl_multibulklen c = int (length rest)" "cl_bulklen c = b" "bulk_known b rest"
    "w @ z = args_stream b rest @ r" "\<forall>a \<in> set rest. length a \<le> 512 * 1024 * 1024" "fits_at u w b"
  shows "mb_done c rest z r (mb_loop c (length u))"
  using assms
proof (induction rest arbitrary: c u w b)
  case Nil
  then have b: "b = -1" by (simp add: bulk_known_def)
  have "mb_loop c (length u) = Some (c, length u, True)" using Nil.prems(2) by (subst mb_loop.simps) simp
  moreover have "c = c\<lparr>cl_querybuf := u @ w, cl_multibulklen := int (length []), cl_bulklen := b, cl_argv := cl_argv c @ []\<rparr>"
    using Nil.prems(1-3) by simp
  ultimately show ?case using Nil.prems(4,5,7) b fits_at_length [OF Nil.prems(7)] by (intro mb_doneI [where u = u and w = w and b = b and ds = "[]" and rest' = "[]"]) simp_all
next
  case (Cons a rest)
  have a: "length a \<le> 512 * 1024 * 1024" and mb: "cl_multibulklen c > 0" using Cons.prems(2,6) by simp_all
  from mb_length [OF Cons.prems(1,3,4,5) a Cons.prems(7)] consider
      (wait) "mb_header c (length u) = Some (Inl (c, length u, True))" "z \<noteq> []" "waits_at w b" "b = -1"
    | (known) u1 w1 where "mb_header c (length u) = Some (Inr (c\<lparr>cl_querybuf := u1 @ w1, cl_bulklen := int (length a)\<rparr>, length u1))"
        "w1 @ z = a @ CRLF @ concat (map bulk rest) @ r" "fits_at u1 w1 (int (length a))" by blast
  then show ?case
  proof cases
    case wait
    then have e: "mb_loop c (length u) = Some (c, length u, True)" using mb by (subst mb_loop.simps) simp
    show ?thesis
    proof (rule mb_doneI [OF _ _ Cons.prems(4,5), where u = u and ds = "[]"])
      show "mb_loop c (length u) = Some (c\<lparr>cl_querybuf := u @ w, cl_multibulklen := int (length (a # rest)), cl_bulklen := b, cl_argv := cl_argv c @ []\<rparr>, length u, True)"
        unfolding e Cons.prems(1-3) [symmetric] by simp
    qed (use wait fits_at_length [OF Cons.prems(7)] in simp_all)
  next
    case known
    let ?c1 = "c\<lparr>cl_querybuf := u1 @ w1, cl_bulklen := int (length a)\<rparr>"
    have w63: "length w1 < 2 ^ 64" using known(3) a by (auto simp: fits_at_def PROTO_INLINE_MAX_SIZE_def)
    have "size_t (int (length (u1 @ w1)) - int (length u1)) = length w1" using size_t_id [OF w63] by simp
    moreover have "nat ((int (length a) + 2) mod 2 ^ 32) = length a + 2" "nat (int (length a) + 2) = length a + 2" using a by simp_all
    ultimately have e: "mb_loop c (length u) = (if length w1 < length a + 2 then Some (?c1, length u1, True)
        else mb_loop (fst (mb_arg ?c1 (length u1))) (snd (mb_arg ?c1 (length u1))))"
      using mb known(1) by (subst mb_loop.simps) simp
    show ?thesis
    proof (cases "length w1 < length a + 2")
      case True
      have z: "z \<noteq> []"
      proof
        assume "z = []"
        then have "length w1 = length (a @ CRLF @ concat (map bulk rest) @ r)" using arg_cong [OF known(2), of length] by simp
        then show False using True by (simp add: CRLF_def)
      qed
      show ?thesis
      proof (rule mb_doneI [where u = u1 and w = w1 and b = "int (length a)" and ds = "[]" and rest' = "a # rest"])
        show "mb_loop c (length u) = Some (c\<lparr>cl_querybuf := u1 @ w1, cl_multibulklen := int (length (a # rest)), cl_bulklen := int (length a), cl_argv := cl_argv c @ []\<rparr>, length u1, True)"
          unfolding e if_P [OF True] Cons.prems(2) [symmetric] by simp
        show "w1 @ z = args_stream (int (length a)) (a # rest) @ r" unfolding known(2) by (simp add: args_stream_def)
      qed (use z True fits_at_length [OF known(3)] a in \<open>simp_all add: bulk_known_def waits_at_def\<close>)
    next
      case False
      have "take (length (a @ CRLF)) (w1 @ z) = a @ CRLF" unfolding known(2) by simp
      then have "take (length (a @ CRLF)) w1 = a @ CRLF" using False by (simp add: CRLF_def)
      then obtain w2 where w2: "w1 = a @ CRLF @ w2" by (metis append_assoc append_take_drop_id)
      then have w2z: "w2 @ z = concat (map bulk rest) @ r" using known(2) by simp
      obtain u2 where u2: "mb_arg ?c1 (length u1) = (c\<lparr>cl_querybuf := u2 @ w2, cl_bulklen := -1, cl_argv := cl_argv c @ [a],
          cl_multibulklen := cl_multibulklen c - 1\<rparr>, length u2)" "fits_at u2 w2 (-1)" using mb_arg_step [OF known(3) w2 a] by blast
      let ?c2 = "c\<lparr>cl_querybuf := u2 @ w2, cl_bulklen := -1, cl_argv := cl_argv c @ [a], cl_multibulklen := cl_multibulklen c - 1\<rparr>"
      have "mb_done ?c2 rest z r (mb_loop ?c2 (length u2))"
      proof (rule Cons.IH [where b = "-1"])
        show "w2 @ z = args_stream (-1) rest @ r" unfolding w2z by (simp add: args_stream_def)
      qed (use Cons.prems(2,6) u2(2) in \<open>simp_all add: bulk_known_def\<close>)
      then show ?thesis unfolding e if_not_P [OF False] u2(1) fst_conv snd_conv by (rule mb_done_take)
    qed
  qed
qed

lemma mb_count_step:
  assumes "cl_querybuf c @ z = encode_cmd args @ r" "cl_querybuf c \<noteq> []" "cl_argv c = []" "valid_cmd args"
    "length (cl_querybuf c) \<le> PROTO_INLINE_MAX_SIZE"
  shows "mb_count c = Some (Inl (c, False)) \<and> z \<noteq> [] \<and> length (cl_querybuf c) \<le> 64 \<or>
    (\<exists>u w. cl_querybuf c = u @ w \<and> mb_count c = Some (Inr (c\<lparr>cl_multibulklen := int (length args)\<rparr>, length u)) \<and>
       w @ z = concat (map bulk args) @ r)"
proof -
  let ?q = "cl_querybuf c" and ?n = "length args"
  let ?p = "CHR ''*'' # dec_nat ?n"
  have v: "0 < ?n" "?n \<le> 1024 * 1024" using assms(4) by (auto simp: valid_cmd_def)
  have s: "?q @ z = ?p @ CRLF @ concat (map bulk args) @ r" using assms(1) by (simp add: encode_cmd_def)
  have cr: "CR \<notin> set ?p" using dec_nat_clean(1) [of ?n] by (simp add: CR_def)
  have l31: "length ?q < 2 ^ 31" using assms(5) by (simp add: PROTO_INLINE_MAX_SIZE_def)
  then have t32: "to_int32 (int (length ?q)) = int (length ?q)" by (simp add: to_int32_id int32_def)
  show ?thesis using s
  proof (cases rule: line_cases)
    case part
    then have "CR \<notin> set ?q \<or> ?q = ?p @ [CR]" using cr by blast
    then have "mb_count c = Some (Inl (c, False))"
    proof
      assume "CR \<notin> set ?q"
      then show ?thesis using assms(3,5) by (simp add: mb_count_def Let_def strchr_pos_none)
    next
      assume q: "?q = ?p @ [CR]"
      have "strchr_pos CR ?q = Some (length ?p)" unfolding q using strchr_pos_found [of CR ?p "[]"] cr dec_nat_clean(2) [of ?n]
        by (simp add: NUL_def)
      then show ?thesis using assms(3) t32 q by (simp add: mb_count_def Let_def)
    qed
    moreover have "length ?q \<le> 64" using part(2) length_dec_nat_less [of ?n] v by simp
    ultimately show ?thesis using part(1) by blast
  next
    case (line w)
    have f: "strchr_pos CR ?q = Some (length (dec_nat ?n) + 1)" unfolding line(1) by (rule number_line) (simp_all add: CR_def NUL_def)
    have ll: "string2ll (dec_nat ?n) = Some (int ?n)" by (rule string2ll_dec_nat) (use v in simp)
    have num: "take (length (dec_nat ?n)) (drop 1 ?q) = dec_nat ?n" "hd ?q = CHR ''*''" unfolding line(1) by simp_all
    have k: "length (dec_nat ?n) + 1 + 2 = length (?p @ CRLF)" by (simp add: CRLF_def)
    have "length ?q = length (dec_nat ?n) + 3 + length w" unfolding line(1) by (simp add: CRLF_def)
    then have nb: "\<not> int (length (dec_nat ?n) + 1) > to_int32 (int (length ?q)) - 2" using t32 by linarith
    have "mb_count c = Some (Inr (c\<lparr>cl_multibulklen := int ?n\<rparr>, length (dec_nat ?n) + 1 + 2))"
      using assms(3) f nb num ll v unfolding mb_count_def Let_def by simp
    then show ?thesis unfolding k using line by (metis append_assoc)
  qed
qed

text \<open>Where a client is in the stream of the commands \<open>cmds\<close>, with \<open>z\<close> still to arrive.\<close>

definition between :: "'a rclient_scheme \<Rightarrow> string \<Rightarrow> string list list \<Rightarrow> bool" where
  "between c z cmds \<longleftrightarrow> cl_multibulklen c = 0 \<and> cl_bulklen c = -1 \<and> cl_argv c = [] \<and> length (cl_querybuf c) \<le> PROTO_INLINE_MAX_SIZE \<and>
     (cl_reqtype c = 0 \<or> cl_reqtype c = PROTO_REQ_MULTIBULK \<and> cl_querybuf c \<noteq> []) \<and>
     cl_querybuf c @ z = concat (map encode_cmd cmds)"

definition inside :: "'a rclient_scheme \<Rightarrow> string \<Rightarrow> string list list \<Rightarrow> bool" where
  "inside c z cmds \<longleftrightarrow> (\<exists>rest cmds'. cmds = (cl_argv c @ rest) # cmds' \<and> rest \<noteq> [] \<and> cl_multibulklen c = int (length rest) \<and>
     cl_reqtype c = PROTO_REQ_MULTIBULK \<and> bulk_known (cl_bulklen c) rest \<and> fits_at [] (cl_querybuf c) (cl_bulklen c) \<and>
     cl_querybuf c @ z = args_stream (cl_bulklen c) rest @ concat (map encode_cmd cmds'))"

definition calm :: "'a rclient_scheme \<Rightarrow> bool" where
  "calm c \<longleftrightarrow> \<not> cl_blocked c \<and> \<not> cl_close_after_reply c"

definition taken :: "'a rclient_scheme \<Rightarrow> string \<Rightarrow> string list \<Rightarrow> string list list \<Rightarrow> bool" where
  "taken c z args cmds \<longleftrightarrow> calm c \<and> cl_argv c = args \<and> length (cl_querybuf c) \<le> PROTO_INLINE_MAX_SIZE \<and>
     cl_querybuf c @ z = concat (map encode_cmd cmds)"

definition waiting :: "'a rclient_scheme \<Rightarrow> string \<Rightarrow> string list list \<Rightarrow> bool" where
  "waiting c z cmds \<longleftrightarrow> calm c \<and> (between c z cmds \<or> inside c z cmds) \<and> waits_at (cl_querybuf c) (cl_bulklen c)"

lemma mb_rest:
  assumes "mb_done c rest z (concat (map encode_cmd cmds)) (Some (c2, pos, go))" "calm c" "cl_reqtype c = PROTO_REQ_MULTIBULK"
  shows "go \<and> (\<exists>qb. (if pos \<noteq> 0 then range_text (cl_querybuf c2) (int pos) (-1) else Some (cl_querybuf c2)) = Some qb \<and>
    (if cl_multibulklen c2 = 0 then taken (c2\<lparr>cl_querybuf := qb\<rparr>) z (cl_argv c @ rest) cmds
     else z \<noteq> [] \<and> waiting (c2\<lparr>cl_querybuf := qb\<rparr>) z ((cl_argv c @ rest) # cmds)))"
proof -
  obtain u w b ds rest' where D: "c2 = c\<lparr>cl_querybuf := u @ w, cl_multibulklen := int (length rest'), cl_bulklen := b, cl_argv := cl_argv c @ ds\<rparr>"
    "pos = length u" "go" "rest = ds @ rest'" "bulk_known b rest'" "w @ z = args_stream b rest' @ concat (map encode_cmd cmds)"
    "if rest' = [] then fits_at u w (-1) else z \<noteq> [] \<and> waits_at w b" and l: "length (u @ w) < 2 ^ 31" using assms(1) unfolding mb_done_def by blast
  then have "length u < 2 ^ 31" by simp
  with l have rg: "(if pos \<noteq> 0 then range_text (cl_querybuf c2) (int pos) (-1) else Some (cl_querybuf c2)) = Some w"
    using range_text_drop [of "u @ w" "length u"] D(1,2) by simp
  show ?thesis
  proof (cases "rest' = []")
    case True
    then have "b = -1" using D(5) by (simp add: bulk_known_def)
    then have "length w \<le> PROTO_INLINE_MAX_SIZE" "w @ z = concat (map encode_cmd cmds)"
      using D(6,7) True by (simp_all add: fits_at_def PROTO_MBULK_BIG_ARG_def args_stream_def)
    then have "taken (c2\<lparr>cl_querybuf := w\<rparr>) z (cl_argv c @ rest) cmds" using D(1,4) True assms(2) by (simp add: taken_def calm_def)
    then show ?thesis using D(1,3) rg True by simp
  next
    case False
    then have w: "z \<noteq> []" "waits_at w b" using D(7) by simp_all
    have f: "fits_at [] w b" using w(2) by (auto simp: fits_at_def waits_at_def PROTO_INLINE_MAX_SIZE_def PROTO_MBULK_BIG_ARG_def split: if_splits)
    have "inside (c2\<lparr>cl_querybuf := w\<rparr>) z ((cl_argv c @ rest) # cmds)"
      unfolding inside_def using D(1,4,5,6) f False assms(3) by (intro exI [of _ rest'] exI [of _ cmds]) simp
    then have "waiting (c2\<lparr>cl_querybuf := w\<rparr>) z ((cl_argv c @ rest) # cmds)" using D(1) w(2) assms(2) by (simp add: waiting_def calm_def)
    then show ?thesis using D(1,3) rg w(1) False by simp
  qed
qed

lemma mb_done_Some: "mb_done c rest z r res \<Longrightarrow> \<exists>c2 pos go. res = Some (c2, pos, go)"
  by (auto simp: mb_done_def)

lemma processMultibulk_inside:
  assumes "inside c z cmds" "calm c" "\<forall>args \<in> set cmds. valid_cmd args"
  shows "\<exists>c'. processMultibulkBuffer c = Some (c', False) \<and> z \<noteq> [] \<and> waiting c' z cmds \<or>
    processMultibulkBuffer c = Some (c', True) \<and> taken c' z (hd cmds) (tl cmds)"
proof -
  obtain rest cmds' where I: "cmds = (cl_argv c @ rest) # cmds'" "rest \<noteq> []" "cl_multibulklen c = int (length rest)"
    "cl_reqtype c = PROTO_REQ_MULTIBULK" "bulk_known (cl_bulklen c) rest" "fits_at [] (cl_querybuf c) (cl_bulklen c)"
    "cl_querybuf c @ z = args_stream (cl_bulklen c) rest @ concat (map encode_cmd cmds')" using assms(1) unfolding inside_def by blast
  have v: "\<forall>a \<in> set rest. length a \<le> 512 * 1024 * 1024" using assms(3) I(1) by (simp add: valid_cmd_def)
  have D: "mb_done c rest z (concat (map encode_cmd cmds')) (mb_loop c 0)"
    using mb_loop_stream [of c "[]" "cl_querybuf c" rest, OF _ I(3) refl I(5,7) v I(6)] by simp
  then obtain c2 pos go where L: "mb_loop c 0 = Some (c2, pos, go)" using mb_done_Some by blast
  from mb_rest [OF D [unfolded L] assms(2) I(4)] obtain qb where
    R: "go" "(if pos \<noteq> 0 then range_text (cl_querybuf c2) (int pos) (-1) else Some (cl_querybuf c2)) = Some qb"
    "if cl_multibulklen c2 = 0 then taken (c2\<lparr>cl_querybuf := qb\<rparr>) z (cl_argv c @ rest) cmds'
     else z \<noteq> [] \<and> waiting (c2\<lparr>cl_querybuf := qb\<rparr>) z ((cl_argv c @ rest) # cmds')" by blast
  have "0 < cl_multibulklen c" using I(2,3) by simp
  then have "processMultibulkBuffer c = Some (c2\<lparr>cl_querybuf := qb\<rparr>, cl_multibulklen c2 = 0)"
    unfolding processMultibulkBuffer_def using L R(1,2) by simp
  then show ?thesis using R(3) I(1) by (cases "cl_multibulklen c2 = 0") auto
qed

lemma processMultibulk_between:
  assumes "between c z (args # cmds)" "calm c" "valid_cmd args" "cl_querybuf c \<noteq> []" "cl_reqtype c = PROTO_REQ_MULTIBULK"
  shows "\<exists>c'. processMultibulkBuffer c = Some (c', False) \<and> z \<noteq> [] \<and> waiting c' z (args # cmds) \<or>
    processMultibulkBuffer c = Some (c', True) \<and> taken c' z args cmds"
proof -
  have B: "cl_multibulklen c = 0" "cl_bulklen c = -1" "cl_argv c = []" "length (cl_querybuf c) \<le> PROTO_INLINE_MAX_SIZE"
    "cl_querybuf c @ z = encode_cmd args @ concat (map encode_cmd cmds)" using assms(1) by (simp_all add: between_def)
  from mb_count_step [OF B(5) assms(4) B(3) assms(3) B(4)] consider
    (wait) "mb_count c = Some (Inl (c, False))" "z \<noteq> []" "length (cl_querybuf c) \<le> 64"
    | (num) u w where "cl_querybuf c = u @ w" "mb_count c = Some (Inr (c\<lparr>cl_multibulklen := int (length args)\<rparr>, length u))"
      "w @ z = concat (map bulk args) @ concat (map encode_cmd cmds)" by blast
  then show ?thesis
  proof cases
    case wait
    then have "processMultibulkBuffer c = Some (c, False)" using B(1) by (simp add: processMultibulkBuffer_def)
    then show ?thesis using wait assms(1,2) B(2) by (auto simp: waiting_def waits_at_def)
  next
    case num
    let ?c1 = "c\<lparr>cl_multibulklen := int (length args)\<rparr>"
    have v: "\<forall>a \<in> set args. length a \<le> 512 * 1024 * 1024" "args \<noteq> []" using assms(3) by (auto simp: valid_cmd_def)
    have D: "mb_done ?c1 args z (concat (map encode_cmd cmds)) (mb_loop ?c1 (length u))"
    proof (rule mb_loop_stream [OF _ _ refl])
      show "w @ z = args_stream (cl_bulklen ?c1) args @ concat (map encode_cmd cmds)" unfolding num(3) using B(2) by (simp add: args_stream_def)
      show "fits_at u w (cl_bulklen ?c1)" using B(4) num(1) by (simp add: fits_at_def)
    qed (use num(1) v B(2) in \<open>simp_all add: bulk_known_def\<close>)
    then obtain c2 pos go where L: "mb_loop ?c1 (length u) = Some (c2, pos, go)" using mb_done_Some by blast
    have c1: "calm ?c1" "cl_reqtype ?c1 = PROTO_REQ_MULTIBULK" "cl_argv ?c1 = []" using assms(2,5) B(3) by (simp_all add: calm_def)
    from mb_rest [OF D [unfolded L] c1(1,2)] obtain qb where
      R: "go" "(if pos \<noteq> 0 then range_text (cl_querybuf c2) (int pos) (-1) else Some (cl_querybuf c2)) = Some qb"
      "if cl_multibulklen c2 = 0 then taken (c2\<lparr>cl_querybuf := qb\<rparr>) z args cmds
       else z \<noteq> [] \<and> waiting (c2\<lparr>cl_querybuf := qb\<rparr>) z (args # cmds)" unfolding c1(3) append_Nil by blast
    have "0 < cl_multibulklen ?c1" using v(2) by simp
    then have "processMultibulkBuffer c = Some (c2\<lparr>cl_querybuf := qb\<rparr>, cl_multibulklen c2 = 0)"
      unfolding processMultibulkBuffer_def using B(1) num(2) L R(1,2) by simp
    then show ?thesis using R(3) by (cases "cl_multibulklen c2 = 0") auto
  qed
qed

text \<open>Commands that leave the query buffer alone and do not block, close or free the client.\<close>

definition exec_ok :: "'a exec \<Rightarrow> bool" where
  "exec_ok exec \<longleftrightarrow> (\<forall>c. \<exists>c'. exec c = (c', True, True) \<and> cl_querybuf c' = cl_querybuf c \<and> (calm c \<longrightarrow> calm c'))"

lemma resetClient_simps [simp]:
  "cl_querybuf (resetClient c) = cl_querybuf c" "cl_reqtype (resetClient c) = 0" "cl_multibulklen (resetClient c) = 0"
  "cl_bulklen (resetClient c) = -1" "cl_argv (resetClient c) = []" "calm (resetClient c) = calm c" "cl_slave (resetClient c) = cl_slave c"
  by (simp_all add: resetClient_def freeClientArgv_def Let_def calm_def)

lemma encode_cmd_hd: "\<exists>t. encode_cmd args = CHR ''*'' # t"
  by (simp add: encode_cmd_def)

lemma bulk_known_ge: "bulk_known b rest \<Longrightarrow> -1 \<le> b"
  by (auto simp: bulk_known_def)

lemma args_stream_nonempty: "rest \<noteq> [] \<Longrightarrow> args_stream b rest \<noteq> []"
  by (cases rest) (simp_all add: args_stream_def CRLF_def bulk_def)

lemma missing_arrives:
  assumes "between c z cmds \<or> inside c z cmds" "cl_querybuf c = []" "cmds \<noteq> []"
  shows "z \<noteq> []"
  using assms(1)
proof
  assume "between c z cmds"
  then have "z = concat (map encode_cmd cmds)" using assms(2) by (simp add: between_def)
  then show ?thesis using assms(3) encode_cmd_hd [of "hd cmds"] by (cases cmds) auto
next
  assume "inside c z cmds"
  then obtain rest cmds' where "rest \<noteq> []" "z = args_stream (cl_bulklen c) rest @ concat (map encode_cmd cmds')"
    using assms(2) unfolding inside_def by auto
  then show ?thesis using args_stream_nonempty [of rest "cl_bulklen c"] by auto
qed

lemma empty_waits:
  assumes "between c z cmds \<or> inside c z cmds" "cl_querybuf c = []" "calm c"
  shows "waiting c z cmds"
proof -
  have "-1 \<le> cl_bulklen c" using assms(1)
  proof
    assume "inside c z cmds"
    then obtain rest where "bulk_known (cl_bulklen c) rest" unfolding inside_def by blast
    then show ?thesis by (rule bulk_known_ge)
  qed (simp add: between_def)
  then show ?thesis using assms by (simp add: waiting_def waits_at_def)
qed

text \<open>One round of the loop takes the next command or waits.\<close>

lemma process_round:
  assumes "between c z (args # cmds) \<or> inside c z (args # cmds)" "cl_querybuf c \<noteq> []" "calm c" "\<forall>a \<in> set (args # cmds). valid_cmd a"
  shows "(\<exists>c'. processInputBuffer exec False now c = Some (c', []) \<and> z \<noteq> [] \<and> waiting c' z (args # cmds)) \<or>
    (\<exists>c2. taken c2 z args cmds \<and> processInputBuffer exec False now c =
       (let (c3, ret, alive) = exec c2; c4 = (if ret then resetClient c3 else c3)
        in if \<not> alive then Some (c4, [args])
           else do { (c5, cs) \<leftarrow> processInputBuffer exec False now c4; Some (c5, args # cs) }))"
proof -
  let ?c1 = "if cl_reqtype c = 0
    then c\<lparr>cl_reqtype := (if hd (cl_querybuf c) = CHR ''*'' then PROTO_REQ_MULTIBULK else PROTO_REQ_INLINE)\<rparr> else c"
  have "\<exists>c'. processMultibulkBuffer ?c1 = Some (c', False) \<and> z \<noteq> [] \<and> waiting c' z (args # cmds) \<or>
    processMultibulkBuffer ?c1 = Some (c', True) \<and> taken c' z args cmds" and t: "cl_reqtype ?c1 = PROTO_REQ_MULTIBULK"
  proof (atomize (full), use assms(1) in \<open>elim disjE\<close>)
    assume b: "between c z (args # cmds)"
    obtain t where t: "encode_cmd args = CHR ''*'' # t" using encode_cmd_hd by blast
    have "cl_querybuf c @ z = encode_cmd args @ concat (map encode_cmd cmds)" using b by (simp add: between_def)
    then have "hd (cl_querybuf c) = CHR ''*''" using assms(2) unfolding t by (cases "cl_querybuf c") auto
    then have r: "cl_reqtype ?c1 = PROTO_REQ_MULTIBULK" and b1: "between ?c1 z (args # cmds)" "calm ?c1" "cl_querybuf ?c1 \<noteq> []"
      using b assms(2,3) by (auto simp: between_def calm_def)
    from processMultibulk_between [OF b1(1,2) _ b1(3) r] assms(4) r
    show "(\<exists>c'. processMultibulkBuffer ?c1 = Some (c', False) \<and> z \<noteq> [] \<and> waiting c' z (args # cmds) \<or>
      processMultibulkBuffer ?c1 = Some (c', True) \<and> taken c' z args cmds) \<and> cl_reqtype ?c1 = PROTO_REQ_MULTIBULK" by simp
  next
    assume i: "inside c z (args # cmds)"
    then have r: "cl_reqtype c = PROTO_REQ_MULTIBULK" by (auto simp: inside_def)
    then have e: "?c1 = c" by (simp add: PROTO_REQ_MULTIBULK_def)
    show "(\<exists>c'. processMultibulkBuffer ?c1 = Some (c', False) \<and> z \<noteq> [] \<and> waiting c' z (args # cmds) \<or>
      processMultibulkBuffer ?c1 = Some (c', True) \<and> taken c' z args cmds) \<and> cl_reqtype ?c1 = PROTO_REQ_MULTIBULK"
      using processMultibulk_inside [OF i assms(3,4)] r unfolding e by simp
  qed
  then obtain c' where c': "processMultibulkBuffer ?c1 = Some (c', False) \<and> z \<noteq> [] \<and> waiting c' z (args # cmds) \<or>
    processMultibulkBuffer ?c1 = Some (c', True) \<and> taken c' z args cmds" by blast
  have e: "processInputBuffer exec False now c = do {
      (c2, ok) \<leftarrow> processMultibulkBuffer ?c1;
      (if \<not> ok then Some (c2, [])
       else if cl_argv c2 = [] then processInputBuffer exec False now (resetClient c2)
       else (let (c3, ret, alive) = exec c2; c4 = (if ret then resetClient c3 else c3)
             in if \<not> alive then Some (c4, [cl_argv c2])
                else do { (c5, cs) \<leftarrow> processInputBuffer exec False now c4; Some (c5, cl_argv c2 # cs) })) }"
    using assms(2,3) t by (subst processInputBuffer.simps) (simp add: calm_def Let_def PROTO_REQ_MULTIBULK_def PROTO_REQ_INLINE_def)
  show ?thesis using c'
  proof
    assume "processMultibulkBuffer ?c1 = Some (c', False) \<and> z \<noteq> [] \<and> waiting c' z (args # cmds)"
    then show ?thesis unfolding e by simp
  next
    assume T: "processMultibulkBuffer ?c1 = Some (c', True) \<and> taken c' z args cmds"
    then have "cl_argv c' = args" "args \<noteq> []" using assms(4) by (simp_all add: taken_def valid_cmd_def)
    then show ?thesis unfolding e using T by (intro disjI2 exI [of _ c']) (cases "exec c'", simp add: Let_def)
  qed
qed

lemma process_stream:
  assumes "exec_ok exec"
  shows "\<lbrakk>between c z cmds \<or> inside c z cmds; calm c; \<forall>a \<in> set cmds. valid_cmd a\<rbrakk> \<Longrightarrow>
    \<exists>c' ds cmds'. processInputBuffer exec False now c = Some (c', ds) \<and> cmds = ds @ cmds' \<and> waiting c' z cmds' \<and> (cmds' \<noteq> [] \<longrightarrow> z \<noteq> [])"
proof (induction cmds arbitrary: c)
  case Nil
  then have "cl_querybuf c = []" by (auto simp: between_def inside_def)
  then show ?case using empty_waits [OF Nil(1) _ Nil(2)] by (subst processInputBuffer.simps) simp
next
  case (Cons args cmds)
  show ?case
  proof (cases "cl_querybuf c = []")
    case True
    then show ?thesis using empty_waits [OF Cons.prems(1) True Cons.prems(2)] missing_arrives [OF Cons.prems(1) True]
      by (subst processInputBuffer.simps) simp
  next
    case False
    from process_round [OF Cons.prems(1) False Cons.prems(2,3), of exec now] show ?thesis
    proof (elim disjE exE conjE)
      fix c2
      assume t: "taken c2 z args cmds" and e: "processInputBuffer exec False now c =
        (let (c3, ret, alive) = exec c2; c4 = (if ret then resetClient c3 else c3)
         in if \<not> alive then Some (c4, [args])
            else do { (c5, cs) \<leftarrow> processInputBuffer exec False now c4; Some (c5, args # cs) })"
      obtain c3 where c3: "exec c2 = (c3, True, True)" "cl_querybuf c3 = cl_querybuf c2" "calm c3"
        using assms t unfolding exec_ok_def taken_def by blast
      have "between (resetClient c3) z cmds" using t c3(2) by (simp add: between_def taken_def)
      then obtain c' ds cmds' where I: "processInputBuffer exec False now (resetClient c3) = Some (c', ds)" "cmds = ds @ cmds'"
        "waiting c' z cmds'" "cmds' \<noteq> [] \<longrightarrow> z \<noteq> []" using Cons.IH [of "resetClient c3"] c3(3) Cons.prems(3) by auto
      then show ?thesis unfolding e using c3(1) by (intro exI [of _ c'] exI [of _ "args # ds"] exI [of _ cmds']) simp
    qed auto
  qed
qed

section \<open>Properties\<close>

text \<open>A socket on which \<open>stream\<close> arrives: the \<open>i\<close>-th read event delivers \<open>nb i\<close> bytes, but at least one and no
  more than \<open>read\<close> was asked for.\<close>

function serve :: "'a exec \<Rightarrow> int \<Rightarrow> (nat \<Rightarrow> nat) \<Rightarrow> nat \<Rightarrow> string \<Rightarrow> 'a rclient_scheme \<Rightarrow> ('a rclient_scheme option \<times> string list list) option" where
  "serve exec now nb i stream c =
     (if stream = [] then Some (Some c, [])
      else
        (let k = max 1 (min (nb i) (min (nat (read_len c)) (length stream)))
         in case readQueryFromClient exec False now PROTO_MAX_QUERYBUF_LEN c (ReadBytes (take k stream)) of
             None \<Rightarrow> None
           | Some (None, cmds) \<Rightarrow> Some (None, cmds)
           | Some (Some c1, cmds) \<Rightarrow>
               map_option (\<lambda>(c2, cmds'). (c2, cmds @ cmds')) (serve exec now nb (i + 1) (drop k stream) c1)))"
  by pat_completeness auto
termination
  by (relation "measure (\<lambda>(exec, now, nb, i, stream, c). length stream)") auto

declare serve.simps [simp del]

lemma read_len_waiting:
  assumes "waiting c z cmds" "\<forall>a \<in> set cmds. valid_cmd a"
  shows "0 < read_len c \<and> read_len c \<le> PROTO_IOBUF_LEN \<and>
    (\<forall>bs. int (length bs) \<le> read_len c \<longrightarrow> fits_at [] (cl_querybuf c @ bs) (cl_bulklen c) \<and> length (cl_querybuf c @ bs) \<le> PROTO_MAX_QUERYBUF_LEN)"
proof (cases "cl_bulklen c \<ge> PROTO_MBULK_BIG_ARG")
  case True
  then have b: "cl_bulklen c \<noteq> -1" by (simp add: PROTO_MBULK_BIG_ARG_def)
  have w: "int (length (cl_querybuf c)) < cl_bulklen c + 2" using assms(1) b by (simp add: waiting_def waits_at_def)
  have "inside c z cmds" using assms(1) b by (auto simp: waiting_def between_def)
  then obtain rest cmds' where I: "cmds = (cl_argv c @ rest) # cmds'" "rest \<noteq> []" "cl_multibulklen c = int (length rest)"
    "cl_reqtype c = PROTO_REQ_MULTIBULK" "cl_bulklen c = int (length (hd rest))" using b unfolding inside_def bulk_known_def by auto
  have l: "cl_bulklen c \<le> 512 * 1024 * 1024" using assms(2) I(1,2,5) by (cases rest) (auto simp: valid_cmd_def)
  have m: "(cl_bulklen c + 2) mod 2 ^ 32 = cl_bulklen c + 2" using l I(5) by simp
  have t: "to_int32 (cl_bulklen c + 2 - int (length (cl_querybuf c))) = cl_bulklen c + 2 - int (length (cl_querybuf c))"
    by (rule to_int32_id) (use w l in \<open>simp add: int32_def\<close>)
  have "read_len c = min (cl_bulklen c + 2 - int (length (cl_querybuf c))) PROTO_IOBUF_LEN"
    unfolding read_len_def Let_def m t using I(2-4) b True by auto
  then show ?thesis using w True l by (auto simp: fits_at_def PROTO_IOBUF_LEN_def PROTO_MAX_QUERYBUF_LEN_def)
next
  case False
  then have "read_len c = PROTO_IOBUF_LEN" by (simp add: read_len_def)
  moreover have "length (cl_querybuf c) < 32 * 1024 + 2"
    using assms(1) False by (auto simp: waiting_def waits_at_def PROTO_MBULK_BIG_ARG_def split: if_splits)
  ultimately show ?thesis by (auto simp: fits_at_def PROTO_IOBUF_LEN_def PROTO_MAX_QUERYBUF_LEN_def PROTO_INLINE_MAX_SIZE_def)
qed

lemma waiting_receives:
  assumes "waiting c (bs @ z) cmds" "fits_at [] (cl_querybuf c @ bs) (cl_bulklen c)" "bs \<noteq> []"
  shows "between (c\<lparr>cl_querybuf := cl_querybuf c @ bs\<rparr>) z cmds \<or> inside (c\<lparr>cl_querybuf := cl_querybuf c @ bs\<rparr>) z cmds"
proof -
  have "between c (bs @ z) cmds \<or> inside c (bs @ z) cmds" using assms(1) by (simp add: waiting_def)
  then show ?thesis
  proof
    assume b: "between c (bs @ z) cmds"
    then have "length (cl_querybuf c @ bs) \<le> PROTO_INLINE_MAX_SIZE" using assms(2) by (simp add: between_def fits_at_def PROTO_MBULK_BIG_ARG_def)
    then have "between (c\<lparr>cl_querybuf := cl_querybuf c @ bs\<rparr>) z cmds" using b assms(3) by (auto simp: between_def)
    then show ?thesis ..
  next
    assume "inside c (bs @ z) cmds"
    then obtain rest cmds' where "cmds = (cl_argv c @ rest) # cmds'" "rest \<noteq> []" "cl_multibulklen c = int (length rest)"
      "cl_reqtype c = PROTO_REQ_MULTIBULK" "bulk_known (cl_bulklen c) rest" 
      "cl_querybuf c @ bs @ z = args_stream (cl_bulklen c) rest @ concat (map encode_cmd cmds')" unfolding inside_def by blast
    then have "inside (c\<lparr>cl_querybuf := cl_querybuf c @ bs\<rparr>) z cmds" using assms(2) unfolding inside_def by (intro exI [of _ rest] exI [of _ cmds']) simp
    then show ?thesis ..
  qed
qed

lemma parsing_reploff:
  "between (c\<lparr>cl_reploff := n\<rparr>) z cmds = between c z cmds" "inside (c\<lparr>cl_reploff := n\<rparr>) z cmds = inside c z cmds" "calm (c\<lparr>cl_reploff := n\<rparr>) = calm c"
  by (simp_all add: between_def inside_def calm_def)

lemma read_round:
  assumes "exec_ok exec" "waiting c (bs @ z) cmds" "\<forall>a \<in> set cmds. valid_cmd a" "bs \<noteq> []" "int (length bs) \<le> read_len c"
  shows "\<exists>c' ds cmds'. readQueryFromClient exec False now PROTO_MAX_QUERYBUF_LEN c (ReadBytes bs) = Some (Some c', ds) \<and>
    cmds = ds @ cmds' \<and> waiting c' z cmds' \<and> (cmds' \<noteq> [] \<longrightarrow> z \<noteq> [])"
proof -
  have f: "fits_at [] (cl_querybuf c @ bs) (cl_bulklen c)" "length (cl_querybuf c @ bs) \<le> PROTO_MAX_QUERYBUF_LEN"
    using read_len_waiting [OF assms(2,3)] assms(5) by blast+
  let ?c1 = "c\<lparr>cl_querybuf := cl_querybuf c @ bs\<rparr>"
  let ?c2 = "if cl_master ?c1 then ?c1\<lparr>cl_reploff := cl_reploff ?c1 + int (length bs)\<rparr> else ?c1"
  have calm: "calm ?c1" using assms(2) by (simp add: waiting_def calm_def)
  note P = waiting_receives [OF assms(2) f(1) assms(4)]
  have "between ?c2 z cmds \<or> inside ?c2 z cmds" "calm ?c2" using P calm by (cases "cl_master c"; simp add: parsing_reploff)+
  from process_stream [OF assms(1) this assms(3), of now] obtain c' ds cmds' where
    S: "processInputBuffer exec False now ?c2 = Some (c', ds)" "cmds = ds @ cmds'" "waiting c' z cmds'" "cmds' \<noteq> [] \<longrightarrow> z \<noteq> []" by blast
  have "\<not> length (cl_querybuf ?c2) > PROTO_MAX_QUERYBUF_LEN" using f(2) by simp
  then have "readQueryFromClient exec False now PROTO_MAX_QUERYBUF_LEN c (ReadBytes bs) = Some (Some c', ds)"
    unfolding readQueryFromClient_def Let_def using S(1) assms(4,5) by simp
  then show ?thesis using S(2-4) by blast
qed

lemma serve_stream:
  assumes "exec_ok exec"
  shows "\<lbrakk>waiting c stream cmds; \<forall>a \<in> set cmds. valid_cmd a; cmds \<noteq> [] \<longrightarrow> stream \<noteq> []\<rbrakk> \<Longrightarrow>
    \<exists>c'. serve exec now nb i stream c = Some (Some c', cmds) \<and> waiting c' [] []"
proof (induction "length stream" arbitrary: i stream c cmds rule: less_induct)
  case less
  show ?case
  proof (cases "stream = []")
    case True
    then show ?thesis using less.prems by (subst serve.simps) simp
  next
    case False
    let ?k = "max 1 (min (nb i) (min (nat (read_len c)) (length stream)))"
    note R = read_len_waiting [OF less.prems(1,2)]
    have "1 \<le> nat (read_len c)" "1 \<le> length stream" using R False by (simp_all add: Suc_le_eq)
    then have k: "int ?k \<le> read_len c" "?k \<le> length stream" using R by auto
    have bs: "take ?k stream \<noteq> []" using False by simp
    have len: "int (length (take ?k stream)) \<le> read_len c" using k by simp
    have st: "waiting c (take ?k stream @ drop ?k stream) cmds" using less.prems(1) by simp
    from read_round [OF assms st less.prems(2) bs len, of now] obtain c1 ds cmds' where
      S: "readQueryFromClient exec False now PROTO_MAX_QUERYBUF_LEN c (ReadBytes (take ?k stream)) = Some (Some c1, ds)" "cmds = ds @ cmds'"
      "waiting c1 (drop ?k stream) cmds'" "cmds' \<noteq> [] \<longrightarrow> drop ?k stream \<noteq> []" by blast
    have "length (drop ?k stream) < length stream" using False by simp
    from less.hyps [OF this S(3) _ S(4), of "i + 1"] less.prems(2) S(2) obtain c' where
      I: "serve exec now nb (i + 1) (drop ?k stream) c1 = Some (Some c', cmds')" "waiting c' [] []" by auto
    have "serve exec now nb i stream c = Some (Some c', ds @ cmds')"
      using False I(1) S(1) unfolding serve.simps [of exec now nb i stream c] Let_def by simp
    then show ?thesis using I(2) S(2) by blast
  qed
qed

text \<open>C5. Requests are received as sent: a pipeline of commands in the multi bulk encoding, cut into read
  events in any way, is executed command by command with exactly the arguments sent, binary contents
  included, and leaves the client between two commands with an empty buffer.\<close>
theorem requests_as_sent:
  assumes "exec_ok exec" "\<forall>args \<in> set cmds. valid_cmd args"
    "cl_querybuf c = []" "cl_reqtype c = 0" "cl_multibulklen c = 0" "cl_bulklen c = -1" "cl_argv c = []" "\<not> cl_blocked c" "\<not> cl_close_after_reply c"
  shows "\<exists>c'. serve exec now nb 0 (concat (map encode_cmd cmds)) c = Some (Some c', cmds) \<and> cl_querybuf c' = [] \<and> cl_multibulklen c' = 0 \<and> cl_argv c' = []"
proof -
  have w: "waiting c (concat (map encode_cmd cmds)) cmds"
    using assms(3-9) by (simp add: waiting_def between_def waits_at_def calm_def)
  have ne: "cmds \<noteq> [] \<longrightarrow> concat (map encode_cmd cmds) \<noteq> []" by (cases cmds) (simp_all add: encode_cmd_def)
  obtain c' where "serve exec now nb 0 (concat (map encode_cmd cmds)) c = Some (Some c', cmds)" "waiting c' [] []"
    using serve_stream [OF assms(1) w assms(2) ne] by blast
  moreover from this(2) have "between c' [] []" by (simp add: waiting_def inside_def)
  ultimately show ?thesis by (simp add: between_def)
qed

definition ex_rclient :: rclient where
  "ex_rclient = \<lparr>cl_fd = 7, cl_lua = False, cl_reply_off = False, cl_reply_skip = False, cl_master = False,
     cl_master_force_reply = False, cl_close_after_reply = False, cl_pending_write = False, cl_replstate = 0,
     cl_put_online_on_ack = False, cl_buf = [], cl_reply = [], cl_sentlen = 0, cl_querybuf = [], cl_reqtype = 0,
     cl_multibulklen = 0, cl_bulklen = -1, cl_argv = [], cl_slave = False, cl_blocked = False, cl_multi = False,
     cl_asking = False, cl_reply_skip_next = False, cl_cmd_asking = False, cl_repl_ack_time = 0, cl_reploff = 0\<rparr>"

theorem requests_as_sent_witness:
  "\<exists>c'. serve (\<lambda>c. (c, True, True)) 0 (\<lambda>i. 3) 0 (encode_cmd [''GET'', [NUL, CR]] @ encode_cmd [''PING'']) ex_rclient =
     Some (Some c', [[''GET'', [NUL, CR]], [''PING'']]) \<and> cl_querybuf c' = []"
proof -
  have "exec_ok (\<lambda>c. (c, True, True))" by (simp add: exec_ok_def)
  moreover have "\<forall>args \<in> set [[''GET'', [NUL, CR]], [''PING'']]. valid_cmd args" by (simp add: valid_cmd_def)
  ultimately show ?thesis
    using requests_as_sent [of "\<lambda>c. (c, True, True)" "[[''GET'', [NUL, CR]], [''PING'']]" ex_rclient 0 "\<lambda>i. 3"]
    by (auto simp: ex_rclient_def)
qed

lemma hex_char_clean: "d < 16 \<Longrightarrow> hex_char d \<noteq> LF \<and> hex_char d \<noteq> CR \<and> hex_char d \<noteq> NUL"
proof -
  assume d: "d < 16"
  have "chr_code LF = 10" "chr_code CR = 13" "chr_code NUL = 0" by (simp_all add: LF_def CR_def NUL_def)
  then show ?thesis using hex_code [OF d] by (auto split: if_splits)
qed

lemma repr_char_clean: "LF \<notin> set (repr_char x) \<and> CR \<notin> set (repr_char x) \<and> NUL \<notin> set (repr_char x)"
proof -
  have d: "chr_code x div 16 < (16::nat)" using chr_code_less [of x] by linarith
  have p: "isprint x \<Longrightarrow> x \<noteq> LF \<and> x \<noteq> CR \<and> x \<noteq> NUL" by (auto simp: isprint_def LF_def CR_def NUL_def)
  have c: "LF = CHR 0x0A" "CR = CHR 0x0D" "NUL = CHR 0x00" by (simp_all add: LF_def CR_def NUL_def)
  show ?thesis using hex_char_clean [OF d] hex_char_clean [of "chr_code x mod 16"] p unfolding c
    by (auto simp: repr_char_def)
qed

lemma joined_clean: "x \<notin> set sep \<Longrightarrow> \<forall>t \<in> set ts. x \<notin> set t \<Longrightarrow> x \<notin> set (joined sep ts)"
  by (induction sep ts rule: joined.induct) auto

lemma reprs_clean: "x \<in> {LF, CR, NUL} \<Longrightarrow> x \<notin> set (joined '' '' (map repr args))"
  by (rule joined_clean) (use repr_char_clean in \<open>auto simp: repr_def LF_def CR_def NUL_def\<close>)

lemma joined_reprs_last: "args \<noteq> [] \<Longrightarrow> joined '' '' (map repr args) \<noteq> []"
proof -
  assume "args \<noteq> []"
  then obtain a as where "args = a # as" by (cases args) auto
  then show ?thesis by (cases "as = []") (simp_all add: joined_Cons repr_def)
qed

lemma inline_line:
  assumes "cl_querybuf c = l @ e @ LF # rest" "e = [] \<or> e = [CR]" "LF \<notin> set l" "CR \<notin> set l" "NUL \<notin> set l"
    "sdssplitargs l = Some argv" "length (cl_querybuf c) < 2 ^ 31 - 2"
  shows "processInlineBuffer now c = Some ((if l = [] \<and> cl_slave c then c\<lparr>cl_repl_ack_time := now\<rparr> else c)
    \<lparr>cl_querybuf := drop (length l + 2) (cl_querybuf c), cl_argv := filter (\<lambda>a. a \<noteq> []) argv\<rparr>, True)"
proof -
  let ?q = "cl_querybuf c"
  have ne: "CR \<noteq> LF" "CR \<noteq> NUL" "LF \<noteq> NUL" by (simp_all add: CR_def LF_def NUL_def)
  have f: "strchr_pos LF ?q = Some (length (l @ e))"
    using strchr_pos_found [of LF "l @ e" rest] assms(1-5) ne by auto
  have n: "(if length (l @ e) \<noteq> 0 \<and> ?q ! (length (l @ e) - 1) = CR then length (l @ e) - 1 else length (l @ e)) = length l"
    using assms(2)
  proof
    assume e: "e = []"
    have "?q ! (length l - 1) \<noteq> CR" if "l \<noteq> []"
    proof -
      have "?q ! (length l - 1) = l ! (length l - 1)" using assms(1) e that by (simp add: nth_append)
      moreover have "l ! (length l - 1) \<in> set l" using that by (intro nth_mem) simp
      ultimately show ?thesis using assms(4) by metis
    qed
    then show ?thesis using e by auto
  next
    assume "e = [CR]"
    then show ?thesis using assms(1) by (simp add: nth_append)
  qed
  have t: "take (length l) ?q = l" using assms(1) by simp
  have k: "length l + 2 < 2 ^ 31" using assms(1,7) by simp
  have t32: "to_int32 (int (length l) + 2) = int (length l + 2)" using k by (simp add: to_int32_id int32_def)
  have r: "range_text ?q (int (length l + 2)) (-1) = Some (drop (length l + 2) ?q)"
    by (rule range_text_drop) (use assms(7) k in simp_all)
  show ?thesis unfolding processInlineBuffer_def Let_def f option.case n t assms(6) t32 r by simp
qed

text \<open>C24. An inline request is a line of arguments in the notation of \<open>sdscatrepr\<close>: arbitrary non-empty
  arguments, quoted and separated by blanks and ended by CR LF, arrive as they were, and what follows
  the line stays in the buffer.\<close>
theorem inline_requests:
  assumes "cl_querybuf c = joined '' '' (map repr args) @ CRLF @ rest" "args \<noteq> []" "\<forall>a \<in> set args. a \<noteq> []"
    "length (cl_querybuf c) < 2 ^ 31 - 2"
  shows "processInlineBuffer now c = Some (c\<lparr>cl_querybuf := rest, cl_argv := args\<rparr>, True)"
proof -
  let ?l = "joined '' '' (map repr args)"
  have q: "cl_querybuf c = ?l @ [CR] @ LF # rest" using assms(1) by (simp add: CRLF_def CR_def LF_def)
  have "?l \<noteq> []" using joined_reprs_last [OF assms(2)] .
  moreover have "filter (\<lambda>a. a \<noteq> []) args = args" using assms(3) by simp
  moreover have "drop (length ?l + 2) (cl_querybuf c) = rest" unfolding q by simp
  ultimately show ?thesis
    using inline_line [OF q _ _ _ _ sdssplitargs_reprs assms(4), of now] reprs_clean [of LF args] reprs_clean [of CR args] reprs_clean [of NUL args]
    by simp
qed

theorem inline_requests_witness:
  "processInlineBuffer 0 (ex_rclient\<lparr>cl_querybuf := joined '' '' (map repr [''SET'', [NUL]]) @ CRLF @ ''PING''\<rparr>) =
     Some (ex_rclient\<lparr>cl_querybuf := ''PING'', cl_argv := [''SET'', [NUL]]\<rparr>, True)"
proof -
  have "length (joined '' '' (map repr [''SET'', [NUL]])) \<le> 32"
    using length_repr_chars [of "''SET''"] length_repr_chars [of "[NUL]"] by (simp add: repr_def)
  then show ?thesis
    using inline_requests [of "ex_rclient\<lparr>cl_querybuf := joined '' '' (map repr [''SET'', [NUL]]) @ CRLF @ ''PING''\<rparr>" "[''SET'', [NUL]]" "''PING''" 0]
    by (simp add: CRLF_def)
qed

text \<open>C31. A line ended by LF alone is accepted, but costs the next request its first byte: the code always
  removes two bytes behind the arguments.\<close>
theorem inline_lf_loses_byte:
  assumes "cl_querybuf c = joined '' '' (map repr args) @ LF # x # rest" "args \<noteq> []" "\<forall>a \<in> set args. a \<noteq> []"
    "length (cl_querybuf c) < 2 ^ 31 - 2"
  shows "processInlineBuffer now c = Some (c\<lparr>cl_querybuf := rest, cl_argv := args\<rparr>, True)"
proof -
  let ?l = "joined '' '' (map repr args)"
  have q: "cl_querybuf c = ?l @ [] @ LF # x # rest" using assms(1) by simp
  have "?l \<noteq> []" using joined_reprs_last [OF assms(2)] .
  moreover have "filter (\<lambda>a. a \<noteq> []) args = args" using assms(3) by simp
  moreover have "drop (length ?l + 2) (cl_querybuf c) = rest" unfolding q by simp
  ultimately show ?thesis
    using inline_line [OF q _ _ _ _ sdssplitargs_reprs assms(4), of now] reprs_clean [of LF args] reprs_clean [of CR args] reprs_clean [of NUL args]
    by simp
qed

theorem inline_lf_loses_byte_witness:
  "processInlineBuffer 0 (ex_rclient\<lparr>cl_querybuf := joined '' '' (map repr [''PING'']) @ LF # ''PING''\<rparr>) =
     Some (ex_rclient\<lparr>cl_querybuf := ''ING'', cl_argv := [''PING'']\<rparr>, True)"
proof -
  have "length (joined '' '' (map repr [''PING''])) \<le> 32" using length_repr_chars [of "''PING''"] by (simp add: repr_def)
  then show ?thesis
    using inline_lf_loses_byte [of "ex_rclient\<lparr>cl_querybuf := joined '' '' (map repr [''PING'']) @ LF # ''PING''\<rparr>" "[''PING'']" "CHR ''P''" "''ING''" 0] by simp
qed

lemma addReplyString_querybuf [simp]: "cl_querybuf (addReplyString c s) = cl_querybuf c"
  by (auto simp: addReplyString_def prepareClientToWrite_def addReplyToBuffer_def addReplyStringToList_def addReplyToList_def
    split: option.splits prod.splits)




end
