(* ===== verification/SetType.thy ===== *)
theory SetType
  imports Intset Object "HOL-Library.FSet"
begin

text \<open>
  The set objects of \<open>t_set.c\<close> in their two encodings: an \<open>intset\<close> while every member is the text of a
  64 bit integer and there are not too many, a hash table of string objects otherwise. The hash table is
  represented by the finite set of the texts of its keys (the theories \<open>Dict\<close> to \<open>DictTypes\<close> are about the table
  itself). \<open>set_object\<close> is the contract the commands rely on, over the texts of the members.
\<close>

section \<open>The operations\<close>

datatype rset = Intset intset | Ht "string fset"

text \<open>What the operations read besides the object: the configured limit, and what is in the memory that
  \<open>zrealloc\<close> returns.\<close>

record set_env =
  set_max_intset_entries :: nat
  realloc_junk :: "nat \<Rightarrow> byte"

text \<open>The \<open>while (setTypeNext(...) != -1)\<close> loop of \<open>setTypeConvert\<close>, \<open>ii\<close> the position of the iterator.
  A key that is in the table already fails the assertion.\<close>

partial_function (option) convert_loop :: "intset \<Rightarrow> nat \<Rightarrow> string fset \<Rightarrow> string fset option" where
  "convert_loop s ii d =
     do {
       r \<leftarrow> intsetGet s (of_nat ii);
       (case r of
          None \<Rightarrow> Some d
        | Some v \<Rightarrow> if dec_int v |\<in>| d then None else convert_loop s (Suc ii) (finsert (dec_int v) d))
     }"

definition setTypeConvert :: "rset \<Rightarrow> rset option" where
  "setTypeConvert rs =
     (case rs of
        Ht _ \<Rightarrow> None
      | Intset s \<Rightarrow> map_option Ht (convert_loop s 0 {||}))"

definition setTypeCreate :: "string \<Rightarrow> rset" where
  "setTypeCreate v = (case string2ll v of Some _ \<Rightarrow> Intset intsetNew | None \<Rightarrow> Ht {||})"

definition setTypeAdd :: "set_env \<Rightarrow> rset \<Rightarrow> string \<Rightarrow> (rset \<times> bool) option" where
  "setTypeAdd env subject v =
     (case subject of
        Ht d \<Rightarrow> Some (if v |\<in>| d then (Ht d, False) else (Ht (finsert v d), True))
      | Intset s \<Rightarrow>
          (case string2ll v of
             Some llval \<Rightarrow>
               do {
                 (s1, success) \<leftarrow> intsetAdd (realloc_junk env) s llval;
                 (if success then
                    if unat (intsetLen s1) > set_max_intset_entries env
                    then do { rs \<leftarrow> setTypeConvert (Intset s1); Some (rs, True) }
                    else Some (Intset s1, True)
                  else Some (Intset s1, False))
               }
           | None \<Rightarrow>
               do {
                 rs \<leftarrow> setTypeConvert subject;
                 (case rs of
                    Ht d \<Rightarrow> if v |\<in>| d then None else Some (Ht (finsert v d), True)
                  | Intset _ \<Rightarrow> None)
               }))"

definition setTypeRemove :: "set_env \<Rightarrow> rset \<Rightarrow> string \<Rightarrow> (rset \<times> bool) option" where
  "setTypeRemove env setobj v =
     (case setobj of
        Ht d \<Rightarrow> Some (if v |\<in>| d then (Ht (d |-| {|v|}), True) else (Ht d, False))
      | Intset s \<Rightarrow>
          (case string2ll v of
             Some llval \<Rightarrow> do { (s1, success) \<leftarrow> intsetRemove (realloc_junk env) s llval; Some (Intset s1, success) }
           | None \<Rightarrow> Some (setobj, False)))"

definition setTypeIsMember :: "rset \<Rightarrow> string \<Rightarrow> bool option" where
  "setTypeIsMember subject v =
     (case subject of
        Ht d \<Rightarrow> Some (v |\<in>| d)
      | Intset s \<Rightarrow> (case string2ll v of Some llval \<Rightarrow> intsetFind s llval | None \<Rightarrow> Some False))"

definition setTypeSize :: "rset \<Rightarrow> nat" where
  "setTypeSize subject = (case subject of Ht d \<Rightarrow> fcard d | Intset s \<Rightarrow> unat (intsetLen s))"

text \<open>The loop of \<open>saddCommand\<close> over \<open>argv[2..]\<close>, for any way of adding a member; the count is \<open>added\<close>.\<close>

fun add_all :: "('s \<Rightarrow> 'v \<Rightarrow> ('s \<times> bool) option) \<Rightarrow> 's \<Rightarrow> 'v list \<Rightarrow> ('s \<times> nat) option" where
  "add_all add s [] = Some (s, 0)"
| "add_all add s (v # vs) =
     do {
       (s1, new) \<leftarrow> add s v;
       (s2, n) \<leftarrow> add_all add s1 vs;
       Some (s2, if new then Suc n else n)
     }"

text \<open>The loop of \<open>sremCommand\<close>; it stops when the set is empty. The result has \<open>deleted\<close> and \<open>keyremoved\<close>.\<close>

fun remove_all :: "('s \<Rightarrow> 'v \<Rightarrow> ('s \<times> bool) option) \<Rightarrow> ('s \<Rightarrow> nat) \<Rightarrow> 's \<Rightarrow> 'v list \<Rightarrow> ('s \<times> nat \<times> bool) option" where
  "remove_all rm sz s [] = Some (s, 0, False)"
| "remove_all rm sz s (v # vs) =
     do {
       (s1, was) \<leftarrow> rm s v;
       (if was \<and> sz s1 = 0 then Some (s1, 1, True)
        else do {
          (s2, n, gone) \<leftarrow> remove_all rm sz s1 vs;
          Some (s2, if was then Suc n else n, gone)
        })
     }"


section \<open>The contract\<close>

text \<open>\<open>elems\<close> is the set a representation stands for. The laws are those of a finite set; every operation
  is defined on a well-formed object and keeps it well-formed.\<close>

locale set_object =
  fixes elems :: "'s \<Rightarrow> 'v set" and wf :: "'s \<Rightarrow> bool" and ok :: "'e \<Rightarrow> bool"
    and add rm :: "'e \<Rightarrow> 's \<Rightarrow> 'v \<Rightarrow> ('s \<times> bool) option"
    and member :: "'s \<Rightarrow> 'v \<Rightarrow> bool option" and sz :: "'s \<Rightarrow> nat"
  assumes finite_elems: "wf s \<Longrightarrow> finite (elems s)"
    and add_law: "ok e \<Longrightarrow> wf s \<Longrightarrow> \<exists>s'. add e s v = Some (s', v \<notin> elems s) \<and> wf s' \<and> elems s' = insert v (elems s)"
    and rm_law: "wf s \<Longrightarrow> \<exists>s'. rm e s v = Some (s', v \<in> elems s) \<and> wf s' \<and> elems s' = elems s - {v}"
    and member_law: "wf s \<Longrightarrow> member s v = Some (v \<in> elems s)"
    and sz_law: "wf s \<Longrightarrow> sz s = card (elems s)"
begin

lemma add_all_law:
  "ok e \<Longrightarrow> wf s \<Longrightarrow> \<exists>s'. add_all (add e) s vs = Some (s', card (set vs - elems s)) \<and> wf s' \<and> elems s' = elems s \<union> set vs"
proof (induction vs arbitrary: s)
  case (Cons v vs)
  obtain s1 where s1: "add e s v = Some (s1, v \<notin> elems s)" "wf s1" "elems s1 = insert v (elems s)"
    using add_law [OF Cons.prems, of v] by blast
  obtain s2 where s2: "add_all (add e) s1 vs = Some (s2, card (set vs - elems s1))" "wf s2" "elems s2 = elems s1 \<union> set vs"
    using Cons.IH [OF Cons.prems(1) s1(2)] by blast
  have "card (set (v # vs) - elems s) = (if v \<notin> elems s then Suc (card (set vs - elems s1)) else card (set vs - elems s1))"
  proof (cases "v \<in> elems s")
    case False
    then have "set (v # vs) - elems s = insert v (set vs - elems s1)" by (auto simp: s1(3))
    with False show ?thesis by (simp add: s1(3))
  qed (simp add: s1(3) insert_absorb)
  with s1 s2 show ?case by auto
qed simp

lemma remove_all_law:
  "wf s \<Longrightarrow> elems s \<noteq> {} \<Longrightarrow>
     \<exists>s'. remove_all (rm e) sz s vs = Some (s', card (set vs \<inter> elems s), elems s - set vs = {}) \<and> wf s' \<and>
        elems s' = elems s - set vs"
proof (induction vs arbitrary: s)
  case (Cons v vs)
  obtain s1 where s1: "rm e s v = Some (s1, v \<in> elems s)" "wf s1" "elems s1 = elems s - {v}"
    using rm_law [OF Cons.prems(1), of e v] by blast
  have sz: "sz s1 = 0 \<longleftrightarrow> elems s1 = {}" using sz_law [OF s1(2)] finite_elems [OF s1(2)] by simp
  show ?case
  proof (cases "elems s1 = {}")
    case True
    with Cons.prems s1(3) have e: "elems s = {v}" by auto
    then have "elems s1 = {}" "card (set (v # vs) \<inter> elems s) = 1" "elems s - set (v # vs) = {}"
      using s1(3) by auto
    with s1 sz e show ?thesis by auto
  next
    case False
    obtain s2 where s2: "remove_all (rm e) sz s1 vs = Some (s2, card (set vs \<inter> elems s1), elems s1 - set vs = {})"
      "wf s2" "elems s2 = elems s1 - set vs"
      using Cons.IH [OF s1(2) False] by blast
    have "card (set (v # vs) \<inter> elems s) =
        (if v \<in> elems s then Suc (card (set vs \<inter> elems s1)) else card (set vs \<inter> elems s1))"
    proof (cases "v \<in> elems s")
      case True
      then have "set (v # vs) \<inter> elems s = insert v (set vs \<inter> elems s1)" by (auto simp: s1(3))
      then show ?thesis using True by (simp add: s1(3))
    qed (simp add: s1(3) Int_insert_left)
    moreover have "elems s - set (v # vs) = elems s1 - set vs" using s1(3) by auto
    ultimately show ?thesis using s1 s2 sz False by auto
  qed
qed simp

end


section \<open>The two encodings implement it\<close>

definition rset_elems :: "rset \<Rightarrow> string set" where
  "rset_elems rs = (case rs of Ht d \<Rightarrow> fset d | Intset s \<Rightarrow> dec_int ` set (intset_elems s))"

definition rset_wf :: "rset \<Rightarrow> bool" where
  "rset_wf rs = (case rs of Ht d \<Rightarrow> True | Intset s \<Rightarrow> intset_wf s \<and> intset_room s)"

text \<open>A limit under which the byte size of an \<open>intset\<close> fits 32 bits (the default is 512).\<close>

definition env_ok :: "set_env \<Rightarrow> bool" where
  "env_ok env \<longleftrightarrow> set_max_intset_entries env < 2 ^ 29 - 1"

lemma rset_simps [simp]:
  "rset_elems (Ht d) = fset d" "rset_elems (Intset s) = dec_int ` set (intset_elems s)"
  "rset_wf (Ht d)" "rset_wf (Intset s) = (intset_wf s \<and> intset_room s)"
  by (simp_all add: rset_elems_def rset_wf_def)

lemma intset_elems_int64: "intset_wf s \<Longrightarrow> v \<in> set (intset_elems s) \<Longrightarrow> int64 v"
proof -
  assume "intset_wf s" "v \<in> set (intset_elems s)"
  then have "fits (enc_width (is_encoding s)) v" by (simp add: intset_wf_def intset_elems_fits)
  then have "fits 8 v" using enc_width_le fits_mono enc_width_pos by blast
  then show "int64 v" by (simp add: fits_def int64_def)
qed

lemma dec_int_eq: "int64 x \<Longrightarrow> int64 y \<Longrightarrow> dec_int x = dec_int y \<longleftrightarrow> x = y"
  by (metis option.inject string2ll_dec_int)

lemma dec_int_in:
  assumes "intset_wf s" "int64 v"
  shows "dec_int v \<in> dec_int ` set (intset_elems s) \<longleftrightarrow> v \<in> set (intset_elems s)"
  using assms intset_elems_int64 [OF assms(1)] by (auto simp: dec_int_eq)

lemma card_intset: "intset_wf s \<Longrightarrow> card (dec_int ` set (intset_elems s)) = unat (is_length s)"
proof -
  assume wf: "intset_wf s"
  have "inj_on dec_int (set (intset_elems s))"
    using intset_elems_int64 [OF wf] by (auto simp: inj_on_def dec_int_eq)
  moreover have "distinct (intset_elems s)" using wf by (simp add: intset_wf_def strict_sorted_iff)
  ultimately show ?thesis by (simp add: card_image distinct_card)
qed

lemma convert_loop_spec:
  assumes wf: "intset_wf s"
  shows "ii \<le> length (intset_elems s) \<Longrightarrow> fset d = dec_int ` set (take ii (intset_elems s)) \<Longrightarrow>
     \<exists>d'. convert_loop s ii d = Some d' \<and> fset d' = dec_int ` set (intset_elems s)"
proof (induction "length (intset_elems s) - ii" arbitrary: ii d)
  case 0
  have len: "unat (is_length s) * 8 < 2 ^ 32" using wf by (simp add: intset_wf_def intset_shape_def)
  from 0 have ii: "ii = length (intset_elems s)" by simp
  with len have "unat (of_nat ii :: u32) = ii" by (simp add: unat_of_nat take_bit_nat_eq_self)
  with ii have "intsetGet s (of_nat ii) = Some None" using intsetGet_correct [OF wf, of "of_nat ii"] by simp
  then show ?case using 0 ii by (subst convert_loop.simps) simp
next
  case (Suc k)
  let ?xs = "intset_elems s" and ?v = "intset_elems s ! ii"
  have len: "unat (is_length s) * 8 < 2 ^ 32" using wf by (simp add: intset_wf_def intset_shape_def)
  from Suc.hyps(2) have ii: "ii < length ?xs" by simp
  with len have "unat (of_nat ii :: u32) = ii" by (simp add: unat_of_nat take_bit_nat_eq_self)
  with ii have get: "intsetGet s (of_nat ii) = Some (Some ?v)"
    using intsetGet_correct [OF wf, of "of_nat ii"] by simp
  have "distinct ?xs" using wf by (simp add: intset_wf_def strict_sorted_iff)
  then have "distinct (take (Suc ii) ?xs)" by simp
  with ii have "?v \<notin> set (take ii ?xs)" by (simp add: take_Suc_conv_app_nth)
  moreover have "int64 x" if "x \<in> set (take ii ?xs)" for x
    using that intset_elems_int64 [OF wf] by (meson in_set_takeD)
  moreover have "int64 ?v" using ii intset_elems_int64 [OF wf] by simp
  ultimately have "dec_int ?v |\<notin>| d" using Suc.prems(2) by (auto simp: dec_int_eq)
  moreover have "fset (finsert (dec_int ?v) d) = dec_int ` set (take (Suc ii) ?xs)"
    using ii Suc.prems(2) by (simp add: take_Suc_conv_app_nth)
  moreover have "k = length ?xs - Suc ii" using Suc.hyps(2) by simp
  ultimately show ?case
    using Suc.hyps(1) [of "Suc ii" "finsert (dec_int ?v) d"] get ii by (subst convert_loop.simps) simp
qed

lemma setTypeConvert_spec:
  "intset_wf s \<Longrightarrow> \<exists>d. setTypeConvert (Intset s) = Some (Ht d) \<and> fset d = dec_int ` set (intset_elems s)"
  using convert_loop_spec [of s 0 "{||}"] by (auto simp: setTypeConvert_def)

lemma not_number_not_member:
  "intset_wf s \<Longrightarrow> string2ll v = None \<Longrightarrow> v \<notin> dec_int ` set (intset_elems s)"
  using intset_elems_int64 by fastforce

lemma string2ll_SomeD: "string2ll v = Some x \<Longrightarrow> int64 x \<and> v = dec_int x"
  by (simp only: string2ll_iff)

lemma setTypeAdd_spec:
  assumes wf: "rset_wf rs" and max: "env_ok env"
  shows "\<exists>rs'. setTypeAdd env rs v = Some (rs', v \<notin> rset_elems rs) \<and> rset_wf rs' \<and>
     rset_elems rs' = insert v (rset_elems rs)"
proof (cases rs)
  case (Ht d)
  then show ?thesis by (auto simp: setTypeAdd_def)
next
  case (Intset s)
  then have s: "intset_wf s" "intset_room s" using wf by simp_all
  show ?thesis
  proof (cases "string2ll v")
    case None
    then show ?thesis
      using setTypeConvert_spec [OF s(1)] not_number_not_member [OF s(1) None] Intset by (auto simp: setTypeAdd_def)
  next
    case (Some x)
    with string2ll_SomeD have x: "int64 x" "v = dec_int x" by blast+
    obtain s1 where s1: "intsetAdd (realloc_junk env) s x = Some (s1, x \<notin> set (intset_elems s))" "intset_wf s1"
      "set (intset_elems s1) = insert x (set (intset_elems s))"
      using intsetAdd_correct [OF s x(1)] by blast
    have m: "v \<in> rset_elems rs \<longleftrightarrow> x \<in> set (intset_elems s)" using Intset x s(1) by (simp add: dec_int_in)
    have e: "dec_int ` set (intset_elems s1) = insert v (rset_elems rs)" using s1(3) x Intset by simp
    obtain d where d: "setTypeConvert (Intset s1) = Some (Ht d)" "fset d = dec_int ` set (intset_elems s1)"
      using setTypeConvert_spec [OF s1(2)] by blast
    consider "x \<in> set (intset_elems s)" | "x \<notin> set (intset_elems s)" "set_max_intset_entries env < unat (intsetLen s1)"
      | "x \<notin> set (intset_elems s)" "unat (intsetLen s1) \<le> set_max_intset_entries env" by linarith
    then show ?thesis
    proof cases
      case 1
      then have "card (dec_int ` set (intset_elems s1)) = card (dec_int ` set (intset_elems s))"
        using s1(3) by (simp add: insert_absorb)
      then have "unat (is_length s1) = unat (is_length s)" using card_intset [OF s1(2)] card_intset [OF s(1)] by simp
      with s(2) have "intset_room s1" by (simp add: intset_room_def)
      with 1 show ?thesis using Intset Some s1 m e by (auto simp: setTypeAdd_def)
    next
      case 2
      then show ?thesis using Intset Some s1 m e d by (auto simp: setTypeAdd_def)
    next
      case 3
      then have "intset_room s1" using max by (simp add: env_ok_def intset_room_def intsetLen_def)
      with 3 show ?thesis using Intset Some s1 m e by (auto simp: setTypeAdd_def)
    qed
  qed
qed

lemma setTypeRemove_spec:
  assumes wf: "rset_wf rs"
  shows "\<exists>rs'. setTypeRemove env rs v = Some (rs', v \<in> rset_elems rs) \<and> rset_wf rs' \<and>
     rset_elems rs' = rset_elems rs - {v}"
proof (cases rs)
  case (Ht d)
  then show ?thesis by (auto simp: setTypeRemove_def)
next
  case (Intset s)
  then have s: "intset_wf s" "intset_room s" using wf by simp_all
  show ?thesis
  proof (cases "string2ll v")
    case None
    then show ?thesis
      using not_number_not_member [OF s(1) None] Intset s by (auto simp: setTypeRemove_def)
  next
    case (Some x)
    with string2ll_SomeD have x: "int64 x" "v = dec_int x" by blast+
    obtain s1 where s1: "intsetRemove (realloc_junk env) s x = Some (s1, x \<in> set (intset_elems s))" "intset_wf s1"
      "set (intset_elems s1) = set (intset_elems s) - {x}"
      using intsetRemove_correct [OF s(1) x(1)] by blast
    have e: "dec_int ` set (intset_elems s1) = rset_elems rs - {v}"
      using s1(3) x Intset intset_elems_int64 [OF s(1)] by (auto simp: dec_int_eq)
    have "card (dec_int ` set (intset_elems s1)) \<le> card (dec_int ` set (intset_elems s))"
      using e Intset by (intro card_mono) auto
    then have "intset_room s1" using s(2) card_intset [OF s1(2)] card_intset [OF s(1)] by (simp add: intset_room_def)
    then show ?thesis using Intset Some s1 e x s(1) by (auto simp: setTypeRemove_def dec_int_in)
  qed
qed

lemma setTypeIsMember_spec:
  assumes wf: "rset_wf rs"
  shows "setTypeIsMember rs v = Some (v \<in> rset_elems rs)"
proof (cases rs)
  case (Intset s)
  then have s: "intset_wf s" using wf by simp
  show ?thesis
  proof (cases "string2ll v")
    case None
    then show ?thesis using not_number_not_member [OF s None] Intset by (simp add: setTypeIsMember_def)
  next
    case (Some x)
    with string2ll_SomeD have x: "int64 x" "v = dec_int x" by blast+
    then show ?thesis using intsetFind_correct [OF s x(1)] dec_int_in [OF s x(1)] Intset by (simp add: setTypeIsMember_def)
  qed
qed (simp add: setTypeIsMember_def)

lemma setTypeSize_spec: "rset_wf rs \<Longrightarrow> setTypeSize rs = card (rset_elems rs)"
  by (cases rs) (simp_all add: setTypeSize_def fcard.rep_eq card_intset intsetLen_def)

interpretation rset: set_object rset_elems rset_wf env_ok setTypeAdd setTypeRemove setTypeIsMember setTypeSize
proof unfold_locales
  show "finite (rset_elems s)" if "rset_wf s" for s by (cases s) simp_all
qed (simp_all add: setTypeIsMember_spec setTypeSize_spec setTypeAdd_spec setTypeRemove_spec)

end
