(* ===== verification/Keyspace.thy ===== *)
theory Keyspace
  imports SetType "HOL-Library.Finite_Map"
begin

text \<open>
  The keyspace of \<open>db.c\<close>: lookups, insertion, deletion and expiry of keys, and the commands on keys of any type.
  The dictionaries \<open>db->dict\<close> and \<open>db->expires\<close> are finite maps from the text of a key (their refinement by the
  hash tables of \<open>dict.c\<close> is in \<open>DictTypes\<close>), and a list object is the list of the texts of its elements.
  A command returns the new state and its reply, or \<open>None\<close> when an assertion of the server fails or a signed
  addition overflows. The model has one database, cluster mode is off, and the access clock of the objects
  (\<open>val->lru\<close>) is left out. What the server tells others (modified keys, events, propagated commands, lists that
  blocked clients may wait for) is kept in logs, newest last.
\<close>

section \<open>State and replies\<close>

datatype rval = VString string | VList "string list" | VSet rset | VOther obj_type

fun rval_type :: "rval \<Rightarrow> obj_type" where
  "rval_type (VString _) = OBJ_STRING"
| "rval_type (VList _) = OBJ_LIST"
| "rval_type (VSet _) = OBJ_SET"
| "rval_type (VOther t) = t"

datatype notify_class = NOTIFY_GENERIC | NOTIFY_STRING | NOTIFY_LIST | NOTIFY_SET | NOTIFY_EXPIRED

datatype reply = RInt int | RBulk string | RNil | RStatus string | RErr string | RMulti "reply list"

text \<open>\<open>sv_lua\<close> is the start time of the running script; \<open>sv_readonly\<close> says that the current client is not the
  master and runs a read-only command.\<close>

record server =
  sv_dict :: "(string, rval) fmap"
  sv_expires :: "(string, int) fmap"
  sv_mstime :: int
  sv_loading :: bool
  sv_masterhost :: bool
  sv_lua :: "int option"
  sv_readonly :: bool
  sv_env :: set_env
  sv_dirty :: int
  sv_hits :: nat
  sv_misses :: nat
  sv_expiredkeys :: nat
  sv_modified :: "string list"
  sv_flushed :: nat
  sv_events :: "(notify_class \<times> string \<times> string) list"
  sv_feed :: "string list list"
  sv_ready :: "string list"

type_synonym outcome = "(server \<times> reply) option"

definition wrongtypeerr :: reply where
  "wrongtypeerr = RErr ''WRONGTYPE Operation against a key holding the wrong kind of value''"

definition nokeyerr :: reply where
  "nokeyerr = RErr ''ERR no such key''"

definition syntaxerr :: reply where
  "syntaxerr = RErr ''ERR syntax error''"

definition outofrangeerr :: reply where
  "outofrangeerr = RErr ''ERR index out of range''"

definition sharedok :: reply where
  "sharedok = RStatus ''OK''"

definition signalModifiedKey :: "server \<Rightarrow> string \<Rightarrow> server" where
  "signalModifiedKey sv key = sv\<lparr>sv_modified := sv_modified sv @ [key]\<rparr>"

definition signalFlushedDb :: "server \<Rightarrow> server" where
  "signalFlushedDb sv = sv\<lparr>sv_flushed := Suc (sv_flushed sv)\<rparr>"

definition notifyKeyspaceEvent :: "server \<Rightarrow> notify_class \<Rightarrow> string \<Rightarrow> string \<Rightarrow> server" where
  "notifyKeyspaceEvent sv cl ev key = sv\<lparr>sv_events := sv_events sv @ [(cl, ev, key)]\<rparr>"

definition add_dirty :: "server \<Rightarrow> nat \<Rightarrow> server" where
  "add_dirty sv n = sv\<lparr>sv_dirty := sv_dirty sv + int n\<rparr>"

text \<open>Changing the object of a key in place.\<close>

definition put_val :: "server \<Rightarrow> string \<Rightarrow> rval \<Rightarrow> server" where
  "put_val sv key v = sv\<lparr>sv_dict := fmupd key v (sv_dict sv)\<rparr>"


section \<open>Expiry and lookup\<close>

definition getExpire :: "server \<Rightarrow> string \<Rightarrow> int option" where
  "getExpire sv key =
     (case fmlookup (sv_expires sv) key of
        None \<Rightarrow> Some (- 1)
      | Some w \<Rightarrow> if fmlookup (sv_dict sv) key = None then None else Some w)"

definition removeExpire :: "server \<Rightarrow> string \<Rightarrow> (server \<times> bool) option" where
  "removeExpire sv key =
     (if fmlookup (sv_dict sv) key = None then None
      else Some (sv\<lparr>sv_expires := fmdrop key (sv_expires sv)\<rparr>, fmlookup (sv_expires sv) key \<noteq> None))"

definition setExpire :: "server \<Rightarrow> string \<Rightarrow> int \<Rightarrow> server option" where
  "setExpire sv key w =
     (if fmlookup (sv_dict sv) key = None then None
      else Some (sv\<lparr>sv_expires := fmupd key w (sv_expires sv)\<rparr>))"

definition propagateExpire :: "server \<Rightarrow> string \<Rightarrow> server" where
  "propagateExpire sv key = sv\<lparr>sv_feed := sv_feed sv @ [[''DEL'', key]]\<rparr>"

definition dbDelete :: "server \<Rightarrow> string \<Rightarrow> server \<times> bool" where
  "dbDelete sv key =
     (sv\<lparr>sv_expires := fmdrop key (sv_expires sv), sv_dict := fmdrop key (sv_dict sv)\<rparr>,
      fmlookup (sv_dict sv) key \<noteq> None)"

definition expireIfNeeded :: "server \<Rightarrow> string \<Rightarrow> (server \<times> bool) option" where
  "expireIfNeeded sv key =
     do {
       w \<leftarrow> getExpire sv key;
       (if w < 0 then Some (sv, False)
        else if sv_loading sv then Some (sv, False)
        else
          let now = (case sv_lua sv of Some t \<Rightarrow> t | None \<Rightarrow> sv_mstime sv)
          in if sv_masterhost sv then Some (sv, now > w)
             else if now \<le> w then Some (sv, False)
             else
               let sv1 = notifyKeyspaceEvent
                           (propagateExpire (sv\<lparr>sv_expiredkeys := Suc (sv_expiredkeys sv)\<rparr>) key) NOTIFY_EXPIRED ''expired'' key
               in Some (dbDelete sv1 key))
     }"

definition lookupKey :: "server \<Rightarrow> string \<Rightarrow> rval option" where
  "lookupKey sv key = fmlookup (sv_dict sv) key"

definition lookupKeyRead :: "server \<Rightarrow> string \<Rightarrow> (server \<times> rval option) option" where
  "lookupKeyRead sv key =
     do {
       (sv1, expired) \<leftarrow> expireIfNeeded sv key;
       (if expired \<and> (\<not> sv_masterhost sv1 \<or> sv_readonly sv1) then Some (sv1, None)
        else case lookupKey sv1 key of
            None \<Rightarrow> Some (sv1\<lparr>sv_misses := Suc (sv_misses sv1)\<rparr>, None)
          | Some v \<Rightarrow> Some (sv1\<lparr>sv_hits := Suc (sv_hits sv1)\<rparr>, Some v))
     }"

definition lookupKeyWrite :: "server \<Rightarrow> string \<Rightarrow> (server \<times> rval option) option" where
  "lookupKeyWrite sv key = do { (sv1, _) \<leftarrow> expireIfNeeded sv key; Some (sv1, lookupKey sv1 key) }"

definition dbAdd :: "server \<Rightarrow> string \<Rightarrow> rval \<Rightarrow> server option" where
  "dbAdd sv key v =
     (if fmlookup (sv_dict sv) key \<noteq> None then None
      else Some ((put_val sv key v)\<lparr>sv_ready := sv_ready sv @ (if rval_type v = OBJ_LIST then [key] else [])\<rparr>))"

definition dbOverwrite :: "server \<Rightarrow> string \<Rightarrow> rval \<Rightarrow> server option" where
  "dbOverwrite sv key v = (if fmlookup (sv_dict sv) key = None then None else Some (put_val sv key v))"

definition setKey :: "server \<Rightarrow> string \<Rightarrow> rval \<Rightarrow> server option" where
  "setKey sv key v =
     do {
       (sv1, o1) \<leftarrow> lookupKeyWrite sv key;
       sv2 \<leftarrow> (if o1 = None then dbAdd sv1 key v else dbOverwrite sv1 key v);
       (sv3, _) \<leftarrow> removeExpire sv2 key;
       Some (signalModifiedKey sv3 key)
     }"

definition dbExists :: "server \<Rightarrow> string \<Rightarrow> bool" where
  "dbExists sv key \<longleftrightarrow> fmlookup (sv_dict sv) key \<noteq> None"

text \<open>\<open>(o = lookupKey...OrReply(c,key,reply)) == NULL || checkType(c,o,type)\<close>: the reply of a command that stops
  there, or the object.\<close>

definition checkType :: "rval \<Rightarrow> obj_type \<Rightarrow> bool" where
  "checkType v t \<longleftrightarrow> rval_type v \<noteq> t"

definition typed_or_reply :: "server \<times> rval option \<Rightarrow> reply \<Rightarrow> obj_type \<Rightarrow> server \<times> (reply + rval)" where
  "typed_or_reply r reply t =
     (fst r, case snd r of None \<Rightarrow> Inl reply | Some v \<Rightarrow> if checkType v t then Inl wrongtypeerr else Inr v)"

definition lookupKeyReadOrReply :: "server \<Rightarrow> string \<Rightarrow> reply \<Rightarrow> obj_type \<Rightarrow> (server \<times> (reply + rval)) option" where
  "lookupKeyReadOrReply sv key reply t = map_option (\<lambda>r. typed_or_reply r reply t) (lookupKeyRead sv key)"

definition lookupKeyWriteOrReply :: "server \<Rightarrow> string \<Rightarrow> reply \<Rightarrow> obj_type \<Rightarrow> (server \<times> (reply + rval)) option" where
  "lookupKeyWriteOrReply sv key reply t = map_option (\<lambda>r. typed_or_reply r reply t) (lookupKeyWrite sv key)"

text \<open>An argument read as a number; the error text of \<open>addReplyError\<close> gets its prefix.\<close>

definition arg_obj :: "string \<Rightarrow> unit robj" where
  "arg_obj s = \<lparr>o_type = OBJ_STRING, o_encoding = OBJ_ENCODING_RAW, o_lru = 0, o_refcount = 1, o_ptr = PSds s 0\<rparr>"

definition long_arg :: "string \<Rightarrow> (reply + int) option" where
  "long_arg s =
     do {
       r \<leftarrow> getLongFromObjectOrReply (Some (arg_obj s)) None;
       Some (case r of Inl e \<Rightarrow> Inl (RErr (''ERR '' @ e)) | Inr v \<Rightarrow> Inr v)
     }"

definition long_long_arg :: "string \<Rightarrow> (reply + int) option" where
  "long_long_arg s =
     do {
       r \<leftarrow> getLongLongFromObjectOrReply (Some (arg_obj s)) None;
       Some (case r of Inl e \<Rightarrow> Inl (RErr (''ERR '' @ e)) | Inr v \<Rightarrow> Inr v)
     }"

section \<open>Commands on keys\<close>

text \<open>The clock \<open>mstime()\<close> has one value during a command.\<close>

fun del_loop :: "server \<Rightarrow> string list \<Rightarrow> (server \<times> nat) option" where
  "del_loop sv [] = Some (sv, 0)"
| "del_loop sv (key # keys) =
     do {
       (sv1, _) \<leftarrow> expireIfNeeded sv key;
       (case dbDelete sv1 key of (sv2, existed) \<Rightarrow>
          if existed then do {
            (sv3, n) \<leftarrow> del_loop (add_dirty (notifyKeyspaceEvent (signalModifiedKey sv2 key) NOTIFY_GENERIC ''del'' key) 1) keys;
            Some (sv3, Suc n)
          }
          else del_loop sv2 keys)
     }"

definition delCommand :: "server \<Rightarrow> string list \<Rightarrow> outcome" where
  "delCommand sv keys = do { (sv1, n) \<leftarrow> del_loop sv keys; Some (sv1, RInt (int n)) }"

fun exists_loop :: "server \<Rightarrow> string list \<Rightarrow> (server \<times> nat) option" where
  "exists_loop sv [] = Some (sv, 0)"
| "exists_loop sv (key # keys) =
     do {
       (sv1, _) \<leftarrow> expireIfNeeded sv key;
       (sv2, n) \<leftarrow> exists_loop sv1 keys;
       Some (sv2, if dbExists sv1 key then Suc n else n)
     }"

definition existsCommand :: "server \<Rightarrow> string list \<Rightarrow> outcome" where
  "existsCommand sv keys = do { (sv1, n) \<leftarrow> exists_loop sv keys; Some (sv1, RInt (int n)) }"

fun touch_loop :: "server \<Rightarrow> string list \<Rightarrow> (server \<times> nat) option" where
  "touch_loop sv [] = Some (sv, 0)"
| "touch_loop sv (key # keys) =
     do {
       (sv1, o1) \<leftarrow> lookupKeyRead sv key;
       (sv2, n) \<leftarrow> touch_loop sv1 keys;
       Some (sv2, if o1 \<noteq> None then Suc n else n)
     }"

definition touchCommand :: "server \<Rightarrow> string list \<Rightarrow> outcome" where
  "touchCommand sv keys = do { (sv1, n) \<leftarrow> touch_loop sv keys; Some (sv1, RInt (int n)) }"

definition flushdbCommand :: "server \<Rightarrow> outcome" where
  "flushdbCommand sv =
     (let sv1 = signalFlushedDb (add_dirty sv (fcard (fmdom (sv_dict sv))))
      in Some (sv1\<lparr>sv_dict := fmempty, sv_expires := fmempty\<rparr>, sharedok))"

definition dbsizeCommand :: "server \<Rightarrow> outcome" where
  "dbsizeCommand sv = Some (sv, RInt (int (fcard (fmdom (sv_dict sv)))))"

definition typeCommand :: "server \<Rightarrow> string \<Rightarrow> outcome" where
  "typeCommand sv key =
     do {
       (sv1, o1) \<leftarrow> lookupKeyRead sv key;
       Some (sv1, RStatus (case o1 of
          None \<Rightarrow> ''none''
        | Some v \<Rightarrow> (case rval_type v of
             OBJ_STRING \<Rightarrow> ''string'' | OBJ_LIST \<Rightarrow> ''list'' | OBJ_SET \<Rightarrow> ''set'' | OBJ_ZSET \<Rightarrow> ''zset'' | OBJ_HASH \<Rightarrow> ''hash'')))
     }"

definition renameGenericCommand :: "server \<Rightarrow> string \<Rightarrow> string \<Rightarrow> bool \<Rightarrow> outcome" where
  "renameGenericCommand sv src dst nx =
     do {
       (sv1, o1) \<leftarrow> lookupKeyWrite sv src;
       (case o1 of
          None \<Rightarrow> Some (sv1, nokeyerr)
        | Some v \<Rightarrow>
            if src = dst then Some (sv1, if nx then RInt 0 else sharedok)
            else do {
              expire \<leftarrow> getExpire sv1 src;
              (sv2, o2) \<leftarrow> lookupKeyWrite sv1 dst;
              (if o2 \<noteq> None \<and> nx then Some (sv2, RInt 0)
               else do {
                 sv3 \<leftarrow> dbAdd (if o2 \<noteq> None then fst (dbDelete sv2 dst) else sv2) dst v;
                 sv4 \<leftarrow> (if expire \<noteq> - 1 then setExpire sv3 dst expire else Some sv3);
                 Some (add_dirty
                    (notifyKeyspaceEvent
                      (notifyKeyspaceEvent
                        (signalModifiedKey (signalModifiedKey (fst (dbDelete sv4 src)) src) dst) NOTIFY_GENERIC ''rename_from'' src)
                      NOTIFY_GENERIC ''rename_to'' dst) 1,
                   if nx then RInt 1 else sharedok)
               })
            })
     }"

text \<open>\<open>when *= 1000\<close> and \<open>when += basetime\<close> are signed: \<open>None\<close> when they overflow. \<open>now\<close> says that the time is
  relative, \<open>secs\<close> that it is in seconds.\<close>

definition expireGenericCommand :: "server \<Rightarrow> string \<Rightarrow> string \<Rightarrow> bool \<Rightarrow> bool \<Rightarrow> outcome" where
  "expireGenericCommand sv key param now secs =
     do {
       r \<leftarrow> long_long_arg param;
       (case r of
          Inl e \<Rightarrow> Some (sv, e)
        | Inr t \<Rightarrow>
            let t1 = (if secs then t * 1000 else t); w = t1 + (if now then sv_mstime sv else 0)
            in if \<not> int64 t1 \<or> \<not> int64 w then None
               else do {
                 (sv1, o1) \<leftarrow> lookupKeyWrite sv key;
                 (if o1 = None then Some (sv1, RInt 0)
                  else if w \<le> sv_mstime sv1 \<and> \<not> sv_loading sv1 \<and> \<not> sv_masterhost sv1
                  then
                    (case dbDelete sv1 key of (sv2, existed) \<Rightarrow>
                       if \<not> existed then None
                       else Some (notifyKeyspaceEvent (signalModifiedKey (add_dirty sv2 1) key) NOTIFY_GENERIC ''del'' key, RInt 1))
                  else do {
                    sv2 \<leftarrow> setExpire sv1 key w;
                    Some (add_dirty (notifyKeyspaceEvent (signalModifiedKey sv2 key) NOTIFY_GENERIC ''expire'' key) 1, RInt 1)
                  })
               })
     }"

definition ttlGenericCommand :: "server \<Rightarrow> string \<Rightarrow> bool \<Rightarrow> outcome" where
  "ttlGenericCommand sv key output_ms =
     do {
       (sv1, o1) \<leftarrow> lookupKeyRead sv key;
       (if o1 = None then Some (sv1, RInt (- 2))
        else do {
          expire \<leftarrow> getExpire sv1 key;
          (let ttl = (if expire \<noteq> - 1 then max 0 (expire - sv_mstime sv1) else - 1)
           in if expire \<noteq> - 1 \<and> \<not> int64 (expire - sv_mstime sv1) \<or> \<not> output_ms \<and> \<not> int64 (ttl + 500) then None
              else Some (sv1, RInt (if ttl = - 1 then - 1 else if output_ms then ttl else (ttl + 500) div 1000)))
        })
     }"

definition persistCommand :: "server \<Rightarrow> string \<Rightarrow> outcome" where
  "persistCommand sv key =
     (if fmlookup (sv_dict sv) key = None then Some (sv, RInt 0)
      else do {
        (sv1, had) \<leftarrow> removeExpire sv key;
        Some (if had then (add_dirty sv1 1, RInt 1) else (sv1, RInt 0))
      })"

end
