(* ===== verification/Commands.thy ===== *)
theory Commands
  imports Keyspace
begin

text \<open>
  The list commands of \<open>t_list.c\<close> (without the blocking ones), the element commands of \<open>t_set.c\<close> and the part
  of the command table of \<open>server.c\<close> for them. A quicklist is the list of the texts of its elements: \<open>ql_index\<close>,
  \<open>ql_replace\<close> and \<open>ql_del_range\<close> say what the functions of \<open>quicklist.c\<close> do to that list. \<open>tryObjectEncoding\<close> and
  \<open>getDecodedObject\<close> keep the text of an argument (theory \<open>Object\<close>) and do not appear.
  Lists have fewer than \<open>2 ^ 63\<close> elements. \<open>(-idx) - 1\<close> in \<open>quicklistIndex\<close> overflows for the least 64 bit number,
  which \<open>LINDEX\<close> and \<open>LSET\<close> pass on, as does \<open>-toremove\<close> in \<open>LREM\<close>; these are \<open>None\<close>.
\<close>

section \<open>Lists\<close>

definition ql_index :: "'a list \<Rightarrow> int \<Rightarrow> nat option" where
  "ql_index xs idx =
     (if idx \<ge> 0 then if nat idx < length xs then Some (nat idx) else None
      else if nat (- idx - 1) < length xs then Some (length xs - 1 - nat (- idx - 1)) else None)"

definition ql_replace :: "'a list \<Rightarrow> int \<Rightarrow> 'a \<Rightarrow> 'a list \<times> bool" where
  "ql_replace xs idx v = (case ql_index xs idx of None \<Rightarrow> (xs, False) | Some i \<Rightarrow> (xs[i := v], True))"

definition ql_del_range :: "'a list \<Rightarrow> int \<Rightarrow> int \<Rightarrow> 'a list" where
  "ql_del_range xs start cnt =
     (if cnt \<le> 0 then xs
      else case ql_index xs start of None \<Rightarrow> xs | Some i \<Rightarrow> take i xs @ drop (i + nat cnt) xs)"

definition listTypePush :: "string list \<Rightarrow> string \<Rightarrow> bool \<Rightarrow> string list" where
  "listTypePush xs v head = (if head then v # xs else xs @ [v])"

definition listTypePop :: "string list \<Rightarrow> bool \<Rightarrow> (string \<times> string list) option" where
  "listTypePop xs head =
     (if xs = [] then None else Some (if head then (hd xs, tl xs) else (last xs, butlast xs)))"

fun push_loop :: "server \<Rightarrow> string \<Rightarrow> bool \<Rightarrow> string list option \<Rightarrow> string list \<Rightarrow> (server \<times> string list option) option" where
  "push_loop sv key head lobj [] = Some (sv, lobj)"
| "push_loop sv key head lobj (v # vs) =
     do {
       (sv1, xs) \<leftarrow> (case lobj of
            Some xs \<Rightarrow> Some (sv, xs)
          | None \<Rightarrow> do { sv1 \<leftarrow> dbAdd sv key (VList []); Some (sv1, []) });
       (let ys = listTypePush xs v head
        in push_loop (put_val sv1 key (VList ys)) key head (Some ys) vs)
     }"

definition push_event :: "bool \<Rightarrow> string" where
  "push_event head = (if head then ''lpush'' else ''rpush'')"

definition pushGenericCommand :: "server \<Rightarrow> string \<Rightarrow> string list \<Rightarrow> bool \<Rightarrow> outcome" where
  "pushGenericCommand sv key vs head =
     do {
       (sv1, o1) \<leftarrow> lookupKeyWrite sv key;
       (case (case o1 of None \<Rightarrow> Some None | Some (VList xs) \<Rightarrow> Some (Some xs) | Some _ \<Rightarrow> None) of
          None \<Rightarrow> Some (sv1, wrongtypeerr)
        | Some lobj \<Rightarrow>
            do {
              (sv2, lobj2) \<leftarrow> push_loop sv1 key head lobj vs;
              (let r = RInt (case lobj2 of None \<Rightarrow> 0 | Some xs \<Rightarrow> int (length xs));
                   sv3 = (if vs \<noteq> [] then notifyKeyspaceEvent (signalModifiedKey sv2 key) NOTIFY_LIST (push_event head) key else sv2)
               in Some (add_dirty sv3 (length vs), r))
            })
     }"

text \<open>The search of \<open>pushxGenericCommand\<close> from head to tail; \<open>None\<close> when no element equals \<open>refval\<close>.\<close>

fun linsert_loop :: "string \<Rightarrow> string \<Rightarrow> bool \<Rightarrow> string list \<Rightarrow> string list option" where
  "linsert_loop refval v head [] = None"
| "linsert_loop refval v head (x # xs) =
     (if x = refval then Some (if head then v # x # xs else x # v # xs)
      else map_option ((#) x) (linsert_loop refval v head xs))"

definition pushxGenericCommand :: "server \<Rightarrow> string \<Rightarrow> string option \<Rightarrow> string \<Rightarrow> bool \<Rightarrow> outcome" where
  "pushxGenericCommand sv key refval v head =
     do {
       (sv1, r) \<leftarrow> lookupKeyWriteOrReply sv key (RInt 0) OBJ_LIST;
       (case r of
          Inl e \<Rightarrow> Some (sv1, e)
        | Inr (VList xs) \<Rightarrow>
            (case refval of
               Some rv \<Rightarrow>
                 (case linsert_loop rv v head xs of
                    Some ys \<Rightarrow>
                      Some (add_dirty (notifyKeyspaceEvent (signalModifiedKey (put_val sv1 key (VList ys)) key)
                              NOTIFY_LIST ''linsert'' key) 1, RInt (int (length ys)))
                  | None \<Rightarrow> Some (sv1, RInt (- 1)))
             | None \<Rightarrow>
                 (let ys = listTypePush xs v head
                  in Some (add_dirty (notifyKeyspaceEvent (signalModifiedKey (put_val sv1 key (VList ys)) key)
                             NOTIFY_LIST (push_event head) key) 1, RInt (int (length ys)))))
        | Inr _ \<Rightarrow> None)
     }"

definition linsertCommand :: "server \<Rightarrow> string \<Rightarrow> string \<Rightarrow> string \<Rightarrow> string \<Rightarrow> outcome" where
  "linsertCommand sv key place refval v =
     (let p = takeWhile (\<lambda>ch. ch \<noteq> NUL) place
      in if strcasecmp_eq p ''after'' then pushxGenericCommand sv key (Some refval) v False
         else if strcasecmp_eq p ''before'' then pushxGenericCommand sv key (Some refval) v True
         else Some (sv, syntaxerr))"

definition llenCommand :: "server \<Rightarrow> string \<Rightarrow> outcome" where
  "llenCommand sv key =
     do {
       (sv1, r) \<leftarrow> lookupKeyReadOrReply sv key (RInt 0) OBJ_LIST;
       (case r of
          Inl e \<Rightarrow> Some (sv1, e)
        | Inr (VList xs) \<Rightarrow> Some (sv1, RInt (int (length xs)))
        | Inr _ \<Rightarrow> None)
     }"

definition lindexCommand :: "server \<Rightarrow> string \<Rightarrow> string \<Rightarrow> outcome" where
  "lindexCommand sv key index =
     do {
       (sv1, r) \<leftarrow> lookupKeyReadOrReply sv key RNil OBJ_LIST;
       (case r of
          Inl e \<Rightarrow> Some (sv1, e)
        | Inr (VList xs) \<Rightarrow>
            do {
              n \<leftarrow> long_arg index;
              (case n of
                 Inl e \<Rightarrow> Some (sv1, e)
               | Inr i \<Rightarrow>
                   if i = - (2 ^ 63) then None
                   else Some (sv1, case ql_index xs i of Some j \<Rightarrow> RBulk (xs ! j) | None \<Rightarrow> RNil))
            }
        | Inr _ \<Rightarrow> None)
     }"

definition lsetCommand :: "server \<Rightarrow> string \<Rightarrow> string \<Rightarrow> string \<Rightarrow> outcome" where
  "lsetCommand sv key index v =
     do {
       (sv1, r) \<leftarrow> lookupKeyWriteOrReply sv key nokeyerr OBJ_LIST;
       (case r of
          Inl e \<Rightarrow> Some (sv1, e)
        | Inr (VList xs) \<Rightarrow>
            do {
              n \<leftarrow> long_arg index;
              (case n of
                 Inl e \<Rightarrow> Some (sv1, e)
               | Inr i \<Rightarrow>
                   if i = - (2 ^ 63) then None
                   else
                     (case ql_replace xs i v of (ys, replaced) \<Rightarrow>
                        if \<not> replaced then Some (sv1, outofrangeerr)
                        else Some (add_dirty (notifyKeyspaceEvent (signalModifiedKey (put_val sv1 key (VList ys)) key)
                                     NOTIFY_LIST ''lset'' key) 1, sharedok)))
            }
        | Inr _ \<Rightarrow> None)
     }"

definition popGenericCommand :: "server \<Rightarrow> string \<Rightarrow> bool \<Rightarrow> outcome" where
  "popGenericCommand sv key head =
     do {
       (sv1, r) \<leftarrow> lookupKeyWriteOrReply sv key RNil OBJ_LIST;
       (case r of
          Inl e \<Rightarrow> Some (sv1, e)
        | Inr (VList xs) \<Rightarrow>
            (case listTypePop xs head of
               None \<Rightarrow> Some (sv1, RNil)
             | Some (v, ys) \<Rightarrow>
                 (let sv2 = notifyKeyspaceEvent (put_val sv1 key (VList ys)) NOTIFY_LIST (if head then ''lpop'' else ''rpop'') key;
                      sv3 = (if ys = [] then fst (dbDelete (notifyKeyspaceEvent sv2 NOTIFY_GENERIC ''del'' key) key) else sv2)
                  in Some (add_dirty (signalModifiedKey sv3 key) 1, RBulk v)))
        | Inr _ \<Rightarrow> None)
     }"

text \<open>The start and end of a range after the conversion of negative numbers, and \<open>None\<close> for an empty range.\<close>

definition range_bounds :: "nat \<Rightarrow> int \<Rightarrow> int \<Rightarrow> (int \<times> int) option" where
  "range_bounds llen start stop =
     (let n = int llen;
          s1 = (if start < 0 then n + start else start);
          e1 = (if stop < 0 then n + stop else stop);
          s2 = (if s1 < 0 then 0 else s1)
      in if s2 > e1 \<or> s2 \<ge> n then None else Some (s2, if e1 \<ge> n then n - 1 else e1))"

definition lrangeCommand :: "server \<Rightarrow> string \<Rightarrow> string \<Rightarrow> string \<Rightarrow> outcome" where
  "lrangeCommand sv key start stop =
     do {
       n1 \<leftarrow> long_arg start;
       (case n1 of
          Inl e \<Rightarrow> Some (sv, e)
        | Inr a \<Rightarrow>
            do {
              n2 \<leftarrow> long_arg stop;
              (case n2 of
                 Inl e \<Rightarrow> Some (sv, e)
               | Inr b \<Rightarrow>
                   do {
                     (sv1, r) \<leftarrow> lookupKeyReadOrReply sv key (RMulti []) OBJ_LIST;
                     (case r of
                        Inl e \<Rightarrow> Some (sv1, e)
                      | Inr (VList xs) \<Rightarrow>
                          (case range_bounds (length xs) a b of
                             None \<Rightarrow> Some (sv1, RMulti [])
                           | Some (s, e) \<Rightarrow> Some (sv1, RMulti (map RBulk (take (nat (e - s + 1)) (drop (nat s) xs)))))
                      | Inr _ \<Rightarrow> None)
                   })
            })
     }"

definition ltrimCommand :: "server \<Rightarrow> string \<Rightarrow> string \<Rightarrow> string \<Rightarrow> outcome" where
  "ltrimCommand sv key start stop =
     do {
       n1 \<leftarrow> long_arg start;
       (case n1 of
          Inl e \<Rightarrow> Some (sv, e)
        | Inr a \<Rightarrow>
            do {
              n2 \<leftarrow> long_arg stop;
              (case n2 of
                 Inl e \<Rightarrow> Some (sv, e)
               | Inr b \<Rightarrow>
                   do {
                     (sv1, r) \<leftarrow> lookupKeyWriteOrReply sv key sharedok OBJ_LIST;
                     (case r of
                        Inl e \<Rightarrow> Some (sv1, e)
                      | Inr (VList xs) \<Rightarrow>
                          (case (case range_bounds (length xs) a b of
                                   None \<Rightarrow> (int (length xs), 0)
                                 | Some (s, e) \<Rightarrow> (s, int (length xs) - e - 1)) of
                             (ltrim, rtrim) \<Rightarrow>
                               let ys = ql_del_range (ql_del_range xs 0 ltrim) (- rtrim) rtrim;
                                   sv2 = notifyKeyspaceEvent (put_val sv1 key (VList ys)) NOTIFY_LIST ''ltrim'' key;
                                   sv3 = (if ys = [] then notifyKeyspaceEvent (fst (dbDelete sv2 key)) NOTIFY_GENERIC ''del'' key else sv2)
                               in Some (add_dirty (signalModifiedKey sv3 key) 1, sharedok))
                      | Inr _ \<Rightarrow> None)
                   })
            })
     }"

text \<open>The loop of \<open>lremCommand\<close> in the direction of its iterator: the elements that stay and \<open>removed\<close>.\<close>

fun lrem_loop :: "nat \<Rightarrow> nat \<Rightarrow> string \<Rightarrow> string list \<Rightarrow> string list \<times> nat" where
  "lrem_loop toremove removed v [] = ([], removed)"
| "lrem_loop toremove removed v (x # xs) =
     (if x = v then
        if toremove \<noteq> 0 \<and> Suc removed = toremove then (xs, Suc removed)
        else lrem_loop toremove (Suc removed) v xs
      else (case lrem_loop toremove removed v xs of (ys, n) \<Rightarrow> (x # ys, n)))"

definition lremCommand :: "server \<Rightarrow> string \<Rightarrow> string \<Rightarrow> string \<Rightarrow> outcome" where
  "lremCommand sv key cnt v =
     do {
       n1 \<leftarrow> long_arg cnt;
       (case n1 of
          Inl e \<Rightarrow> Some (sv, e)
        | Inr toremove \<Rightarrow>
            do {
              (sv1, r) \<leftarrow> lookupKeyWriteOrReply sv key (RInt 0) OBJ_LIST;
              (case r of
                 Inl e \<Rightarrow> Some (sv1, e)
               | Inr (VList xs) \<Rightarrow>
                   if toremove = - (2 ^ 63) then None
                   else
                     (case (if toremove < 0 then apfst rev (lrem_loop (nat (- toremove)) 0 v (rev xs))
                            else lrem_loop (nat toremove) 0 v xs) of
                        (ys, removed) \<Rightarrow>
                          (let sv2 = add_dirty (put_val sv1 key (VList ys)) removed;
                               sv3 = (if removed > 0 then notifyKeyspaceEvent (signalModifiedKey sv2 key) NOTIFY_GENERIC ''lrem'' key else sv2);
                               sv4 = (if ys = [] then notifyKeyspaceEvent (fst (dbDelete sv3 key)) NOTIFY_GENERIC ''del'' key else sv3)
                           in Some (sv4, RInt (int removed))))
               | Inr _ \<Rightarrow> None)
            })
     }"

definition list_at :: "server \<Rightarrow> string \<Rightarrow> string list option" where
  "list_at sv key = (case fmlookup (sv_dict sv) key of Some (VList xs) \<Rightarrow> Some xs | _ \<Rightarrow> None)"

definition rpoplpushHandlePush :: "server \<Rightarrow> string \<Rightarrow> bool \<Rightarrow> string \<Rightarrow> (server \<times> reply) option" where
  "rpoplpushHandlePush sv dstkey dst_exists v =
     do {
       sv1 \<leftarrow> (if dst_exists then Some sv else dbAdd sv dstkey (VList []));
       ys \<leftarrow> list_at sv1 dstkey;
       Some (notifyKeyspaceEvent (put_val (signalModifiedKey sv1 dstkey) dstkey (VList (listTypePush ys v True)))
               NOTIFY_LIST ''lpush'' dstkey, RBulk v)
     }"

text \<open>The two keys may be the same: the lists are read from the keyspace again, as the objects are shared.\<close>

definition rpoplpush_move :: "server \<Rightarrow> string \<Rightarrow> string \<Rightarrow> string list \<Rightarrow> bool \<Rightarrow> outcome" where
  "rpoplpush_move sv src dst xs dst_exists =
     do {
       (v, xs1) \<leftarrow> listTypePop xs False;
       (sv1, rep) \<leftarrow> rpoplpushHandlePush (put_val sv src (VList xs1)) dst dst_exists v;
       left \<leftarrow> list_at sv1 src;
       (let sv2 = notifyKeyspaceEvent sv1 NOTIFY_LIST ''rpop'' src;
            sv3 = (if left = [] then notifyKeyspaceEvent (fst (dbDelete sv2 src)) NOTIFY_GENERIC ''del'' src else sv2)
        in Some (add_dirty (signalModifiedKey sv3 src) 1, rep))
     }"

definition rpoplpushCommand :: "server \<Rightarrow> string \<Rightarrow> string \<Rightarrow> outcome" where
  "rpoplpushCommand sv src dst =
     do {
       (sv1, r) \<leftarrow> lookupKeyWriteOrReply sv src RNil OBJ_LIST;
       (case r of
          Inl e \<Rightarrow> Some (sv1, e)
        | Inr (VList xs) \<Rightarrow>
            if xs = [] then Some (sv1, RNil)
            else do {
              (sv2, o2) \<leftarrow> lookupKeyWrite sv1 dst;
              (if (case o2 of None \<Rightarrow> False | Some d \<Rightarrow> checkType d OBJ_LIST) then Some (sv2, wrongtypeerr)
               else rpoplpush_move sv2 src dst xs (o2 \<noteq> None))
            }
        | Inr _ \<Rightarrow> None)
     }"


section \<open>Sets\<close>

definition sadd_members :: "server \<Rightarrow> string \<Rightarrow> rset \<Rightarrow> string list \<Rightarrow> outcome" where
  "sadd_members sv key rs vs =
     do {
       (rs1, added) \<leftarrow> add_all (setTypeAdd (sv_env sv)) rs vs;
       (let sv1 = put_val sv key (VSet rs1);
            sv2 = (if added > 0 then notifyKeyspaceEvent (signalModifiedKey sv1 key) NOTIFY_SET ''sadd'' key else sv1)
        in Some (add_dirty sv2 added, RInt (int added)))
     }"

definition saddCommand :: "server \<Rightarrow> string \<Rightarrow> string list \<Rightarrow> outcome" where
  "saddCommand sv key vs =
     do {
       (sv1, o1) \<leftarrow> lookupKeyWrite sv key;
       (case o1 of
          None \<Rightarrow>
            (case vs of
               [] \<Rightarrow> None
             | v # _ \<Rightarrow> do { sv2 \<leftarrow> dbAdd sv1 key (VSet (setTypeCreate v)); sadd_members sv2 key (setTypeCreate v) vs })
        | Some (VSet rs) \<Rightarrow> sadd_members sv1 key rs vs
        | Some _ \<Rightarrow> Some (sv1, wrongtypeerr))
     }"

definition sremCommand :: "server \<Rightarrow> string \<Rightarrow> string list \<Rightarrow> outcome" where
  "sremCommand sv key vs =
     do {
       (sv1, r) \<leftarrow> lookupKeyWriteOrReply sv key (RInt 0) OBJ_SET;
       (case r of
          Inl e \<Rightarrow> Some (sv1, e)
        | Inr (VSet rs) \<Rightarrow>
            do {
              (rs1, deleted, keyremoved) \<leftarrow> remove_all (setTypeRemove (sv_env sv1)) setTypeSize rs vs;
              (let sv2 = put_val sv1 key (VSet rs1);
                   sv3 = (if keyremoved then fst (dbDelete sv2 key) else sv2);
                   sv4 = (if deleted > 0 then
                            let sv5 = notifyKeyspaceEvent (signalModifiedKey sv3 key) NOTIFY_SET ''srem'' key;
                                sv6 = (if keyremoved then notifyKeyspaceEvent sv5 NOTIFY_GENERIC ''del'' key else sv5)
                            in add_dirty sv6 deleted
                          else sv3)
               in Some (sv4, RInt (int deleted)))
            }
        | Inr _ \<Rightarrow> None)
     }"

text \<open>The part of \<open>smoveCommand\<close> after \<open>ele\<close> has left the source set, \<open>dstset\<close> the destination found.\<close>

definition smove_add :: "server \<Rightarrow> string \<Rightarrow> string \<Rightarrow> rset option \<Rightarrow> string \<Rightarrow> outcome" where
  "smove_add sv src dst dstset ele =
     do {
       (sv1, rs) \<leftarrow> (case dstset of
            Some rs \<Rightarrow> Some (sv, rs)
          | None \<Rightarrow> do { sv1 \<leftarrow> dbAdd sv dst (VSet (setTypeCreate ele)); Some (sv1, setTypeCreate ele) });
       (rs1, added) \<leftarrow> setTypeAdd (sv_env sv1) rs ele;
       (let sv2 = put_val (add_dirty (signalModifiedKey (signalModifiedKey sv1 src) dst) 1) dst (VSet rs1)
        in Some (if added then notifyKeyspaceEvent (add_dirty sv2 1) NOTIFY_SET ''sadd'' dst else sv2, RInt 1))
     }"

definition smoveCommand :: "server \<Rightarrow> string \<Rightarrow> string \<Rightarrow> string \<Rightarrow> outcome" where
  "smoveCommand sv src dst ele =
     do {
       (sv1, o1) \<leftarrow> lookupKeyWrite sv src;
       (sv2, o2) \<leftarrow> lookupKeyWrite sv1 dst;
       (case o1 of
          None \<Rightarrow> Some (sv2, RInt 0)
        | Some s \<Rightarrow>
            if checkType s OBJ_SET \<or> (case o2 of None \<Rightarrow> False | Some d \<Rightarrow> checkType d OBJ_SET)
            then Some (sv2, wrongtypeerr)
            else (case s of
                VSet rs \<Rightarrow>
                  if src = dst then do { m \<leftarrow> setTypeIsMember rs ele; Some (sv2, RInt (if m then 1 else 0)) }
                  else do {
                    (rs1, was) \<leftarrow> setTypeRemove (sv_env sv2) rs ele;
                    (if \<not> was then Some (put_val sv2 src (VSet rs1), RInt 0)
                     else
                       let sv3 = notifyKeyspaceEvent (put_val sv2 src (VSet rs1)) NOTIFY_SET ''srem'' src;
                           sv4 = (if setTypeSize rs1 = 0
                                  then notifyKeyspaceEvent (fst (dbDelete sv3 src)) NOTIFY_GENERIC ''del'' src else sv3)
                       in smove_add sv4 src dst (case o2 of Some (VSet d) \<Rightarrow> Some d | _ \<Rightarrow> None) ele)
                  }
              | _ \<Rightarrow> None))
     }"

definition sismemberCommand :: "server \<Rightarrow> string \<Rightarrow> string \<Rightarrow> outcome" where
  "sismemberCommand sv key v =
     do {
       (sv1, r) \<leftarrow> lookupKeyReadOrReply sv key (RInt 0) OBJ_SET;
       (case r of
          Inl e \<Rightarrow> Some (sv1, e)
        | Inr (VSet rs) \<Rightarrow> do { m \<leftarrow> setTypeIsMember rs v; Some (sv1, RInt (if m then 1 else 0)) }
        | Inr _ \<Rightarrow> None)
     }"

definition scardCommand :: "server \<Rightarrow> string \<Rightarrow> outcome" where
  "scardCommand sv key =
     do {
       (sv1, r) \<leftarrow> lookupKeyReadOrReply sv key (RInt 0) OBJ_SET;
       (case r of
          Inl e \<Rightarrow> Some (sv1, e)
        | Inr (VSet rs) \<Rightarrow> Some (sv1, RInt (int (setTypeSize rs)))
        | Inr _ \<Rightarrow> None)
     }"


section \<open>The command table\<close>

text \<open>A command with its arguments, one constructor for each modelled row of \<open>redisCommandTable\<close>:
  the client's \<open>cmd\<close>, \<open>argv\<close> and \<open>argc\<close>, of an arity the row admits. \<open>run_cmd\<close> is the call of the row's
  function; the flags of the rows are not modelled.\<close>

datatype cmd =
    Del "string list" | Exists "string list" | Touch "string list" | Flushdb | Dbsize | Type string
  | Rename string string | Renamenx string string
  | Expire string string | Expireat string string | Pexpire string string | Pexpireat string string
  | Ttl string | Pttl string | Persist string
  | Rpush string "string list" | Lpush string "string list" | Rpushx string string | Lpushx string string
  | Linsert string string string string | Rpop string | Lpop string | Llen string | Lindex string string
  | Lset string string string | Lrange string string string | Ltrim string string string | Lrem string string string
  | Rpoplpush string string
  | Sadd string "string list" | Srem string "string list" | Smove string string string | Sismember string string | Scard string

fun run_cmd :: "server \<Rightarrow> cmd \<Rightarrow> outcome" where
  "run_cmd sv (Del ks) = delCommand sv ks"
| "run_cmd sv (Exists ks) = existsCommand sv ks"
| "run_cmd sv (Touch ks) = touchCommand sv ks"
| "run_cmd sv Flushdb = flushdbCommand sv"
| "run_cmd sv Dbsize = dbsizeCommand sv"
| "run_cmd sv (Type k) = typeCommand sv k"
| "run_cmd sv (Rename k d) = renameGenericCommand sv k d False"
| "run_cmd sv (Renamenx k d) = renameGenericCommand sv k d True"
| "run_cmd sv (Expire k t) = expireGenericCommand sv k t True True"
| "run_cmd sv (Expireat k t) = expireGenericCommand sv k t False True"
| "run_cmd sv (Pexpire k t) = expireGenericCommand sv k t True False"
| "run_cmd sv (Pexpireat k t) = expireGenericCommand sv k t False False"
| "run_cmd sv (Ttl k) = ttlGenericCommand sv k False"
| "run_cmd sv (Pttl k) = ttlGenericCommand sv k True"
| "run_cmd sv (Persist k) = persistCommand sv k"
| "run_cmd sv (Rpush k vs) = pushGenericCommand sv k vs False"
| "run_cmd sv (Lpush k vs) = pushGenericCommand sv k vs True"
| "run_cmd sv (Rpushx k v) = pushxGenericCommand sv k None v False"
| "run_cmd sv (Lpushx k v) = pushxGenericCommand sv k None v True"
| "run_cmd sv (Linsert k p r v) = linsertCommand sv k p r v"
| "run_cmd sv (Rpop k) = popGenericCommand sv k False"
| "run_cmd sv (Lpop k) = popGenericCommand sv k True"
| "run_cmd sv (Llen k) = llenCommand sv k"
| "run_cmd sv (Lindex k i) = lindexCommand sv k i"
| "run_cmd sv (Lset k i v) = lsetCommand sv k i v"
| "run_cmd sv (Lrange k a b) = lrangeCommand sv k a b"
| "run_cmd sv (Ltrim k a b) = ltrimCommand sv k a b"
| "run_cmd sv (Lrem k n v) = lremCommand sv k n v"
| "run_cmd sv (Rpoplpush k d) = rpoplpushCommand sv k d"
| "run_cmd sv (Sadd k vs) = saddCommand sv k vs"
| "run_cmd sv (Srem k vs) = sremCommand sv k vs"
| "run_cmd sv (Smove k d v) = smoveCommand sv k d v"
| "run_cmd sv (Sismember k v) = sismemberCommand sv k v"
| "run_cmd sv (Scard k) = scardCommand sv k"

end
