(* ===== verification/CommandsSpec.thy ===== *)
theory CommandsSpec
  imports Commands
begin

text \<open>
  What the commands promise, and that the code keeps it. A client of a master sees a map from keys to values,
  each with the time at which it disappears; a list or a set is never empty. \<open>spec\<close> gives the effect and the
  reply of every command on this map, in terms of lists and sets; \<open>view\<close> reads the map off a server, where a key
  whose time has passed is still stored until somebody looks it up. \<open>serving\<close> is the invariant of the server.
\<close>

section \<open>The specification\<close>

datatype aval = AString string | AList "string list" | ASet "string set" | AOther obj_type

type_synonym view = "string \<Rightarrow> (aval \<times> int option) option"

fun aval_type :: "aval \<Rightarrow> obj_type" where
  "aval_type (AString _) = OBJ_STRING"
| "aval_type (AList _) = OBJ_LIST"
| "aval_type (ASet _) = OBJ_SET"
| "aval_type (AOther t) = t"

text \<open>A new value keeps the time of its key, and an empty one removes it.\<close>

definition store :: "view \<Rightarrow> string \<Rightarrow> aval \<Rightarrow> view" where
  "store m key a = m(key := if a = AList [] \<or> a = ASet {} then None else Some (a, case m key of Some (_, d) \<Rightarrow> d | None \<Rightarrow> None))"

definition on_list :: "view \<Rightarrow> string \<Rightarrow> reply \<Rightarrow> (string list \<Rightarrow> string list \<times> reply) \<Rightarrow> view \<times> reply" where
  "on_list m key none f =
     (case m key of
        None \<Rightarrow> (m, none)
      | Some (AList xs, _) \<Rightarrow> (store m key (AList (fst (f xs))), snd (f xs))
      | Some _ \<Rightarrow> (m, wrongtypeerr))"

definition on_new_list :: "view \<Rightarrow> string \<Rightarrow> (string list \<Rightarrow> string list \<times> reply) \<Rightarrow> view \<times> reply" where
  "on_new_list m key f =
     (case m key of None \<Rightarrow> (store m key (AList (fst (f []))), snd (f [])) | Some _ \<Rightarrow> on_list m key RNil f)"

definition on_set :: "view \<Rightarrow> string \<Rightarrow> reply \<Rightarrow> (string set \<Rightarrow> string set \<times> reply) \<Rightarrow> view \<times> reply" where
  "on_set m key none f =
     (case m key of
        None \<Rightarrow> (m, none)
      | Some (ASet s, _) \<Rightarrow> (store m key (ASet (fst (f s))), snd (f s))
      | Some _ \<Rightarrow> (m, wrongtypeerr))"

definition notinterr :: reply where
  "notinterr = RErr ''ERR value is not an integer or out of range''"

definition with_number :: "view \<Rightarrow> string \<Rightarrow> (int \<Rightarrow> view \<times> reply) \<Rightarrow> view \<times> reply" where
  "with_number m s f =
     (case string2ll s of None \<Rightarrow> (m, notinterr) | Some v \<Rightarrow> f v)"

text \<open>A position counted from the end when negative, and the elements of a range of positions.\<close>

definition pos_of :: "nat \<Rightarrow> int \<Rightarrow> int" where
  "pos_of n i = (if i < 0 then int n + i else i)"

definition slice :: "'a list \<Rightarrow> int \<Rightarrow> int \<Rightarrow> 'a list" where
  "slice xs a b = nths xs {i. pos_of (length xs) a \<le> int i \<and> int i \<le> pos_of (length xs) b}"

definition valid_pos :: "'a list \<Rightarrow> int \<Rightarrow> bool" where
  "valid_pos xs i \<longleftrightarrow> 0 \<le> pos_of (length xs) i \<and> pos_of (length xs) i < int (length xs)"

definition remove_some :: "int \<Rightarrow> 'a \<Rightarrow> 'a list \<Rightarrow> 'a list" where
  "remove_some n v xs =
     (if n = 0 then filter (\<lambda>x. x \<noteq> v) xs
      else if n > 0 then (remove1 v ^^ nat n) xs
      else rev ((remove1 v ^^ nat (- n)) (rev xs)))"

definition insert_by :: "bool \<Rightarrow> 'a \<Rightarrow> 'a \<Rightarrow> 'a list \<Rightarrow> 'a list" where
  "insert_by before r v xs =
     (let p = takeWhile (\<lambda>x. x \<noteq> r) xs; s = dropWhile (\<lambda>x. x \<noteq> r) xs
      in p @ (if before then v # s else hd s # v # tl s))"

definition spec_insert :: "view \<Rightarrow> string \<Rightarrow> bool \<Rightarrow> string \<Rightarrow> string \<Rightarrow> view \<times> reply" where
  "spec_insert m key before r v =
     on_list m key (RInt 0)
       (\<lambda>xs. if r \<in> set xs then (insert_by before r v xs, RInt (int (length xs) + 1)) else (xs, RInt (- 1)))"

definition spec_rename :: "view \<Rightarrow> string \<Rightarrow> string \<Rightarrow> bool \<Rightarrow> view \<times> reply" where
  "spec_rename m src dst nx =
     (case m src of
        None \<Rightarrow> (m, nokeyerr)
      | Some v \<Rightarrow>
          if src = dst \<or> nx \<and> m dst \<noteq> None then (m, if nx then RInt 0 else sharedok)
          else (m(src := None, dst := Some v), if nx then RInt 1 else sharedok))"

definition spec_expire :: "int \<Rightarrow> view \<Rightarrow> string \<Rightarrow> string \<Rightarrow> int \<Rightarrow> int \<Rightarrow> view \<times> reply" where
  "spec_expire now m key t base unit =
     with_number m t (\<lambda>n. case m key of
          None \<Rightarrow> (m, RInt 0)
        | Some (a, _) \<Rightarrow>
            let w = n * unit + base in (m(key := if w \<le> now then None else Some (a, Some w)), RInt 1))"

definition spec_ttl :: "int \<Rightarrow> view \<Rightarrow> string \<Rightarrow> (int \<Rightarrow> int) \<Rightarrow> view \<times> reply" where
  "spec_ttl now m key f =
     (m, RInt (case m key of None \<Rightarrow> - 2 | Some (_, None) \<Rightarrow> - 1 | Some (_, Some w) \<Rightarrow> f (w - now)))"

definition spec_rpoplpush :: "view \<Rightarrow> string \<Rightarrow> string \<Rightarrow> view \<times> reply" where
  "spec_rpoplpush m src dst =
     (case m src of
        None \<Rightarrow> (m, RNil)
      | Some (AList xs, _) \<Rightarrow>
          (if src = dst then (store m src (AList (last xs # butlast xs)), RBulk (last xs))
           else case m dst of
               None \<Rightarrow> (store (store m src (AList (butlast xs))) dst (AList [last xs]), RBulk (last xs))
             | Some (AList ys, _) \<Rightarrow> (store (store m src (AList (butlast xs))) dst (AList (last xs # ys)), RBulk (last xs))
             | Some _ \<Rightarrow> (m, wrongtypeerr))
      | Some _ \<Rightarrow> (m, wrongtypeerr))"

definition spec_smove :: "view \<Rightarrow> string \<Rightarrow> string \<Rightarrow> string \<Rightarrow> view \<times> reply" where
  "spec_smove m src dst v =
     (case m src of
        None \<Rightarrow> (m, RInt 0)
      | Some (ASet s, _) \<Rightarrow>
          (case (case m dst of None \<Rightarrow> Some {} | Some (ASet d, _) \<Rightarrow> Some d | Some _ \<Rightarrow> None) of
             None \<Rightarrow> (m, wrongtypeerr)
           | Some d \<Rightarrow>
               if v \<notin> s then (m, RInt 0)
               else if src = dst then (m, RInt 1)
               else (store (store m src (ASet (s - {v}))) dst (ASet (insert v d)), RInt 1))
      | Some _ \<Rightarrow> (m, wrongtypeerr))"

fun spec :: "int \<Rightarrow> view \<Rightarrow> cmd \<Rightarrow> view \<times> reply" where
  "spec now m (Del ks) = (\<lambda>k. if k \<in> set ks then None else m k, RInt (int (card {k \<in> set ks. m k \<noteq> None})))"
| "spec now m (Exists ks) = (m, RInt (int (length (filter (\<lambda>k. m k \<noteq> None) ks))))"
| "spec now m (Touch ks) = (m, RInt (int (length (filter (\<lambda>k. m k \<noteq> None) ks))))"
| "spec now m Flushdb = (\<lambda>_. None, sharedok)"
| "spec now m Dbsize = (m, RInt (int (card (dom m))))"
| "spec now m (Type k) = (m, RStatus (case m k of None \<Rightarrow> ''none'' | Some (a, _) \<Rightarrow> (case aval_type a of
       OBJ_STRING \<Rightarrow> ''string'' | OBJ_LIST \<Rightarrow> ''list'' | OBJ_SET \<Rightarrow> ''set'' | OBJ_ZSET \<Rightarrow> ''zset'' | OBJ_HASH \<Rightarrow> ''hash'')))"
| "spec now m (Rename k d) = spec_rename m k d False"
| "spec now m (Renamenx k d) = spec_rename m k d True"
| "spec now m (Expire k t) = spec_expire now m k t now 1000"
| "spec now m (Expireat k t) = spec_expire now m k t 0 1000"
| "spec now m (Pexpire k t) = spec_expire now m k t now 1"
| "spec now m (Pexpireat k t) = spec_expire now m k t 0 1"
| "spec now m (Ttl k) = spec_ttl now m k (\<lambda>ms. (ms + 500) div 1000)"
| "spec now m (Pttl k) = spec_ttl now m k id"
| "spec now m (Persist k) =
     (case m k of Some (a, Some _) \<Rightarrow> (m(k := Some (a, None)), RInt 1) | _ \<Rightarrow> (m, RInt 0))"
| "spec now m (Rpush k vs) = on_new_list m k (\<lambda>xs. (xs @ vs, RInt (int (length xs + length vs))))"
| "spec now m (Lpush k vs) = on_new_list m k (\<lambda>xs. (rev vs @ xs, RInt (int (length xs + length vs))))"
| "spec now m (Rpushx k v) = on_list m k (RInt 0) (\<lambda>xs. (xs @ [v], RInt (int (length xs) + 1)))"
| "spec now m (Lpushx k v) = on_list m k (RInt 0) (\<lambda>xs. (v # xs, RInt (int (length xs) + 1)))"
| "spec now m (Linsert k p r v) =
     (let place = map tolower (takeWhile (\<lambda>ch. ch \<noteq> NUL) p)
      in if place = ''after'' then spec_insert m k False r v
         else if place = ''before'' then spec_insert m k True r v
         else (m, syntaxerr))"
| "spec now m (Rpop k) = on_list m k RNil (\<lambda>xs. (butlast xs, RBulk (last xs)))"
| "spec now m (Lpop k) = on_list m k RNil (\<lambda>xs. (tl xs, RBulk (hd xs)))"
| "spec now m (Llen k) = on_list m k (RInt 0) (\<lambda>xs. (xs, RInt (int (length xs))))"
| "spec now m (Lindex k i) =
     on_list m k RNil (\<lambda>xs. (xs, case string2ll i of
          None \<Rightarrow> notinterr
        | Some n \<Rightarrow> if valid_pos xs n then RBulk (xs ! nat (pos_of (length xs) n)) else RNil))"
| "spec now m (Lset k i v) =
     on_list m k nokeyerr (\<lambda>xs. case string2ll i of
          None \<Rightarrow> (xs, notinterr)
        | Some n \<Rightarrow> if valid_pos xs n then (xs[nat (pos_of (length xs) n) := v], sharedok) else (xs, outofrangeerr))"
| "spec now m (Lrange k a b) =
     with_number m a (\<lambda>x. with_number m b (\<lambda>y. on_list m k (RMulti []) (\<lambda>xs. (xs, RMulti (map RBulk (slice xs x y))))))"
| "spec now m (Ltrim k a b) =
     with_number m a (\<lambda>x. with_number m b (\<lambda>y. on_list m k sharedok (\<lambda>xs. (slice xs x y, sharedok))))"
| "spec now m (Lrem k n v) =
     with_number m n (\<lambda>x. on_list m k (RInt 0)
       (\<lambda>xs. (remove_some x v xs, RInt (int (length xs) - int (length (remove_some x v xs))))))"
| "spec now m (Rpoplpush k d) = spec_rpoplpush m k d"
| "spec now m (Sadd k vs) =
     (case m k of
        None \<Rightarrow> (store m k (ASet (set vs)), RInt (int (card (set vs))))
      | Some _ \<Rightarrow> on_set m k RNil (\<lambda>s. (s \<union> set vs, RInt (int (card (set vs - s))))))"
| "spec now m (Srem k vs) = on_set m k (RInt 0) (\<lambda>s. (s - set vs, RInt (int (card (set vs \<inter> s)))))"
| "spec now m (Smove k d v) = spec_smove m k d v"
| "spec now m (Sismember k v) = on_set m k (RInt 0) (\<lambda>s. (s, RInt (if v \<in> s then 1 else 0)))"
| "spec now m (Scard k) = on_set m k (RInt 0) (\<lambda>s. (s, RInt (int (card s))))"


section \<open>What a server shows\<close>

fun aval_of :: "rval \<Rightarrow> aval" where
  "aval_of (VString s) = AString s"
| "aval_of (VList xs) = AList xs"
| "aval_of (VSet rs) = ASet (rset_elems rs)"
| "aval_of (VOther t) = AOther t"

definition expired :: "server \<Rightarrow> string \<Rightarrow> bool" where
  "expired sv key \<longleftrightarrow> (case fmlookup (sv_expires sv) key of None \<Rightarrow> False | Some w \<Rightarrow> w < sv_mstime sv)"

definition view :: "server \<Rightarrow> view" where
  "view sv key =
     (if expired sv key then None
      else map_option (\<lambda>v. (aval_of v, fmlookup (sv_expires sv) key)) (fmlookup (sv_dict sv) key))"

fun val_ok :: "rval \<Rightarrow> bool" where
  "val_ok (VList xs) \<longleftrightarrow> xs \<noteq> []"
| "val_ok (VSet rs) \<longleftrightarrow> rset_wf rs \<and> rset_elems rs \<noteq> {}"
| "val_ok (VOther t) \<longleftrightarrow> t = OBJ_ZSET \<or> t = OBJ_HASH"
| "val_ok (VString _) \<longleftrightarrow> True"

text \<open>The invariant of a master that is up: every time belongs to a key, and every value is well-formed. The
  clock counts milliseconds since 1970. \<open>ok_but K\<close> says nothing of the values of the keys in \<open>K\<close>.\<close>

definition ok_but :: "string set \<Rightarrow> server \<Rightarrow> bool" where
  "ok_but K sv \<longleftrightarrow>
     \<not> sv_loading sv \<and> \<not> sv_masterhost sv \<and> sv_lua sv = None \<and> 500 \<le> sv_mstime sv \<and> env_ok (sv_env sv) \<and>
     fmdom (sv_expires sv) |\<subseteq>| fmdom (sv_dict sv) \<and> fmpred (\<lambda>k w. 0 \<le> w \<and> int64 w) (sv_expires sv) \<and>
     fmpred (\<lambda>k v. k \<in> K \<or> val_ok v) (sv_dict sv)"

definition serving :: "server \<Rightarrow> bool" where
  "serving sv \<longleftrightarrow> ok_but {} sv"

section \<open>Reading and changing a server\<close>

lemma expired_iff: "expired sv key \<longleftrightarrow> (\<exists>w. fmlookup (sv_expires sv) key = Some w \<and> w < sv_mstime sv)"
  by (auto simp: expired_def split: option.splits)

text \<open>\<open>same_data\<close>: only logs and counters differ.\<close>

definition same_data :: "server \<Rightarrow> server \<Rightarrow> bool" where
  "same_data sv' sv \<longleftrightarrow>
     sv_dict sv' = sv_dict sv \<and> sv_expires sv' = sv_expires sv \<and> sv_mstime sv' = sv_mstime sv \<and>
     sv_loading sv' = sv_loading sv \<and> sv_masterhost sv' = sv_masterhost sv \<and> sv_lua sv' = sv_lua sv \<and> sv_env sv' = sv_env sv"

lemma same_data_eqs:
  assumes "same_data sv' sv"
  shows "view sv' = view sv" "ok_but K sv' = ok_but K sv" "expired sv' = expired sv" "serving sv' = serving sv"
    "sv_mstime sv' = sv_mstime sv" "sv_dict sv' = sv_dict sv" "sv_expires sv' = sv_expires sv" "sv_env sv' = sv_env sv"
  using assms by (auto simp: same_data_def view_def expired_iff ok_but_def serving_def fun_eq_iff)

lemma logs_same_data:
  "same_data (signalModifiedKey sv k) sv" "same_data (notifyKeyspaceEvent sv c e k) sv" "same_data (add_dirty sv n) sv"
  "same_data (propagateExpire sv k) sv" "same_data (sv\<lparr>sv_expiredkeys := m\<rparr>) sv" "same_data (sv\<lparr>sv_hits := m\<rparr>) sv"
  "same_data (sv\<lparr>sv_misses := m\<rparr>) sv" "same_data (sv\<lparr>sv_ready := ks\<rparr>) sv" "same_data (signalFlushedDb sv) sv"
  by (simp_all add: same_data_def signalModifiedKey_def notifyKeyspaceEvent_def add_dirty_def propagateExpire_def signalFlushedDb_def)

lemmas log_simps [simp] = logs_same_data [THEN same_data_eqs(1)] logs_same_data [THEN same_data_eqs(2)]
  logs_same_data [THEN same_data_eqs(3)] logs_same_data [THEN same_data_eqs(4)] logs_same_data [THEN same_data_eqs(5)]
  logs_same_data [THEN same_data_eqs(6)] logs_same_data [THEN same_data_eqs(7)] logs_same_data [THEN same_data_eqs(8)]

lemma ok_but_mono: "ok_but K sv \<Longrightarrow> K \<subseteq> L \<Longrightarrow> ok_but L sv"
  unfolding ok_but_def fmpred_iff by blast

lemma servingD: "serving sv \<Longrightarrow> ok_but K sv"
  unfolding serving_def by (rule ok_but_mono) auto

lemma ok_but_master:
  "ok_but K sv \<Longrightarrow> \<not> sv_loading sv" "ok_but K sv \<Longrightarrow> \<not> sv_masterhost sv" "ok_but K sv \<Longrightarrow> sv_lua sv = None"
  "ok_but K sv \<Longrightarrow> 500 \<le> sv_mstime sv" "ok_but K sv \<Longrightarrow> env_ok (sv_env sv)"
  by (simp_all add: ok_but_def)

lemma ok_but_expires:
  assumes "ok_but K sv" "fmlookup (sv_expires sv) k = Some w"
  shows "0 \<le> w" "int64 w" "\<exists>v. fmlookup (sv_dict sv) k = Some v"
  using assms by (auto simp: ok_but_def fmpred_iff dest: fmdomI intro: fmlookup_dom_iff [THEN iffD1])

lemma serving_val: "serving sv \<Longrightarrow> fmlookup (sv_dict sv) k = Some v \<Longrightarrow> val_ok v"
  by (auto simp: serving_def ok_but_def fmpred_iff)

text \<open>Storing a value under a key that is not expired, and deleting one.\<close>

lemma put_val_simps [simp]:
  "sv_mstime (put_val sv k v) = sv_mstime sv" "sv_expires (put_val sv k v) = sv_expires sv" "sv_env (put_val sv k v) = sv_env sv"
  "sv_dict (put_val sv k v) = fmupd k v (sv_dict sv)" "expired (put_val sv k v) = expired sv"
  by (simp_all add: put_val_def expired_iff fun_eq_iff)

lemma view_put_val:
  "\<not> expired sv k \<Longrightarrow> view (put_val sv k v) = (view sv)(k := Some (aval_of v, fmlookup (sv_expires sv) k))"
  by (auto simp: view_def fun_eq_iff)

lemma ok_but_put_val [intro]: "ok_but K sv \<Longrightarrow> k \<in> K \<or> val_ok v \<Longrightarrow> ok_but K (put_val sv k v)"
  by (auto simp: ok_but_def put_val_def fmpred_iff)

lemma serving_put_val [intro]: "ok_but {k} sv \<Longrightarrow> val_ok v \<Longrightarrow> serving (put_val sv k v)"
  by (auto simp: serving_def ok_but_def put_val_def fmpred_iff)

lemma dbDelete_simps [simp]:
  "sv_mstime (fst (dbDelete sv k)) = sv_mstime sv" "sv_env (fst (dbDelete sv k)) = sv_env sv"
  "sv_dict (fst (dbDelete sv k)) = fmdrop k (sv_dict sv)" "sv_expires (fst (dbDelete sv k)) = fmdrop k (sv_expires sv)"
  "snd (dbDelete sv k) = (fmlookup (sv_dict sv) k \<noteq> None)" "\<not> expired (fst (dbDelete sv k)) k"
  by (simp_all add: dbDelete_def expired_iff)

lemma view_dbDelete [simp]: "view (fst (dbDelete sv k)) = (view sv)(k := None)"
  by (auto simp: view_def dbDelete_def expired_iff fun_eq_iff)

lemma ok_but_dbDelete [intro]: "ok_but (insert k K) sv \<Longrightarrow> ok_but K (fst (dbDelete sv k))"
  by (auto simp: ok_but_def dbDelete_def fmpred_iff split: if_splits)

lemma serving_dbDelete [intro]: "ok_but {k} sv \<Longrightarrow> serving (fst (dbDelete sv k))"
  unfolding serving_def by (rule ok_but_dbDelete)

lemma view_at: "\<not> expired sv k \<Longrightarrow> view sv k = map_option (\<lambda>v. (aval_of v, fmlookup (sv_expires sv) k)) (fmlookup (sv_dict sv) k)"
  by (simp add: view_def)


section \<open>Lookups\<close>

text \<open>A lookup of \<open>key\<close> with the result \<open>o1\<close> removes the key when its time has passed and shows the same map.\<close>

definition looked_up :: "server \<Rightarrow> string \<Rightarrow> server \<Rightarrow> rval option \<Rightarrow> bool" where
  "looked_up sv key sv1 o1 \<longleftrightarrow>
     serving sv1 \<and> view sv1 = view sv \<and> sv_mstime sv1 = sv_mstime sv \<and> \<not> expired sv1 key \<and>
     o1 = fmlookup (sv_dict sv1) key"

definition other_keys_kept :: "server \<Rightarrow> string \<Rightarrow> server \<Rightarrow> bool" where
  "other_keys_kept sv key sv1 \<longleftrightarrow>
     (\<forall>k. k \<noteq> key \<or> \<not> expired sv key \<longrightarrow>
        fmlookup (sv_dict sv1) k = fmlookup (sv_dict sv) k \<and> fmlookup (sv_expires sv1) k = fmlookup (sv_expires sv) k)"

lemma expireIfNeeded_serving:
  assumes "serving sv"
  shows "\<exists>sv1. expireIfNeeded sv key = Some (sv1, expired sv key) \<and> looked_up sv key sv1 (fmlookup (sv_dict sv1) key) \<and>
     other_keys_kept sv key sv1 \<and> (expired sv key \<longrightarrow> fmlookup (sv_dict sv1) key = None)"
proof (cases "fmlookup (sv_expires sv) key")
  case None
  then have "\<not> expired sv key" by (simp add: expired_iff)
  then show ?thesis using None assms by (simp add: expireIfNeeded_def getExpire_def looked_up_def other_keys_kept_def)
next
  case (Some w)
  note ok = servingD [OF assms, of "{}"]
  from ok_but_expires [OF ok Some] obtain v where v: "0 \<le> w" "fmlookup (sv_dict sv) key = Some v" by blast
  show ?thesis
  proof (cases "expired sv key")
    case False
    then have "sv_mstime sv \<le> w" using Some by (simp add: expired_iff)
    then show ?thesis using False Some v assms ok_but_master [OF ok]
      by (simp add: expireIfNeeded_def getExpire_def looked_up_def other_keys_kept_def Let_def)
  next
    case True
    then have w: "w < sv_mstime sv" using Some by (simp add: expired_iff)
    define sv0 where "sv0 = notifyKeyspaceEvent
      (propagateExpire (sv\<lparr>sv_expiredkeys := Suc (sv_expiredkeys sv)\<rparr>) key) NOTIFY_EXPIRED ''expired'' key"
    have run: "expireIfNeeded sv key = Some (dbDelete sv0 key)"
      using Some v w ok_but_master [OF ok] by (simp add: expireIfNeeded_def getExpire_def Let_def sv0_def)
    have snd: "snd (dbDelete sv0 key)" using v by (simp add: sv0_def)
    have "serving (fst (dbDelete sv0 key))"
      using servingD [OF assms] by (intro serving_dbDelete) (simp add: sv0_def)
    moreover have "view (fst (dbDelete sv0 key)) = view sv"
      using True by (auto simp: sv0_def view_def fun_eq_iff)
    ultimately have "looked_up sv key (fst (dbDelete sv0 key)) (fmlookup (sv_dict (fst (dbDelete sv0 key))) key)"
      using True by (simp add: looked_up_def sv0_def)
    moreover have "other_keys_kept sv key (fst (dbDelete sv0 key))" using True by (simp add: other_keys_kept_def sv0_def)
    ultimately show ?thesis using run snd True by (intro exI [of _ "fst (dbDelete sv0 key)"]) (simp add: prod_eq_iff)
  qed
qed

lemma lookupKeyWrite_serving:
  assumes "serving sv"
  shows "\<exists>sv1 o1. lookupKeyWrite sv key = Some (sv1, o1) \<and> looked_up sv key sv1 o1 \<and> other_keys_kept sv key sv1"
  using expireIfNeeded_serving [OF assms, of key] by (auto simp: lookupKeyWrite_def lookupKey_def)

lemma looked_up_same_data:
  "looked_up sv key sv1 o1 \<Longrightarrow> same_data sv2 sv1 \<Longrightarrow> looked_up sv key sv2 o1"
  by (simp add: looked_up_def same_data_eqs)

lemma lookupKeyRead_serving:
  assumes "serving sv"
  shows "\<exists>sv1 o1. lookupKeyRead sv key = Some (sv1, o1) \<and> looked_up sv key sv1 o1 \<and> other_keys_kept sv key sv1"
proof -
  obtain sv1 where e: "expireIfNeeded sv key = Some (sv1, expired sv key)"
    "looked_up sv key sv1 (fmlookup (sv_dict sv1) key)" "other_keys_kept sv key sv1" "expired sv key \<longrightarrow> fmlookup (sv_dict sv1) key = None"
    using expireIfNeeded_serving [OF assms, of key] by blast
  have m: "\<not> sv_masterhost sv1" using e(2) servingD ok_but_master(2) by (auto simp: looked_up_def)
  show ?thesis
  proof (cases "expired sv key")
    case True
    then show ?thesis using e m by (simp add: lookupKeyRead_def)
  next
    case False
    then show ?thesis using e(1,3) looked_up_same_data [OF e(2) logs_same_data(6)] looked_up_same_data [OF e(2) logs_same_data(7)]
      by (cases "fmlookup (sv_dict sv1) key") (auto simp: lookupKeyRead_def lookupKey_def other_keys_kept_def)
  qed
qed

text \<open>\<open>implements\<close>: a command runs, keeps the invariant, and has the effect and the reply \<open>p\<close>.\<close>

definition implements :: "server \<Rightarrow> outcome \<Rightarrow> view \<times> reply \<Rightarrow> bool" where
  "implements sv res p \<longleftrightarrow>
     (\<exists>sv'. res = Some (sv', snd p) \<and> serving sv' \<and> view sv' = fst p \<and> sv_mstime sv' = sv_mstime sv)"

lemma implementsI [intro]:
  "serving sv' \<Longrightarrow> view sv' = m \<Longrightarrow> sv_mstime sv' = sv_mstime sv \<Longrightarrow> implements sv (Some (sv', r)) (m, r)"
  by (simp add: implements_def)

lemma looked_upD:
  assumes "looked_up sv key sv1 o1"
  shows "serving sv1" "view sv1 = view sv" "sv_mstime sv1 = sv_mstime sv" "\<not> expired sv1 key" "o1 = fmlookup (sv_dict sv1) key"
    "view sv key = map_option (\<lambda>v. (aval_of v, fmlookup (sv_expires sv1) key)) o1" "ok_but K sv1"
  using assms servingD view_at [of sv1 key] by (auto simp: looked_up_def)

lemma looked_up_val: "looked_up sv key sv1 (Some v) \<Longrightarrow> val_ok v"
  using serving_val looked_upD(1,5) by metis

lemma list_val: "val_ok v \<Longrightarrow> rval_type v = OBJ_LIST \<Longrightarrow> \<exists>xs. v = VList xs \<and> xs \<noteq> []"
  by (cases v) auto

lemma set_val: "val_ok v \<Longrightarrow> rval_type v = OBJ_SET \<Longrightarrow> \<exists>rs. v = VSet rs \<and> rset_wf rs \<and> rset_elems rs \<noteq> {}"
  by (cases v) auto

lemma unchanged: "looked_up sv key sv1 o1 \<Longrightarrow> implements sv (Some (sv1, r)) (view sv, r)"
  by (auto dest: looked_upD)

lemma store_eq:
  assumes l: "looked_up sv key sv1 o1" and a: "a \<noteq> AList []" "a \<noteq> ASet {}"
  shows "store (view sv) key a = (view sv)(key := Some (a, fmlookup (sv_expires sv1) key))"
proof (cases o1)
  case None
  have "fmlookup (sv_expires sv1) key = None"
    using ok_but_expires(3) [OF looked_upD(7) [OF l]] looked_upD(5) [OF l] None by (cases "fmlookup (sv_expires sv1) key") fastforce+
  then show ?thesis using None a looked_upD(6) [OF l] by (simp add: store_def)
next
  case (Some v)
  then show ?thesis using a looked_upD(6) [OF l] by (simp add: store_def)
qed

lemma aval_nonempty: "val_ok v \<Longrightarrow> aval_of v \<noteq> AList [] \<and> aval_of v \<noteq> ASet {}"
  by (cases v) auto

lemma put_store:
  assumes l: "looked_up sv key sv1 o1" and v: "val_ok v"
  shows "view (put_val sv1 key v) = store (view sv) key (aval_of v)" "serving (put_val sv1 key v)"
  using store_eq [OF l] aval_nonempty [OF v] looked_upD(2,4,7) [OF l] v by (auto simp: view_put_val)

lemma del_store:
  assumes l: "looked_up sv key sv1 o1"
  shows "view (fst (dbDelete sv1 key)) = store (view sv) key (AList [])" "view (fst (dbDelete sv1 key)) = store (view sv) key (ASet {})"
  using looked_upD(2) [OF l] by (simp_all add: store_def)

text \<open>A key that holds another type than the one asked for.\<close>

lemma aval_type_of [simp]: "aval_type (aval_of v) = rval_type v"
  by (cases v) auto

lemma typed_list:
  assumes "looked_up sv key sv1 o1"
  obtains "view sv key = None" "typed_or_reply (sv1, o1) none OBJ_LIST = (sv1, Inl none)"
    | xs where "xs \<noteq> []" "o1 = Some (VList xs)" "view sv key = Some (AList xs, fmlookup (sv_expires sv1) key)"
        "typed_or_reply (sv1, o1) none OBJ_LIST = (sv1, Inr (VList xs))"
    | a d where "aval_type a \<noteq> OBJ_LIST" "view sv key = Some (a, d)" "typed_or_reply (sv1, o1) none OBJ_LIST = (sv1, Inl wrongtypeerr)"
proof (cases o1)
  case None
  then show ?thesis using that(1) looked_upD(6) [OF assms] by (simp add: typed_or_reply_def)
next
  case (Some v)
  note l = looked_upD [OF assms]
  have ok: "val_ok v" using serving_val [OF l(1)] l(5) Some by simp
  show ?thesis
  proof (cases "rval_type v = OBJ_LIST")
    case True
    with ok obtain xs where "v = VList xs" "xs \<noteq> []" by (cases v) auto
    then show ?thesis using that(2) Some l(6) by (simp add: typed_or_reply_def checkType_def)
  next
    case False
    then show ?thesis using that(3) [of "aval_of v"] Some l(6) by (simp add: typed_or_reply_def checkType_def)
  qed
qed

lemma typed_set:
  assumes "looked_up sv key sv1 o1"
  obtains "view sv key = None" "typed_or_reply (sv1, o1) none OBJ_SET = (sv1, Inl none)"
    | rs where "rset_wf rs" "rset_elems rs \<noteq> {}" "o1 = Some (VSet rs)" "view sv key = Some (ASet (rset_elems rs), fmlookup (sv_expires sv1) key)"
        "typed_or_reply (sv1, o1) none OBJ_SET = (sv1, Inr (VSet rs))"
    | a d where "aval_type a \<noteq> OBJ_SET" "view sv key = Some (a, d)" "typed_or_reply (sv1, o1) none OBJ_SET = (sv1, Inl wrongtypeerr)"
proof (cases o1)
  case None
  then show ?thesis using that(1) looked_upD(6) [OF assms] by (simp add: typed_or_reply_def)
next
  case (Some v)
  note l = looked_upD [OF assms]
  have ok: "val_ok v" using serving_val [OF l(1)] l(5) Some by simp
  show ?thesis
  proof (cases "rval_type v = OBJ_SET")
    case True
    with ok obtain rs where "v = VSet rs" "rset_wf rs" "rset_elems rs \<noteq> {}" by (cases v) auto
    then show ?thesis using that(2) Some l(6) by (simp add: typed_or_reply_def checkType_def)
  next
    case False
    then show ?thesis using that(3) [of "aval_of v"] Some l(6) by (simp add: typed_or_reply_def checkType_def)
  qed
qed

lemma on_other:
  "m key = Some (a, d) \<Longrightarrow> aval_type a \<noteq> OBJ_LIST \<Longrightarrow> on_list m key none f = (m, wrongtypeerr)"
  "m key = Some (a, d) \<Longrightarrow> aval_type a \<noteq> OBJ_SET \<Longrightarrow> on_set m key none g = (m, wrongtypeerr)"
  by (cases a; simp add: on_list_def on_set_def)+

text \<open>The shape of the list commands: look up, and act on a list that is there.\<close>

definition list_act :: "(server \<times> (reply + rval)) option \<Rightarrow> (server \<Rightarrow> string list \<Rightarrow> outcome) \<Rightarrow> outcome" where
  "list_act L f =
     do {
       (sv1, r) \<leftarrow> L;
       (case r of Inl e \<Rightarrow> Some (sv1, e) | Inr (VList xs) \<Rightarrow> f sv1 xs | Inr _ \<Rightarrow> None)
     }"

definition set_act :: "(server \<times> (reply + rval)) option \<Rightarrow> (server \<Rightarrow> rset \<Rightarrow> outcome) \<Rightarrow> outcome" where
  "set_act L f =
     do {
       (sv1, r) \<leftarrow> L;
       (case r of Inl e \<Rightarrow> Some (sv1, e) | Inr (VSet rs) \<Rightarrow> f sv1 rs | Inr _ \<Rightarrow> None)
     }"

definition a_lookup :: "server \<Rightarrow> string \<Rightarrow> reply \<Rightarrow> obj_type \<Rightarrow> (server \<times> (reply + rval)) option \<Rightarrow> bool" where
  "a_lookup sv key none t L \<longleftrightarrow> (\<exists>sv1 o1. L = Some (typed_or_reply (sv1, o1) none t) \<and> looked_up sv key sv1 o1)"

lemma a_lookup_ok:
  assumes "serving sv"
  shows "a_lookup sv key none t (lookupKeyReadOrReply sv key none t)" "a_lookup sv key none t (lookupKeyWriteOrReply sv key none t)"
  using lookupKeyRead_serving [OF assms, of key] lookupKeyWrite_serving [OF assms, of key]
  by (auto simp: a_lookup_def lookupKeyReadOrReply_def lookupKeyWriteOrReply_def)

lemma list_act_implements:
  assumes "a_lookup sv key none OBJ_LIST L"
    and act: "\<And>sv1 xs. looked_up sv key sv1 (Some (VList xs)) \<Longrightarrow> xs \<noteq> [] \<Longrightarrow>
        view sv key = Some (AList xs, fmlookup (sv_expires sv1) key) \<Longrightarrow>
        implements sv (f sv1 xs) (store (view sv) key (AList (fst (g xs))), snd (g xs))"
  shows "implements sv (list_act L f) (on_list (view sv) key none g)"
proof -
  obtain sv1 o1 where l: "L = Some (typed_or_reply (sv1, o1) none OBJ_LIST)" "looked_up sv key sv1 o1"
    using assms(1) by (auto simp: a_lookup_def)
  show ?thesis
  proof (rule typed_list [OF l(2), of none])
    assume "view sv key = None" "typed_or_reply (sv1, o1) none OBJ_LIST = (sv1, Inl none)"
    then show ?thesis using l unchanged [OF l(2)] by (simp add: list_act_def on_list_def)
  next
    fix xs assume "xs \<noteq> []" "o1 = Some (VList xs)" "view sv key = Some (AList xs, fmlookup (sv_expires sv1) key)"
        "typed_or_reply (sv1, o1) none OBJ_LIST = (sv1, Inr (VList xs))"
    then show ?thesis using l act [of sv1 xs] by (simp add: list_act_def on_list_def)
  next
    fix a d assume "aval_type a \<noteq> OBJ_LIST" "view sv key = Some (a, d)" "typed_or_reply (sv1, o1) none OBJ_LIST = (sv1, Inl wrongtypeerr)"
    then show ?thesis using l unchanged [OF l(2)] by (simp add: list_act_def on_other)
  qed
qed

lemma set_act_implements:
  assumes "a_lookup sv key none OBJ_SET L"
    and act: "\<And>sv1 rs. looked_up sv key sv1 (Some (VSet rs)) \<Longrightarrow> rset_wf rs \<Longrightarrow> rset_elems rs \<noteq> {} \<Longrightarrow>
        view sv key = Some (ASet (rset_elems rs), fmlookup (sv_expires sv1) key) \<Longrightarrow>
        implements sv (f sv1 rs) (store (view sv) key (ASet (fst (g (rset_elems rs)))), snd (g (rset_elems rs)))"
  shows "implements sv (set_act L f) (on_set (view sv) key none g)"
proof -
  obtain sv1 o1 where l: "L = Some (typed_or_reply (sv1, o1) none OBJ_SET)" "looked_up sv key sv1 o1"
    using assms(1) by (auto simp: a_lookup_def)
  show ?thesis
  proof (rule typed_set [OF l(2), of none])
    assume "view sv key = None" "typed_or_reply (sv1, o1) none OBJ_SET = (sv1, Inl none)"
    then show ?thesis using l unchanged [OF l(2)] by (simp add: set_act_def on_set_def)
  next
    fix rs assume "rset_wf rs" "rset_elems rs \<noteq> {}" "o1 = Some (VSet rs)" "view sv key = Some (ASet (rset_elems rs), fmlookup (sv_expires sv1) key)"
        "typed_or_reply (sv1, o1) none OBJ_SET = (sv1, Inr (VSet rs))"
    then show ?thesis using l act [of sv1 rs] by (simp add: set_act_def on_set_def)
  next
    fix a d assume "aval_type a \<noteq> OBJ_SET" "view sv key = Some (a, d)" "typed_or_reply (sv1, o1) none OBJ_SET = (sv1, Inl wrongtypeerr)"
    then show ?thesis using l unchanged [OF l(2)] by (simp add: set_act_def on_other)
  qed
qed

text \<open>A value written back, with any logs; and the same value again.\<close>

lemma keep_store:
  assumes "looked_up sv key sv1 o1" "view sv key = Some (a, d)" "a \<noteq> AList []" "a \<noteq> ASet {}" "r = r'"
  shows "implements sv (Some (sv1, r)) (store (view sv) key a, r')"
proof -
  have "store (view sv) key a = view sv" using assms(2,3,4) by (auto simp: store_def)
  then show ?thesis using unchanged [OF assms(1)] assms(5) by simp
qed

lemma put_implements:
  assumes l: "looked_up sv key sv1 o1" and v: "val_ok v" "aval_of v = a" and d: "same_data sv2 (put_val sv1 key v)" and r: "r = r'"
  shows "implements sv (Some (sv2, r)) (store (view sv) key a, r')"
  unfolding r using put_store [OF l v(1)] looked_upD(3) [OF l] v(2) same_data_eqs [OF d] by (intro implementsI) simp_all

lemma del_implements:
  assumes l: "looked_up sv key sv1 o1" and a: "a = AList [] \<or> a = ASet {}"
    and d: "same_data sv2 (fst (dbDelete (put_val sv1 key v) key))" and r: "r = r'"
  shows "implements sv (Some (sv2, r)) (store (view sv) key a, r')"
  unfolding r
proof (rule implementsI)
  have "serving (fst (dbDelete (put_val sv1 key v) key))"
    using ok_but_put_val [OF looked_upD(7) [OF l], of key "{key}" v] by (intro serving_dbDelete) simp
  then show "serving sv2" using same_data_eqs [OF d] by simp
  show "view sv2 = store (view sv) key a"
    using a same_data_eqs(1) [OF d] looked_upD(2,4) [OF l] by (auto simp: store_def view_put_val)
  show "sv_mstime sv2 = sv_mstime sv" using same_data_eqs(5) [OF d] looked_upD(3) [OF l] by simp
qed

lemma same_data_logs [simp]:
  "same_data (signalModifiedKey sv k) s = same_data sv s" "same_data (notifyKeyspaceEvent sv c e k) s = same_data sv s"
  "same_data (add_dirty sv n) s = same_data sv s" "same_data (sv\<lparr>sv_ready := ks\<rparr>) s = same_data sv s" "same_data sv sv"
  by (simp_all add: same_data_def signalModifiedKey_def notifyKeyspaceEvent_def add_dirty_def)

lemma same_data_cong [intro]:
  "same_data sv s \<Longrightarrow> same_data (fst (dbDelete sv k)) (fst (dbDelete s k))" "same_data sv s \<Longrightarrow> same_data (put_val sv k v) (put_val s k v)"
  by (simp_all add: same_data_def dbDelete_def put_val_def)

lemma put_put [simp]: "put_val (put_val sv k v) k w = put_val sv k w"
  by (simp add: put_val_def)

text \<open>Logs move outwards.\<close>

lemma logs_out:
  "put_val (signalModifiedKey sv k') k v = signalModifiedKey (put_val sv k v) k'"
  "put_val (notifyKeyspaceEvent sv c e k') k v = notifyKeyspaceEvent (put_val sv k v) c e k'"
  "put_val (add_dirty sv n) k v = add_dirty (put_val sv k v) n"
  "put_val (sv\<lparr>sv_ready := ks\<rparr>) k v = (put_val sv k v)\<lparr>sv_ready := ks\<rparr>"
  "fst (dbDelete (signalModifiedKey sv k') k) = signalModifiedKey (fst (dbDelete sv k)) k'"
  "fst (dbDelete (notifyKeyspaceEvent sv c e k') k) = notifyKeyspaceEvent (fst (dbDelete sv k)) c e k'"
  "fst (dbDelete (add_dirty sv n) k) = add_dirty (fst (dbDelete sv k)) n"
  "fst (dbDelete (sv\<lparr>sv_ready := ks\<rparr>) k) = (fst (dbDelete sv k))\<lparr>sv_ready := ks\<rparr>"
  "fst (dbDelete (put_val sv k v) k) = fst (dbDelete sv k)"
  "k \<noteq> d \<Longrightarrow> fst (dbDelete (put_val sv d v) k) = put_val (fst (dbDelete sv k)) d v"
  by (simp_all add: signalModifiedKey_def notifyKeyspaceEvent_def add_dirty_def put_val_def dbDelete_def fmdrop_fmupd)

lemma arg_ok: "long_arg s = Some (case string2ll s of
     None \<Rightarrow> Inl notinterr | Some v \<Rightarrow> Inr v)"
  "long_long_arg s = Some (case string2ll s of
     None \<Rightarrow> Inl notinterr | Some v \<Rightarrow> Inr v)"
proof -
  have "- (2 ^ 63) \<le> v \<and> v \<le> 2 ^ 63 - 1" if "string2ll s = Some v" for v
    using string2ll_SomeD [OF that] by (simp add: int64_def)
  then show "long_arg s = Some (case string2ll s of
     None \<Rightarrow> Inl notinterr | Some v \<Rightarrow> Inr v)"
    by (cases "string2ll s") (fastforce simp: long_arg_def getLongFromObjectOrReply_def getLongLongFromObjectOrReply_def
      getLongLongFromObject_def arg_obj_def sdsEncodedObject_def notinterr_def)+
  show "long_long_arg s = Some (case string2ll s of
     None \<Rightarrow> Inl notinterr | Some v \<Rightarrow> Inr v)"
    by (cases "string2ll s") (simp_all add: long_long_arg_def getLongLongFromObjectOrReply_def
      getLongLongFromObject_def arg_obj_def sdsEncodedObject_def notinterr_def)
qed

lemma with_number_implements:
  assumes "serving sv" "\<And>n. string2ll s = Some n \<Longrightarrow> implements sv (f n) (g n)"
  shows "implements sv (do { n1 \<leftarrow> long_arg s; (case n1 of Inl e \<Rightarrow> Some (sv, e) | Inr n \<Rightarrow> f n) }) (with_number (view sv) s g)"
  using assms by (cases "string2ll s") (auto simp: arg_ok with_number_def)


section \<open>List commands\<close>

lemma push_loop_list:
  "push_loop sv key head (Some xs) vs =
     Some (if vs = [] then sv else put_val sv key (VList (if head then rev vs @ xs else xs @ vs)),
           Some (if head then rev vs @ xs else xs @ vs))"
  by (induction vs arbitrary: sv xs) (simp_all add: listTypePush_def Let_def)

lemma push_list_implements:
  assumes l: "looked_up sv key sv1 o1" and lobj: "o1 = map_option VList lobj"
    and ys: "ys = (if head then rev vs @ (case lobj of None \<Rightarrow> [] | Some xs \<Rightarrow> xs) else (case lobj of None \<Rightarrow> [] | Some xs \<Rightarrow> xs) @ vs)"
  shows "\<exists>sv2. push_loop sv1 key head lobj vs = Some (sv2, if lobj = None \<and> vs = [] then None else Some ys) \<and>
     serving sv2 \<and> view sv2 = store (view sv) key (AList ys) \<and> sv_mstime sv2 = sv_mstime sv"
proof (cases lobj)
  case None
  show ?thesis
  proof (cases vs)
    case Nil
    have "store (view sv) key (AList []) = view sv" using looked_upD(6) [OF l] lobj None by (auto simp: store_def)
    then show ?thesis using Nil None ys looked_upD [OF l] by simp
  next
    case (Cons v vs')
    have new: "dbAdd sv1 key (VList []) = Some ((put_val sv1 key (VList []))\<lparr>sv_ready := sv_ready sv1 @ [key]\<rparr>)"
      using looked_upD(5) [OF l] lobj None by (simp add: dbAdd_def)
    define sv2 where "sv2 = put_val ((put_val sv1 key (VList []))\<lparr>sv_ready := sv_ready sv1 @ [key]\<rparr>) key (VList ys)"
    have run: "push_loop sv1 key head lobj vs = Some (sv2, Some ys)"
      using new Cons None ys by (simp add: push_loop_list listTypePush_def Let_def sv2_def)
    have "same_data sv2 (put_val (put_val sv1 key (VList [])) key (VList ys))"
      unfolding sv2_def by (rule same_data_cong) simp
    then have d: "same_data sv2 (put_val sv1 key (VList ys))" by simp
    have "ys \<noteq> []" using Cons ys by simp
    then show ?thesis
      using put_store [OF l, of "VList ys"] looked_upD(3) [OF l] same_data_eqs [OF d] run Cons by simp
  qed
next
  case (Some xs)
  have x: "xs \<noteq> []" using serving_val [OF looked_upD(1) [OF l]] looked_upD(5) [OF l] lobj Some by fastforce
  show ?thesis
  proof (cases "vs = []")
    case True
    have "view sv key = Some (AList xs, fmlookup (sv_expires sv1) key)" using looked_upD(6) [OF l] lobj Some by simp
    then have "store (view sv) key (AList xs) = view sv" using x by (auto simp: store_def)
    then show ?thesis using True Some ys looked_upD [OF l] by (simp add: push_loop_list)
  next
    case False
    have y: "ys = (if head then rev vs @ xs else xs @ vs)" using ys Some by simp
    then have "push_loop sv1 key head lobj vs = Some (put_val sv1 key (VList ys), Some ys)"
      using False Some by (simp only: push_loop_list if_False)
    moreover have "ys \<noteq> []" using x y by simp
    ultimately show ?thesis using put_store [OF l, of "VList ys"] looked_upD(3) [OF l] Some by simp
  qed
qed

lemma pushGeneric_implements:
  assumes sv: "serving sv"
  shows "implements sv (pushGenericCommand sv key vs head)
     (on_new_list (view sv) key (\<lambda>xs. (if head then rev vs @ xs else xs @ vs, RInt (int (length xs + length vs)))))"
proof -
  obtain sv1 o1 where l: "lookupKeyWrite sv key = Some (sv1, o1)" "looked_up sv key sv1 o1"
    using lookupKeyWrite_serving [OF sv] by blast
  consider "o1 = None" | xs where "o1 = Some (VList xs)" | v where "o1 = Some v" "rval_type v \<noteq> OBJ_LIST"
    using l(2) looked_up_val list_val by (cases o1) (simp, metis)
  then show ?thesis
  proof cases
    case 1
    then have "view sv key = None" using looked_upD(6) [OF l(2)] by simp
    then show ?thesis using push_list_implements [OF l(2), of None _ head vs] l(1) 1
      by (auto simp: pushGenericCommand_def implements_def on_new_list_def Let_def)
  next
    case (2 xs)
    then have "view sv key = Some (AList xs, fmlookup (sv_expires sv1) key)" using looked_upD(6) [OF l(2)] by simp
    then show ?thesis using push_list_implements [OF l(2), of "Some xs" _ head vs] l(1) 2
      by (auto simp: pushGenericCommand_def implements_def on_new_list_def on_list_def Let_def)
  next
    case (3 v)
    then have v: "view sv key = Some (aval_of v, fmlookup (sv_expires sv1) key)" using looked_upD(6) [OF l(2)] by simp
    have "pushGenericCommand sv key vs head = Some (sv1, wrongtypeerr)"
      using 3 l(1) by (cases v) (simp_all add: pushGenericCommand_def)
    then show ?thesis using v 3 unchanged [OF l(2)] by (simp add: on_new_list_def on_other)
  qed
qed

lemma linsert_loop_spec:
  "linsert_loop r v before xs = (if r \<in> set xs then Some (insert_by before r v xs) else None)"
  by (induction xs) (auto simp: insert_by_def Let_def)

lemma length_insert_by: "r \<in> set xs \<Longrightarrow> length (insert_by before r v xs) = Suc (length xs)"
proof -
  assume "r \<in> set xs"
  then have "dropWhile (\<lambda>x. x \<noteq> r) xs \<noteq> []" by (auto simp: dropWhile_eq_Nil_conv)
  moreover have "length (takeWhile (\<lambda>x. x \<noteq> r) xs) + length (dropWhile (\<lambda>x. x \<noteq> r) xs) = length xs"
    by (metis length_append takeWhile_dropWhile_id)
  ultimately show ?thesis by (cases "dropWhile (\<lambda>x. x \<noteq> r) xs") (auto simp: insert_by_def Let_def)
qed

text \<open>A new list put back, or the key deleted when it is empty.\<close>

lemma put_list:
  assumes l: "looked_up sv key sv1 o1" and r: "r = r'"
    and full: "ys \<noteq> [] \<Longrightarrow> same_data sv2 (put_val sv1 key (VList ys))"
    and empty: "ys = [] \<Longrightarrow> same_data sv2 (fst (dbDelete (put_val sv1 key (VList ys)) key))"
  shows "implements sv (Some (sv2, r)) (store (view sv) key (AList ys), r')"
proof (cases "ys = []")
  case True
  show ?thesis by (rule del_implements [OF l _ empty [OF True] r]) (simp add: True)
next
  case False
  then show ?thesis by (intro put_implements [OF l _ _ full r]) simp_all
qed

lemma insert_implements:
  assumes sv: "serving sv"
  shows "implements sv (pushxGenericCommand sv key (Some r) v before) (spec_insert (view sv) key before r v)"
  unfolding pushxGenericCommand_def list_act_def [symmetric] spec_insert_def
proof (rule list_act_implements [OF a_lookup_ok(2) [OF sv]], goal_cases)
  case (1 sv1 xs)
  show ?case
  proof (cases "r \<in> set xs")
    case True
    then show ?thesis using length_insert_by [OF True, of before v]
      by (auto simp: linsert_loop_spec intro!: put_list [OF 1(1)])
  next
    case False
    then show ?thesis using 1(2) by (auto simp: linsert_loop_spec intro!: keep_store [OF 1(1) 1(3)])
  qed
qed

lemma pushx_implements:
  assumes sv: "serving sv"
  shows "implements sv (pushxGenericCommand sv key None v head)
     (on_list (view sv) key (RInt 0) (\<lambda>xs. (if head then v # xs else xs @ [v], RInt (int (length xs) + 1))))"
  unfolding pushxGenericCommand_def list_act_def [symmetric]
proof (rule list_act_implements [OF a_lookup_ok(2) [OF sv]], goal_cases)
  case (1 sv1 xs)
  then show ?case by (auto simp: Let_def listTypePush_def intro!: put_list [OF 1(1)])
qed

lemma linsert_implements:
  assumes sv: "serving sv"
  shows "implements sv (linsertCommand sv key p r v) (spec now (view sv) (Linsert key p r v))"
proof -
  have lower: "strcasecmp_eq q w \<longleftrightarrow> map tolower q = w" if "map tolower w = w" for q w
    using that by (simp add: strcasecmp_eq_def)
  have "map tolower ''after'' = ''after''" "map tolower ''before'' = ''before''" by (simp_all add: tolower_def)
  note lower [OF this(1)] lower [OF this(2)]
  then show ?thesis using insert_implements [OF sv] sv by (auto simp: linsertCommand_def Let_def)
qed

lemma pop_implements:
  assumes sv: "serving sv"
  shows "implements sv (popGenericCommand sv key head)
     (on_list (view sv) key RNil (\<lambda>xs. (if head then tl xs else butlast xs, RBulk (if head then hd xs else last xs))))"
  unfolding popGenericCommand_def list_act_def [symmetric]
proof (rule list_act_implements [OF a_lookup_ok(2) [OF sv]], goal_cases)
  case (1 sv1 xs)
  then show ?case by (auto simp: Let_def listTypePop_def intro!: put_list [OF 1(1)] same_data_cong)
qed

lemma llen_implements:
  assumes sv: "serving sv"
  shows "implements sv (llenCommand sv key) (on_list (view sv) key (RInt 0) (\<lambda>xs. (xs, RInt (int (length xs)))))"
  unfolding llenCommand_def list_act_def [symmetric]
proof (rule list_act_implements [OF a_lookup_ok(1) [OF sv]], goal_cases)
  case (1 sv1 xs)
  then show ?case by (auto intro!: keep_store [OF 1(1) 1(3)])
qed

lemma ql_index_spec: "ql_index xs n = (if valid_pos xs n then Some (nat (pos_of (length xs) n)) else None)"
  by (auto simp: ql_index_def valid_pos_def pos_of_def nat_less_iff)

lemma lindex_implements:
  assumes sv: "serving sv" and i: "string2ll i \<noteq> Some (- (2 ^ 63))"
  shows "implements sv (lindexCommand sv key i) (spec now (view sv) (Lindex key i))"
  unfolding lindexCommand_def list_act_def [symmetric] spec.simps
proof (rule list_act_implements [OF a_lookup_ok(1) [OF sv]], goal_cases)
  case (1 sv1 xs)
  then show ?case using i
    by (cases "string2ll i") (auto simp: arg_ok ql_index_spec intro!: keep_store [OF 1(1) 1(3)])
qed

lemma lset_implements:
  assumes sv: "serving sv" and i: "string2ll i \<noteq> Some (- (2 ^ 63))"
  shows "implements sv (lsetCommand sv key i v) (spec now (view sv) (Lset key i v))"
  unfolding lsetCommand_def list_act_def [symmetric] spec.simps
proof (rule list_act_implements [OF a_lookup_ok(2) [OF sv]], goal_cases)
  case (1 sv1 xs)
  show ?case
  proof (cases "string2ll i")
    case None
    then show ?thesis using 1(2) by (auto simp: arg_ok intro!: keep_store [OF 1(1) 1(3)])
  next
    case (Some n)
    show ?thesis
    proof (cases "valid_pos xs n")
      case True
      then show ?thesis using Some 1(2) i by (auto simp: arg_ok ql_index_spec ql_replace_def intro!: put_list [OF 1(1)])
    next
      case False
      then show ?thesis using Some 1(2) i by (auto simp: arg_ok ql_index_spec ql_replace_def intro!: keep_store [OF 1(1) 1(3)])
    qed
  qed
qed

text \<open>The bounds the code computes are those of the slice.\<close>

lemma nths_range: "nths xs {i. s \<le> i \<and> i < t} = take (t - s) (drop s xs)"
proof (induction xs arbitrary: s t)
  case (Cons x xs)
  have e: "{j. s \<le> Suc j \<and> Suc j < t} = {j. s - 1 \<le> j \<and> j < t - 1}" by auto
  show ?case using Cons [of "s - 1" "t - 1"] by (cases s; cases t) (auto simp: nths_Cons e)
qed simp

lemma slice_range:
  "slice xs a b = (case range_bounds (length xs) a b of None \<Rightarrow> [] | Some (s, e) \<Rightarrow> take (nat (e - s + 1)) (drop (nat s) xs))"
proof -
  define n where "n = length xs"
  define s where "s = nat (max 0 (pos_of n a))"
  define t where "t = nat (pos_of n b + 1)"
  have "{i. pos_of n a \<le> int i \<and> int i \<le> pos_of n b} = {i. s \<le> i \<and> i < t}" by (auto simp: s_def t_def)
  then have eq: "slice xs a b = take (t - s) (drop s xs)" by (simp add: slice_def nths_range flip: n_def)
  show ?thesis
  proof (cases "range_bounds n a b")
    case None
    then have "t \<le> s \<or> n \<le> s" by (auto simp: range_bounds_def Let_def s_def t_def pos_of_def split: if_splits)
    then show ?thesis using None eq by (auto simp: n_def)
  next
    case (Some p)
    obtain s' e where p: "p = (s', e)" by (cases p)
    with Some have se: "nat s' = s" "s < n" "nat (e - s' + 1) = min t n - s"
      by (auto simp: range_bounds_def Let_def s_def t_def pos_of_def split: if_splits)
    then have "take (t - s) (drop s xs) = take (min t n - s) (drop s xs)"
      by (metis n_def diff_le_mono length_drop min.cobounded1 min.cobounded2 min_def take_all)
    then show ?thesis using Some p se eq by (simp flip: n_def)
  qed
qed

lemma trim_slice:
  assumes "(l, r) = (case range_bounds (length xs) a b of None \<Rightarrow> (int (length xs), 0) | Some (s, e) \<Rightarrow> (s, int (length xs) - e - 1))"
  shows "ql_del_range (ql_del_range xs 0 l) (- r) r = slice xs a b"
proof (cases "range_bounds (length xs) a b")
  case None
  then show ?thesis using assms by (cases xs) (auto simp: slice_range ql_del_range_def ql_index_def)
next
  case (Some p)
  obtain s e where p: "p = (s, e)" by (cases p)
  then have b: "0 \<le> s" "s \<le> e" "e < int (length xs)" "l = s" "r = int (length xs) - e - 1"
    using Some assms by (auto simp: range_bounds_def Let_def split: if_splits)
  have d: "ql_del_range xs 0 l = drop (nat s) xs" using b by (cases xs) (auto simp: ql_del_range_def ql_index_def)
  have "ql_del_range (drop (nat s) xs) (- r) r = take (length xs - nat s - nat r) (drop (nat s) xs)"
  proof (cases "r = 0")
    case False
    then have r: "0 < r" "nat r = Suc (nat (r - 1))" "nat (r - 1) < length xs - nat s" using b by auto
    then show ?thesis using b by (simp add: ql_del_range_def ql_index_def)
  qed (simp add: ql_del_range_def)
  moreover have "length xs - nat s - nat r = nat (e - s + 1)" using b by (simp add: nat_diff_distrib)
  ultimately show ?thesis using d p Some by (simp add: slice_range)
qed

lemma lrange_implements:
  assumes sv: "serving sv"
  shows "implements sv (lrangeCommand sv key a b) (spec now (view sv) (Lrange key a b))"
  unfolding lrangeCommand_def list_act_def [symmetric] spec.simps
proof (intro with_number_implements [OF sv] list_act_implements [OF a_lookup_ok(1) [OF sv]], goal_cases)
  case (1 x y sv1 xs)
  then show ?case
    by (cases "range_bounds (length xs) x y") (auto simp: slice_range intro!: keep_store [OF 1(3) 1(5)])
qed

lemma ltrim_implements:
  assumes sv: "serving sv"
  shows "implements sv (ltrimCommand sv key a b) (spec now (view sv) (Ltrim key a b))"
  unfolding ltrimCommand_def list_act_def [symmetric] spec.simps
proof (intro with_number_implements [OF sv] list_act_implements [OF a_lookup_ok(2) [OF sv]], goal_cases)
  case (1 x y sv1 xs)
  obtain l r where lr: "(case range_bounds (length xs) x y of None \<Rightarrow> (int (length xs), 0) | Some (s, e) \<Rightarrow> (s, int (length xs) - e - 1)) = (l, r)"
    by (cases "case range_bounds (length xs) x y of None \<Rightarrow> (int (length xs), 0) | Some (s, e) \<Rightarrow> (s, int (length xs) - e - 1)")
  show ?case
    using trim_slice [OF lr [symmetric]] by (auto simp: lr Let_def intro!: put_list [OF 1(3)] same_data_cong)
qed

lemma lrem_loop_length: "lrem_loop t k v xs = (ys, n) \<Longrightarrow> k \<le> n \<and> length ys + n = length xs + k"
  by (induction t k v xs arbitrary: ys n rule: lrem_loop.induct) (fastforce split: if_splits prod.splits)+

lemma lrem_loop_all: "fst (lrem_loop 0 k v xs) = filter (\<lambda>x. x \<noteq> v) xs"
  by (induction xs arbitrary: k) (simp_all add: case_prod_beta)

lemma remove1_pow: "(remove1 v ^^ n) [] = []" "x \<noteq> v \<Longrightarrow> (remove1 v ^^ n) (x # xs) = x # (remove1 v ^^ n) xs"
  by (induction n) simp_all

lemma lrem_loop_some: "k < t \<Longrightarrow> fst (lrem_loop t k v xs) = (remove1 v ^^ (t - k)) xs"
proof (induction xs arbitrary: k)
  case (Cons x xs)
  show ?case
  proof (cases "x = v \<and> Suc k \<noteq> t")
    case True
    then have "t - k = Suc (t - Suc k)" "Suc k < t" using Cons.prems by auto
    then show ?thesis using True Cons.IH [of "Suc k"] by (simp add: funpow_Suc_right del: funpow.simps)
  next
    case False
    then show ?thesis using Cons by (auto simp: remove1_pow case_prod_beta)
  qed
qed (simp add: remove1_pow)

lemma lrem_implements:
  assumes sv: "serving sv" and n: "string2ll n \<noteq> Some (- (2 ^ 63))"
  shows "implements sv (lremCommand sv key n v) (spec now (view sv) (Lrem key n v))"
  unfolding lremCommand_def list_act_def [symmetric] spec.simps
proof (intro with_number_implements [OF sv] list_act_implements [OF a_lookup_ok(2) [OF sv]], goal_cases)
  case (1 x sv1 xs)
  obtain ys k where run: "(if x < 0 then apfst rev (lrem_loop (nat (- x)) 0 v (rev xs)) else lrem_loop (nat x) 0 v xs) = (ys, k)"
    by fastforce
  have ys: "ys = remove_some x v xs"
    using run lrem_loop_some [of 0 "nat x" v xs] lrem_loop_some [of 0 "nat (- x)" v "rev xs"] lrem_loop_all [of 0 v xs]
    by (cases x "0 :: int" rule: linorder_cases) (auto simp: remove_some_def apfst_def map_prod_def split: prod.splits)
  have "length ys + k = length xs" using run lrem_loop_length
    by (auto simp: apfst_def map_prod_def split: if_splits prod.splits)
  then have k: "int k = int (length xs) - int (length ys)" by simp
  show ?case using 1(1) n run k ys
    by (auto simp: Let_def intro!: put_list [OF 1(2)] same_data_cong)
qed

lemma list_at_iff: "list_at sv k = Some xs \<longleftrightarrow> fmlookup (sv_dict sv) k = Some (VList xs)"
  by (auto simp: list_at_def split: option.splits rval.splits)

text \<open>After two lookups both keys are clean.\<close>

lemma looked_up_both:
  assumes l: "looked_up sv k sv1 o1" "looked_up sv1 d sv2 o2" and o: "other_keys_kept sv1 d sv2"
  shows "looked_up sv k sv2 o1" "looked_up sv d sv2 o2"
proof -
  note a = looked_upD [OF l(1)] and b = looked_upD [OF l(2)]
  have k: "fmlookup (sv_dict sv2) k = o1" "fmlookup (sv_expires sv2) k = fmlookup (sv_expires sv1) k"
    using o a(4,5) by (cases "k = d"; simp add: other_keys_kept_def)+
  then have "\<not> expired sv2 k" using a(4) b(3) by (simp add: expired_iff)
  then show "looked_up sv k sv2 o1" "looked_up sv d sv2 o2" using l k by (simp_all add: looked_up_def)
qed

text \<open>Changing the values of two keys, the first possibly to nothing.\<close>

lemma put_two:
  assumes l: "looked_up sv k sv2 o1" "looked_up sv d sv2 o2" and kd: "k \<noteq> d" and w: "val_ok w" and r: "r = r'"
    and full: "val_ok v \<Longrightarrow> a = aval_of v \<and> same_data sv3 (put_val (put_val sv2 k v) d w)"
    and empty: "\<not> val_ok v \<Longrightarrow> (a = AList [] \<or> a = ASet {}) \<and> same_data sv3 (put_val (fst (dbDelete (put_val sv2 k v) k)) d w)"
  shows "implements sv (Some (sv3, r)) (store (store (view sv) k a) d (aval_of w), r')"
proof -
  note D = looked_upD [OF l(1)] looked_upD(4) [OF l(2)]
  define sk where "sk = (if val_ok v then put_val sv2 k v else fst (dbDelete (put_val sv2 k v) k))"
  have s: "serving sk"
  proof (cases "val_ok v")
    case True
    then show ?thesis using put_store(2) [OF l(1)] by (simp add: sk_def)
  next
    case False
    then show ?thesis using ok_but_put_val [OF D(7), of k "{k}" v] by (auto simp: sk_def)
  qed
  have view: "view sk = store (view sv) k a"
  proof (cases "val_ok v")
    case True
    then show ?thesis using put_store(1) [OF l(1)] full by (simp add: sk_def)
  next
    case False
    then show ?thesis using empty D by (auto simp: sk_def store_def view_put_val)
  qed
  have look: "fmlookup (sv_dict sk) d = o2" "\<not> expired sk d" "sv_mstime sk = sv_mstime sv"
    using kd looked_upD(3,4,5) [OF l(2)] by (auto simp: sk_def expired_iff)
  then have sd: "looked_up sk d sk o2" using s by (simp add: looked_up_def)
  have data: "same_data sv3 (put_val sk d w)" using full empty by (auto simp: sk_def)
  show ?thesis
    using put_implements [OF sd w refl data r] look(3) by (simp add: implements_def view)
qed

lemma rpoplpush_same:
  assumes l: "looked_up sv k sv2 (Some (VList xs))" and x: "xs \<noteq> []"
  shows "implements sv (rpoplpush_move sv2 k k xs True) (store (view sv) k (AList (last xs # butlast xs)), RBulk (last xs))"
  using x put_implements [OF l, of "VList (last xs # butlast xs)"]
  by (simp add: rpoplpush_move_def listTypePop_def rpoplpushHandlePush_def list_at_def listTypePush_def logs_out)

lemma put_two_lists:
  assumes l: "looked_up sv k sv2 o1" "looked_up sv d sv2 o2" "k \<noteq> d"
    and full: "xs \<noteq> [] \<Longrightarrow> same_data sv3 (put_val (put_val sv2 k (VList xs)) d (VList (y # ys)))"
    and empty: "xs = [] \<Longrightarrow> same_data sv3 (put_val (fst (dbDelete sv2 k)) d (VList (y # ys)))"
  shows "implements sv (Some (sv3, r)) (store (store (view sv) k (AList xs)) d (AList (y # ys)), r)"
  using put_two [OF l, of "VList (y # ys)" r r "VList xs" "AList xs" sv3] full empty by (simp add: logs_out)

lemma rpoplpush_other:
  assumes l: "looked_up sv k sv2 (Some (VList xs))" "looked_up sv d sv2 (map_option VList o2)"
    and x: "xs \<noteq> []" "k \<noteq> d" and ys: "ys = (case o2 of None \<Rightarrow> [] | Some ys \<Rightarrow> ys)"
  shows "implements sv (rpoplpush_move sv2 k d xs (o2 \<noteq> None))
     (store (store (view sv) k (AList (butlast xs))) d (AList (last xs # ys)), RBulk (last xs))"
proof -
  have look: "fmlookup (sv_dict sv2) d = map_option VList o2" using looked_upD(5) [OF l(2)] by simp
  show ?thesis
    using x ys look by (cases o2) (auto simp: rpoplpush_move_def listTypePop_def rpoplpushHandlePush_def list_at_def
      listTypePush_def logs_out dbAdd_def Let_def intro!: put_two_lists [OF l x(2)])
qed

lemma rpoplpush_implements:
  assumes sv: "serving sv"
  shows "implements sv (rpoplpushCommand sv k d) (spec_rpoplpush (view sv) k d)"
proof -
  obtain sv1 o1 where l1: "lookupKeyWrite sv k = Some (sv1, o1)" "looked_up sv k sv1 o1" using lookupKeyWrite_serving [OF sv] by blast
  show ?thesis
  proof (rule typed_list [OF l1(2), of RNil])
    assume "view sv k = None" "typed_or_reply (sv1, o1) RNil OBJ_LIST = (sv1, Inl RNil)"
    then show ?thesis using l1 unchanged [OF l1(2)]
      by (simp add: rpoplpushCommand_def lookupKeyWriteOrReply_def spec_rpoplpush_def)
  next
    fix a e assume "aval_type a \<noteq> OBJ_LIST" "view sv k = Some (a, e)" "typed_or_reply (sv1, o1) RNil OBJ_LIST = (sv1, Inl wrongtypeerr)"
    then show ?thesis using l1 unchanged [OF l1(2)]
      by (cases a) (simp_all add: rpoplpushCommand_def lookupKeyWriteOrReply_def spec_rpoplpush_def)
  next
    fix xs assume x: "xs \<noteq> []" "o1 = Some (VList xs)" "view sv k = Some (AList xs, fmlookup (sv_expires sv1) k)"
      "typed_or_reply (sv1, o1) RNil OBJ_LIST = (sv1, Inr (VList xs))"
    obtain sv2 o2 where l2: "lookupKeyWrite sv1 d = Some (sv2, o2)" "looked_up sv1 d sv2 o2" "other_keys_kept sv1 d sv2"
      using lookupKeyWrite_serving [OF looked_upD(1) [OF l1(2)]] by blast
    note both = looked_up_both [OF l1(2) l2(2,3)]
    have run: "rpoplpushCommand sv k d = (if (case o2 of None \<Rightarrow> False | Some v \<Rightarrow> checkType v OBJ_LIST) then Some (sv2, wrongtypeerr)
        else rpoplpush_move sv2 k d xs (o2 \<noteq> None))"
      using l1(1) l2(1) x by (simp add: rpoplpushCommand_def lookupKeyWriteOrReply_def)
    consider (same) "k = d" | (list) ys where "k \<noteq> d" "o2 = map_option VList ys" | (other) v where "k \<noteq> d" "o2 = Some v" "rval_type v \<noteq> OBJ_LIST"
      using both(2) looked_up_val list_val by (cases o2) (force, metis option.map(2))
    then show ?thesis
    proof cases
      case same
      then have "o2 = o1" using looked_upD(5) [OF both(1)] looked_upD(5) [OF both(2)] by simp
      then show ?thesis using same rpoplpush_same [of sv k sv2 xs] both(1) x run by (simp add: checkType_def spec_rpoplpush_def)
    next
      case (list ys)
      then show ?thesis
        using rpoplpush_other [of sv k sv2 xs d ys] both looked_upD(6) [OF both(2)] x run
        by (cases ys) (simp_all add: checkType_def spec_rpoplpush_def)
    next
      case (other v)
      then show ?thesis using unchanged [OF both(1)] looked_upD(6) [OF both(2)] x run
        by (cases v) (simp_all add: checkType_def spec_rpoplpush_def)
    qed
  qed
qed

end
