(* ===== verification/CommandsRefine.thy ===== *)
theory CommandsRefine
  imports CommandsSpec
begin

text \<open>
  The set commands and the commands on keys implement their specification, and with the list commands of
  \<open>CommandsSpec\<close> so does every modelled row of the command table.
\<close>

section \<open>Set commands\<close>

lemma setTypeCreate_simps [simp]: "rset_wf (setTypeCreate v)" "rset_elems (setTypeCreate v) = {}"
  using intsetNew_wf by (auto simp: setTypeCreate_def intset_room_def intsetNew_def split: option.splits)

lemma sadd_members_implements:
  assumes l: "looked_up sv key sv1 o1" and rs: "rset_wf rs" "rset_elems rs \<union> set vs \<noteq> {}"
    and s: "s = sv1 \<or> s = (put_val sv1 key (VSet rs))\<lparr>sv_ready := ks\<rparr>"
  shows "implements sv (sadd_members s key rs vs)
     (store (view sv) key (ASet (rset_elems rs \<union> set vs)), RInt (int (card (set vs - rset_elems rs))))"
proof -
  have "env_ok (sv_env s)" using s ok_but_master(5) [OF looked_upD(7) [OF l]] by auto
  then obtain rs1 where r1: "add_all (setTypeAdd (sv_env s)) rs vs = Some (rs1, card (set vs - rset_elems rs))" "rset_wf rs1"
    "rset_elems rs1 = rset_elems rs \<union> set vs"
    using rset.add_all_law rs(1) by blast
  have "val_ok (VSet rs1)" "same_data (put_val s key (VSet rs1)) (put_val sv1 key (VSet rs1))"
    using r1 rs(2) s by (auto simp: logs_out)
  from put_implements [OF l this(1) _ _ refl] this(2) r1 show ?thesis by (simp add: sadd_members_def Let_def)
qed

lemma sadd_implements:
  assumes sv: "serving sv" and vs: "vs \<noteq> []"
  shows "implements sv (saddCommand sv key vs) (spec now (view sv) (Sadd key vs))"
proof -
  obtain sv1 o1 where l: "lookupKeyWrite sv key = Some (sv1, o1)" "looked_up sv key sv1 o1" using lookupKeyWrite_serving [OF sv] by blast
  consider (none) "o1 = None" | (set) rs where "o1 = Some (VSet rs)" "rset_wf rs" "rset_elems rs \<noteq> {}"
    | (other) v where "o1 = Some v" "rval_type v \<noteq> OBJ_SET"
    using l(2) looked_up_val set_val by (cases o1) (simp, metis)
  then show ?thesis
  proof cases
    case none
    then obtain v vs' where "vs = v # vs'" using vs by (cases vs) auto
    moreover have "dbAdd sv1 key (VSet (setTypeCreate v)) = Some ((put_val sv1 key (VSet (setTypeCreate v)))\<lparr>sv_ready := sv_ready sv1\<rparr>)"
      using none looked_upD(5) [OF l(2)] by (simp add: dbAdd_def)
    ultimately show ?thesis
      using sadd_members_implements [OF l(2), of "setTypeCreate v" vs] none l(1) looked_upD(6) [OF l(2)]
      by (auto simp: saddCommand_def)
  next
    case (set rs)
    then show ?thesis using sadd_members_implements [OF l(2), of rs vs sv1] l(1) looked_upD(6) [OF l(2)]
      by (simp add: saddCommand_def on_set_def)
  next
    case (other v)
    have "saddCommand sv key vs = Some (sv1, wrongtypeerr)" using other l(1) by (cases v) (simp_all add: saddCommand_def)
    then show ?thesis using unchanged [OF l(2)] looked_upD(6) [OF l(2)] other by (simp add: on_other)
  qed
qed

lemma srem_implements:
  assumes sv: "serving sv"
  shows "implements sv (sremCommand sv key vs) (spec now (view sv) (Srem key vs))"
  unfolding sremCommand_def set_act_def [symmetric] spec.simps
proof (rule set_act_implements [OF a_lookup_ok(2) [OF sv]], goal_cases)
  case (1 sv1 rs)
  obtain rs1 where r1: "remove_all (setTypeRemove (sv_env sv1)) setTypeSize rs vs =
      Some (rs1, card (set vs \<inter> rset_elems rs), rset_elems rs - set vs = {})" "rset_wf rs1" "rset_elems rs1 = rset_elems rs - set vs"
    using rset.remove_all_law [OF 1(2,3)] by blast
  show ?case
  proof (cases "rset_elems rs - set vs = {}")
    case True
    then show ?thesis using r1(1) by (auto simp: Let_def logs_out intro!: del_implements [OF 1(1)])
  next
    case False
    then have v: "val_ok (VSet rs1)" using r1 by simp
    show ?thesis using r1 False by (auto simp: Let_def logs_out intro!: put_implements [OF 1(1) v])
  qed
qed

lemma sismember_implements:
  assumes sv: "serving sv"
  shows "implements sv (sismemberCommand sv key v) (spec now (view sv) (Sismember key v))"
  unfolding sismemberCommand_def set_act_def [symmetric] spec.simps
proof (rule set_act_implements [OF a_lookup_ok(1) [OF sv]], goal_cases)
  case (1 sv1 rs)
  then show ?case by (auto simp: setTypeIsMember_spec intro!: keep_store [OF 1(1) 1(4)])
qed

lemma scard_implements:
  assumes sv: "serving sv"
  shows "implements sv (scardCommand sv key) (spec now (view sv) (Scard key))"
  unfolding scardCommand_def set_act_def [symmetric] spec.simps
proof (rule set_act_implements [OF a_lookup_ok(1) [OF sv]], goal_cases)
  case (1 sv1 rs)
  then show ?case by (auto simp: setTypeSize_spec intro!: keep_store [OF 1(1) 1(4)])
qed

lemma smove_add_implements:
  assumes l: "looked_up sv k sv2 o1" "looked_up sv d sv2 (map_option VSet o2)" "k \<noteq> d"
    and rs1: "rset_wf rs1"
    and full: "rset_elems rs1 \<noteq> {} \<Longrightarrow> same_data s (put_val sv2 k (VSet rs1))"
    and empty: "rset_elems rs1 = {} \<Longrightarrow> same_data s (fst (dbDelete sv2 k))"
    and D: "D = (case o2 of None \<Rightarrow> {} | Some rd \<Rightarrow> rset_elems rd)"
  shows "implements sv (smove_add s k d o2 v) (store (store (view sv) k (ASet (rset_elems rs1))) d (ASet (insert v D)), RInt 1)"
proof -
  have env: "env_ok (sv_env s)" using ok_but_master(5) [OF looked_upD(7) [OF l(1)]] full empty same_data_eqs(8)
    by (cases "rset_elems rs1 = {}") fastforce+
  have none: "o2 = None \<Longrightarrow> fmlookup (sv_dict s) d = None"
    using looked_upD(5) [OF l(2)] full empty same_data_eqs(6) l(3) by (cases "rset_elems rs1 = {}") fastforce+
  have "rset_wf (case o2 of None \<Rightarrow> setTypeCreate v | Some rd \<Rightarrow> rd)" "rset_elems (case o2 of None \<Rightarrow> setTypeCreate v | Some rd \<Rightarrow> rd) = D"
    using looked_up_val [of sv d sv2] l(2) D by (cases o2; fastforce)+
  then obtain rd where rd: "setTypeAdd (sv_env s) (case o2 of None \<Rightarrow> setTypeCreate v | Some rd \<Rightarrow> rd) v = Some (rd, v \<notin> D)"
    "rset_wf rd" "rset_elems rd = insert v D"
    using setTypeAdd_spec [OF _ env] by blast
  then have w: "val_ok (VSet rd)" by simp
  have "same_data s' (put_val s d (VSet rd)) \<Longrightarrow> implements sv (Some (s', RInt 1)) (store (store (view sv) k (ASet (rset_elems rs1))) d (ASet (insert v D)), RInt 1)" for s'
  proof -
    assume s': "same_data s' (put_val s d (VSet rd))"
    have t: "same_data s' (put_val t d (VSet rd))" if "same_data s t" for t
      using s' same_data_cong(2) [OF that, of d "VSet rd"] by (simp add: same_data_def)
    show ?thesis
      using put_two [OF l(1,2,3) w refl, of "VSet rs1" "ASet (rset_elems rs1)" s' "RInt 1"] t full empty rs1 rd(3)
      by (auto simp: logs_out)
  qed
  then show ?thesis using rd none
    by (cases o2) (auto simp: smove_add_def dbAdd_def Let_def logs_out intro: same_data_cong)
qed

lemma smove_implements:
  assumes sv: "serving sv"
  shows "implements sv (smoveCommand sv k d v) (spec_smove (view sv) k d v)"
proof -
  obtain sv1 o1 where l1: "lookupKeyWrite sv k = Some (sv1, o1)" "looked_up sv k sv1 o1" using lookupKeyWrite_serving [OF sv] by blast
  obtain sv2 o2 where l2: "lookupKeyWrite sv1 d = Some (sv2, o2)" "looked_up sv1 d sv2 o2" "other_keys_kept sv1 d sv2"
    using lookupKeyWrite_serving [OF looked_upD(1) [OF l1(2)]] by blast
  note both = looked_up_both [OF l1(2) l2(2,3)]
  note view = looked_upD(6) [OF both(1)] looked_upD(6) [OF both(2)]
  note run = l1(1) l2(1) smoveCommand_def
  consider (none) "o1 = None" | (set) rs where "o1 = Some (VSet rs)" "rset_wf rs" "rset_elems rs \<noteq> {}"
    | (other) w where "o1 = Some w" "rval_type w \<noteq> OBJ_SET"
    using both(1) looked_up_val set_val by (cases o1) (simp, metis)
  then show ?thesis
  proof cases
    case none
    then show ?thesis using unchanged [OF both(1)] view by (simp add: run spec_smove_def)
  next
    case (other w)
    then show ?thesis using unchanged [OF both(1)] view by (cases w) (simp_all add: run spec_smove_def checkType_def)
  next
    case (set rs)
    note rs = this
    consider (bad) w where "o2 = Some w" "rval_type w \<noteq> OBJ_SET" | (good) rd where "o2 = map_option VSet rd"
      using both(2) looked_up_val set_val by (cases o2) (force, metis option.map(2))
    then show ?thesis
    proof cases
      case (bad w)
      then show ?thesis using unchanged [OF both(1)] view rs by (cases w) (simp_all add: run spec_smove_def checkType_def)
    next
      case (good rd)
      have typed: "\<not> (checkType (VSet rs) OBJ_SET \<or> (case o2 of None \<Rightarrow> False | Some x \<Rightarrow> checkType x OBJ_SET))"
        "(case o2 of Some (VSet x) \<Rightarrow> Some x | _ \<Rightarrow> None) = rd"
        using good by (cases rd; simp add: checkType_def)+
      have sp: "spec_smove (view sv) k d v =
          (if v \<notin> rset_elems rs then (view sv, RInt 0) else if k = d then (view sv, RInt 1)
           else (store (store (view sv) k (ASet (rset_elems rs - {v}))) d (ASet (insert v (case rd of None \<Rightarrow> {} | Some x \<Rightarrow> rset_elems x))), RInt 1))"
        using view rs good by (cases rd) (simp_all add: spec_smove_def)
      obtain rs1 where rs1: "setTypeRemove (sv_env sv2) rs v = Some (rs1, v \<in> rset_elems rs)" "rset_wf rs1"
        "rset_elems rs1 = rset_elems rs - {v}" using setTypeRemove_spec [OF rs(2)] by blast
      have sz: "setTypeSize rs1 = 0 \<longleftrightarrow> rset_elems rs1 = {}"
        using setTypeSize_spec [OF rs1(2)] rset.finite_elems [OF rs1(2)] by simp
      consider "k = d" | "k \<noteq> d" "v \<notin> rset_elems rs" | "k \<noteq> d" "v \<in> rset_elems rs" by blast
      then show ?thesis
      proof cases
        case 1
        then show ?thesis using unchanged [OF both(1)] rs typed sp l1(1) l2(1) setTypeIsMember_spec [OF rs(2), of v]
          by (auto simp: smoveCommand_def)
      next
        case 2
        have "implements sv (Some (put_val sv2 k (VSet rs1), RInt 0)) (store (view sv) k (ASet (rset_elems rs1)), RInt 0)"
          using rs1(2,3) rs(3) 2(2) by (intro put_implements [OF both(1), of "VSet rs1"]) simp_all
        moreover have "store (view sv) k (ASet (rset_elems rs1)) = view sv"
          using view(1) rs rs1(3) 2 by (auto simp: store_def)
        ultimately show ?thesis using 2 rs typed sp rs1 by (simp add: run)
      next
        case 3
        have "implements sv (smove_add (let s = notifyKeyspaceEvent (put_val sv2 k (VSet rs1)) NOTIFY_SET ''srem'' k in
            if setTypeSize rs1 = 0 then notifyKeyspaceEvent (fst (dbDelete s k)) NOTIFY_GENERIC ''del'' k else s) k d rd v)
          (store (store (view sv) k (ASet (rset_elems rs1))) d (ASet (insert v (case rd of None \<Rightarrow> {} | Some x \<Rightarrow> rset_elems x))), RInt 1)"
          using both(2) good 3(1) rs1(2) sz by (intro smove_add_implements [OF both(1)]) (simp_all add: Let_def logs_out)
        then show ?thesis using 3 rs typed sp rs1 by (simp add: run Let_def)
      qed
    qed
  qed
qed

section \<open>Commands on keys\<close>

lemma card_del: "card {x \<in> set (k # ks). m x \<noteq> None} = (if m k = None then 0 else 1) + card {x \<in> set ks. (m(k := None)) x \<noteq> None}"
proof (cases "m k = None")
  case True
  then have "m(k := None) = m" by auto
  moreover have "{x \<in> set (k # ks). m x \<noteq> None} = {x \<in> set ks. m x \<noteq> None}" using True by auto
  ultimately show ?thesis using True by simp
next
  case False
  have "{x \<in> set (k # ks). m x \<noteq> None} = insert k {x \<in> set ks. (m(k := None)) x \<noteq> None}" using False by auto
  then show ?thesis using False by simp
qed

lemma dbDelete_case: "(case dbDelete sv k of (a, b) \<Rightarrow> f a b) = f (fst (dbDelete sv k)) (fmlookup (sv_dict sv) k \<noteq> None)"
  by (simp add: case_prod_beta)

lemma del_loop_spec:
  "serving sv \<Longrightarrow> \<exists>sv'. del_loop sv ks = Some (sv', card {k \<in> set ks. view sv k \<noteq> None}) \<and> serving sv' \<and>
     view sv' = (\<lambda>k. if k \<in> set ks then None else view sv k) \<and> sv_mstime sv' = sv_mstime sv"
proof (induction ks arbitrary: sv)
  case (Cons k ks)
  obtain sv1 where e: "expireIfNeeded sv k = Some (sv1, expired sv k)" "looked_up sv k sv1 (fmlookup (sv_dict sv1) k)"
    using expireIfNeeded_serving [OF Cons.prems, of k] by blast
  note d = looked_upD [OF e(2)]
  define was where "was = (fmlookup (sv_dict sv1) k \<noteq> None)"
  define sv2 where "sv2 = (if was then add_dirty (notifyKeyspaceEvent (signalModifiedKey (fst (dbDelete sv1 k)) k) NOTIFY_GENERIC ''del'' k) 1
    else fst (dbDelete sv1 k))"
  have s2: "serving sv2" "view sv2 = (view sv)(k := None)" "sv_mstime sv2 = sv_mstime sv"
    using d serving_dbDelete [OF d(7)] by (simp_all add: sv2_def)
  obtain sv' where sv': "del_loop sv2 ks = Some (sv', card {x \<in> set ks. view sv2 x \<noteq> None})" "serving sv'"
    "view sv' = (\<lambda>x. if x \<in> set ks then None else view sv2 x)" "sv_mstime sv' = sv_mstime sv2"
    using Cons.IH [OF s2(1)] by blast
  have "view sv k = None \<longleftrightarrow> \<not> was" using d(6) by (simp add: was_def)
  then have "card {x \<in> set (k # ks). view sv x \<noteq> None} = (if was then 1 else 0) + card {x \<in> set ks. view sv2 x \<noteq> None}"
    using card_del [of k ks "view sv"] s2(2) by simp
  moreover have "del_loop sv (k # ks) = Some (sv', (if was then 1 else 0) + card {x \<in> set ks. view sv2 x \<noteq> None})"
    using sv'(1) e(1) by (cases was) (simp_all add: sv2_def dbDelete_case was_def del: view_dbDelete log_simps)
  ultimately show ?case using sv' s2 by (auto simp: fun_eq_iff)
qed simp

lemma exists_loop_spec:
  "serving sv \<Longrightarrow> \<exists>sv'. exists_loop sv ks = Some (sv', length (filter (\<lambda>k. view sv k \<noteq> None) ks)) \<and> serving sv' \<and>
     view sv' = view sv \<and> sv_mstime sv' = sv_mstime sv"
proof (induction ks arbitrary: sv)
  case (Cons k ks)
  obtain sv1 where e: "expireIfNeeded sv k = Some (sv1, expired sv k)" "looked_up sv k sv1 (fmlookup (sv_dict sv1) k)"
    using expireIfNeeded_serving [OF Cons.prems, of k] by blast
  then show ?case using Cons.IH [OF looked_upD(1) [OF e(2)]] looked_upD [OF e(2)] by (auto simp: dbExists_def)
qed simp

lemma touch_loop_spec:
  "serving sv \<Longrightarrow> \<exists>sv'. touch_loop sv ks = Some (sv', length (filter (\<lambda>k. view sv k \<noteq> None) ks)) \<and> serving sv' \<and>
     view sv' = view sv \<and> sv_mstime sv' = sv_mstime sv"
proof (induction ks arbitrary: sv)
  case (Cons k ks)
  obtain sv1 o1 where e: "lookupKeyRead sv k = Some (sv1, o1)" "looked_up sv k sv1 o1"
    using lookupKeyRead_serving [OF Cons.prems, of k] by blast
  then show ?case using Cons.IH [OF looked_upD(1) [OF e(2)]] looked_upD(2,3,6) [OF e(2)] by auto
qed simp

lemma key_counts_implement:
  assumes sv: "serving sv"
  shows "implements sv (delCommand sv ks) (spec now (view sv) (Del ks))"
    "implements sv (existsCommand sv ks) (spec now (view sv) (Exists ks))"
    "implements sv (touchCommand sv ks) (spec now (view sv) (Touch ks))"
  using del_loop_spec [OF sv, of ks] exists_loop_spec [OF sv, of ks] touch_loop_spec [OF sv, of ks]
  by (auto simp: delCommand_def existsCommand_def touchCommand_def implements_def)

lemma flushdb_implements:
  assumes sv: "serving sv"
  shows "implements sv (flushdbCommand sv) (spec now (view sv) Flushdb)"
proof -
  define sv0 where "sv0 = signalFlushedDb (add_dirty sv (fcard (fmdom (sv_dict sv))))"
  have "serving sv0" "sv_mstime sv0 = sv_mstime sv" using sv by (simp_all add: sv0_def)
  then show ?thesis
    by (auto simp: flushdbCommand_def serving_def ok_but_def view_def fun_eq_iff Let_def fmpred_iff simp flip: sv0_def)
qed

lemma type_implements:
  assumes sv: "serving sv"
  shows "implements sv (typeCommand sv k) (spec now (view sv) (Type k))"
proof -
  obtain sv1 o1 where l: "lookupKeyRead sv k = Some (sv1, o1)" "looked_up sv k sv1 o1" using lookupKeyRead_serving [OF sv] by blast
  then show ?thesis using unchanged [OF l(2)] looked_upD(6) [OF l(2)] by (cases o1) (simp_all add: typeCommand_def)
qed

lemma getExpire_ok:
  assumes "ok_but K sv"
  shows "getExpire sv k = Some (case fmlookup (sv_expires sv) k of None \<Rightarrow> - 1 | Some w \<Rightarrow> w)"
  using ok_but_expires(3) [OF assms, of k] by (cases "fmlookup (sv_expires sv) k") (auto simp: getExpire_def)

lemma set_expires:
  assumes l: "looked_up sv k sv1 (Some v)" and w: "sv_mstime sv \<le> w" "int64 w"
  shows "\<exists>sv2. setExpire sv1 k w = Some sv2 \<and> serving sv2 \<and> view sv2 = (view sv)(k := Some (aval_of v, Some w)) \<and>
     sv_mstime sv2 = sv_mstime sv \<and> fmlookup (sv_dict sv2) = fmlookup (sv_dict sv1)"
proof -
  note d = looked_upD [OF l]
  have v: "fmlookup (sv_dict sv1) k = Some v" using d(5) by simp
  have "0 \<le> w" using w(1) ok_but_master(4) [OF d(7)] d(3) by simp
  then have "serving (sv1\<lparr>sv_expires := fmupd k w (sv_expires sv1)\<rparr>)"
    using d(1) v w(2) by (auto simp: serving_def ok_but_def fmpred_iff fmlookup_dom_iff)
  moreover have "view (sv1\<lparr>sv_expires := fmupd k w (sv_expires sv1)\<rparr>) = (view sv)(k := Some (aval_of v, Some w))"
    unfolding d(2) [symmetric] using v w(1) d(3) by (auto simp: view_def expired_iff fun_eq_iff)
  ultimately show ?thesis using v d(3) by (simp add: setExpire_def)
qed

lemma expire_implements:
  assumes sv: "serving sv" and unit: "unit = (if secs then 1000 else 1)" and base: "base = (if now then sv_mstime sv else 0)"
    and fits: "\<And>n. string2ll t = Some n \<Longrightarrow> int64 (n * unit) \<and> int64 (n * unit + base)"
  shows "implements sv (expireGenericCommand sv k t now secs) (spec_expire (sv_mstime sv) (view sv) k t base unit)"
proof (cases "string2ll t")
  case None
  then show ?thesis using sv by (auto simp: expireGenericCommand_def spec_expire_def with_number_def arg_ok)
next
  case (Some n)
  define w where "w = n * unit + base"
  obtain sv1 o1 where l: "lookupKeyWrite sv k = Some (sv1, o1)" "looked_up sv k sv1 o1" using lookupKeyWrite_serving [OF sv] by blast
  note d = looked_upD [OF l(2)] and m = ok_but_master [OF looked_upD(7) [OF l(2)]]
  have i: "int64 (n * unit)" "int64 w" using fits [OF Some] by (simp_all add: w_def)
  have eqs: "(if secs then n * 1000 else n) = n * unit" "n * unit + (if now then sv_mstime sv else 0) = w"
    by (simp_all add: unit base w_def)
  have run: "expireGenericCommand sv k t now secs =
      (if o1 = None then Some (sv1, RInt 0)
       else if w \<le> sv_mstime sv1 \<and> \<not> sv_loading sv1 \<and> \<not> sv_masterhost sv1
       then (case dbDelete sv1 k of (sv2, existed) \<Rightarrow>
               if \<not> existed then None
               else Some (notifyKeyspaceEvent (signalModifiedKey (add_dirty sv2 1) k) NOTIFY_GENERIC ''del'' k, RInt 1))
       else do {
         sv2 \<leftarrow> setExpire sv1 k w;
         Some (add_dirty (notifyKeyspaceEvent (signalModifiedKey sv2 k) NOTIFY_GENERIC ''expire'' k) 1, RInt 1)
       })"
    using i l(1) by (simp only: expireGenericCommand_def arg_ok Some option.case bind.bind_lunit sum.case Let_def eqs) simp
  consider "o1 = None" | v where "o1 = Some v" "w \<le> sv_mstime sv" | v where "o1 = Some v" "sv_mstime sv < w" by (cases o1) force+
  then show ?thesis
  proof cases
    case 1
    then show ?thesis using run unchanged [OF l(2)] d(6) by (simp add: spec_expire_def with_number_def Some)
  next
    case (2 v)
    then show ?thesis using run d m serving_dbDelete [OF d(7)]
      by (auto simp: dbDelete_case spec_expire_def with_number_def Some Let_def simp flip: w_def)
  next
    case (3 v)
    obtain sv2 where "setExpire sv1 k w = Some sv2" "serving sv2" "view sv2 = (view sv)(k := Some (aval_of v, Some w))" "sv_mstime sv2 = sv_mstime sv"
      using set_expires [of sv k sv1 v w] l(2) 3 i(2) by auto
    then show ?thesis using run 3 d
      by (auto simp: spec_expire_def with_number_def Some Let_def simp flip: w_def)
  qed
qed

lemma ttl_implements:
  assumes sv: "serving sv"
  shows "implements sv (ttlGenericCommand sv k ms) (spec_ttl (sv_mstime sv) (view sv) k (if ms then id else (\<lambda>t. (t + 500) div 1000)))"
proof -
  obtain sv1 o1 where l: "lookupKeyRead sv k = Some (sv1, o1)" "looked_up sv k sv1 o1" using lookupKeyRead_serving [OF sv] by blast
  note d = looked_upD [OF l(2)]
  have clock: "500 \<le> sv_mstime sv" using ok_but_master(4) [OF d(7)] d(3) by simp
  show ?thesis
  proof (cases "fmlookup (sv_expires sv1) k")
    case None
    then show ?thesis using l(1) unchanged [OF l(2)] d(6) getExpire_ok [OF d(7), of k]
      by (cases o1) (auto simp: ttlGenericCommand_def spec_ttl_def int64_def)
  next
    case (Some w)
    have w: "0 \<le> w" "int64 w" "sv_mstime sv \<le> w"
      using ok_but_expires [OF d(7) Some] d(3,4) Some by (auto simp: expired_iff)
    then have "int64 (w - sv_mstime sv)" "int64 (w - sv_mstime sv + 500)" using clock by (simp_all add: int64_def)
    then show ?thesis using l(1) unchanged [OF l(2)] d(3,6) getExpire_ok [OF d(7), of k] Some w
      by (cases o1) (auto simp: ttlGenericCommand_def spec_ttl_def)
  qed
qed

lemma persist_implements:
  assumes sv: "serving sv" and fresh: "\<not> expired sv k"
  shows "implements sv (persistCommand sv k) (spec now (view sv) (Persist k))"
proof (cases "fmlookup (sv_dict sv) k")
  case None
  then show ?thesis using sv view_at [OF fresh] by (auto simp: persistCommand_def)
next
  case (Some v)
  define sv1 where "sv1 = sv\<lparr>sv_expires := fmdrop k (sv_expires sv)\<rparr>"
  have run: "removeExpire sv k = Some (sv1, fmlookup (sv_expires sv) k \<noteq> None)" using Some by (simp add: removeExpire_def sv1_def)
  have s: "serving sv1" using sv by (auto simp: serving_def ok_but_def fmpred_iff sv1_def)
  have m: "view sv1 = (view sv)(k := Some (aval_of v, None))" "sv_mstime sv1 = sv_mstime sv"
    using Some by (auto simp: view_def expired_iff fun_eq_iff sv1_def)
  show ?thesis
  proof (cases "fmlookup (sv_expires sv) k")
    case None
    then have "(view sv)(k := Some (aval_of v, None)) = view sv" using view_at [OF fresh] Some by auto
    then show ?thesis using run None Some s m view_at [OF fresh] by (auto simp: persistCommand_def)
  next
    case (Some w)
    then show ?thesis using run \<open>fmlookup (sv_dict sv) k = Some v\<close> s m view_at [OF fresh] by (auto simp: persistCommand_def)
  qed
qed

lemma dbsize_implements:
  assumes sv: "serving sv" and fresh: "\<And>k. \<not> expired sv k"
  shows "implements sv (dbsizeCommand sv) (spec now (view sv) Dbsize)"
proof -
  have "dom (view sv) = fset (fmdom (sv_dict sv))" using fresh by (auto simp: view_def fmlookup_dom_iff dom_def)
  then show ?thesis using sv by (auto simp: dbsizeCommand_def fcard.rep_eq)
qed

text \<open>Moving a value with its time to a key that is free.\<close>

lemma rename_move:
  assumes l: "looked_up sv k sv2 (Some v)" and kd: "k \<noteq> d"
    and s: "s = sv2 \<or> s = fst (dbDelete sv2 d)" "fmlookup (sv_dict s) d = None" and e: "getExpire sv2 k = Some e"
  shows "\<exists>sv4. (do { sv3 \<leftarrow> dbAdd s d v; (if e \<noteq> - 1 then setExpire sv3 d e else Some sv3) }) = Some sv4 \<and>
     serving (fst (dbDelete sv4 k)) \<and> view (fst (dbDelete sv4 k)) = (view sv)(k := None, d := view sv k) \<and> sv_mstime sv4 = sv_mstime sv"
proof -
  note D = looked_upD [OF l]
  have v: "val_ok v" using looked_up_val [OF l] .
  have ss: "serving s" "sv_mstime s = sv_mstime sv" "view s = (view sv)(d := None)" "fmlookup (sv_expires s) d = None"
    "fmlookup (sv_dict s) k = Some v" "fmlookup (sv_expires s) k = fmlookup (sv_expires sv2) k"
  proof -
    show a: "serving s" using s D(1) serving_dbDelete [OF D(7)] by auto
    show "sv_mstime s = sv_mstime sv" using s D(3) by auto
    show "fmlookup (sv_expires s) d = None" using ok_but_expires(3) [OF servingD [OF a], of d] s(2) by (cases "fmlookup (sv_expires s) d") auto
    have "view s d = None" using s(2) by (simp add: view_def)
    then show "view s = (view sv)(d := None)" using s(1) D(2) by (auto simp: fun_eq_iff)
    show "fmlookup (sv_dict s) k = Some v" "fmlookup (sv_expires s) k = fmlookup (sv_expires sv2) k" using s D(5) kd by auto
  qed
  have ex: "\<not> expired s d" using ss(4) by (simp add: expired_iff)
  define s3 where "s3 = (put_val s d v)\<lparr>sv_ready := sv_ready s @ (if rval_type v = OBJ_LIST then [d] else [])\<rparr>"
  have add: "dbAdd s d v = Some s3" using s(2) by (simp add: dbAdd_def s3_def)
  have s3: "serving s3" "view s3 = (view sv)(d := Some (aval_of v, None))" "sv_mstime s3 = sv_mstime sv" "fmlookup (sv_dict s3) d = Some v" "\<not> expired s3 d"
    using serving_put_val [OF servingD [OF ss(1)] v, of d] view_put_val [OF ex, of v] ss ex by (simp_all add: s3_def)
  show ?thesis
  proof (cases "fmlookup (sv_expires sv2) k")
    case None
    then have "e = - 1" using e getExpire_ok [OF D(7)] by simp
    then show ?thesis using add s3 D(6) None kd serving_dbDelete [OF servingD [OF s3(1)]] by (auto simp: fun_eq_iff)
  next
    case (Some w)
    then have w: "e = w" "0 \<le> w" "int64 w" "sv_mstime sv \<le> w"
      using e getExpire_ok [OF D(7)] ok_but_expires [OF D(7) Some] D(3,4) by (auto simp: expired_iff)
    have "looked_up s3 d s3 (Some v)" using s3 by (simp add: looked_up_def)
    then obtain s4 where "setExpire s3 d w = Some s4" "serving s4" "view s4 = (view s3)(d := Some (aval_of v, Some w))" "sv_mstime s4 = sv_mstime s3"
      using set_expires [of s3 d s3 v w] w s3(3) by auto
    then show ?thesis using add s3 D(6) Some kd w serving_dbDelete [OF servingD] by (auto simp: fun_eq_iff)
  qed
qed

lemma rename_implements:
  assumes sv: "serving sv"
  shows "implements sv (renameGenericCommand sv k d nx) (spec_rename (view sv) k d nx)"
proof -
  obtain sv1 o1 where l1: "lookupKeyWrite sv k = Some (sv1, o1)" "looked_up sv k sv1 o1" using lookupKeyWrite_serving [OF sv] by blast
  show ?thesis
  proof (cases o1)
    case None
    then show ?thesis using l1(1) unchanged [OF l1(2)] looked_upD(6) [OF l1(2)] by (simp add: renameGenericCommand_def spec_rename_def)
  next
    case (Some v)
    obtain sv2 o2 where l2: "lookupKeyWrite sv1 d = Some (sv2, o2)" "looked_up sv1 d sv2 o2" "other_keys_kept sv1 d sv2"
      using lookupKeyWrite_serving [OF looked_upD(1) [OF l1(2)]] by blast
    note both = looked_up_both [OF l1(2) l2(2,3)]
    consider "k = d" | "k \<noteq> d" "nx" "o2 \<noteq> None" | "k \<noteq> d" "nx \<longrightarrow> o2 = None" by (cases "k = d"; cases nx) auto
    then show ?thesis
    proof cases
      case 1
      then show ?thesis using Some l1(1) unchanged [OF l1(2)] looked_upD(6) [OF l1(2)]
        by (simp add: renameGenericCommand_def spec_rename_def)
    next
      case 2
      then show ?thesis using Some l1(1) l2(1) unchanged [OF both(1)] looked_upD(6) [OF both(1)] looked_upD(6) [OF both(2)]
          getExpire_ok [OF looked_upD(7) [OF l1(2)], of k]
        by (auto simp: renameGenericCommand_def spec_rename_def)
    next
      case 3
      define s where "s = (if o2 \<noteq> None then fst (dbDelete sv2 d) else sv2)"
      have "fmlookup (sv_dict sv2) k = fmlookup (sv_dict sv1) k" "fmlookup (sv_expires sv2) k = fmlookup (sv_expires sv1) k"
        using l2(3) 3(1) by (simp_all add: other_keys_kept_def)
      then have e: "getExpire sv1 k = getExpire sv2 k" by (auto simp: getExpire_def split: option.splits)
      obtain e where ge: "getExpire sv2 k = Some e" using getExpire_ok [OF looked_upD(7) [OF both(1)]] by blast
      have free: "s = sv2 \<or> s = fst (dbDelete sv2 d)" "fmlookup (sv_dict s) d = None"
        using looked_upD(5) [OF both(2)] by (auto simp: s_def)
      obtain sv4 where sv4: "(do { sv3 \<leftarrow> dbAdd s d v; (if e \<noteq> - 1 then setExpire sv3 d e else Some sv3) }) = Some sv4"
        "serving (fst (dbDelete sv4 k))" "view (fst (dbDelete sv4 k)) = (view sv)(k := None, d := view sv k)" "sv_mstime sv4 = sv_mstime sv"
        using rename_move [OF _ 3(1) _ _ ge, of sv v s] both(1) free Some by blast
      have "renameGenericCommand sv k d nx = Some (add_dirty
                    (notifyKeyspaceEvent
                      (notifyKeyspaceEvent
                        (signalModifiedKey (signalModifiedKey (fst (dbDelete sv4 k)) k) d) NOTIFY_GENERIC ''rename_from'' k)
                      NOTIFY_GENERIC ''rename_to'' d) 1, if nx then RInt 1 else sharedok)"
        using sv4(1) Some l1(1) l2(1) 3 e ge
        by (auto simp: renameGenericCommand_def bind_eq_Some_conv s_def split: if_splits)
      then show ?thesis using sv4 3 Some looked_upD(6) [OF both(1)] looked_upD(6) [OF both(2)]
        by (auto simp: spec_rename_def)
    qed
  qed
qed

section \<open>Properties\<close>

text \<open>The arguments on which the code is defined and keeps its promise: no number on which a signed operation
  overflows, at least one member for \<open>SADD\<close> (the command table asks for it), and for \<open>PERSIST\<close> and \<open>DBSIZE\<close>, which
  do not look a key up, no key whose time has passed unnoticed.\<close>

definition time_fits :: "string \<Rightarrow> int \<Rightarrow> int \<Rightarrow> bool" where
  "time_fits t unit base \<longleftrightarrow> (case string2ll t of None \<Rightarrow> True | Some n \<Rightarrow> int64 (n * unit) \<and> int64 (n * unit + base))"

fun in_range :: "server \<Rightarrow> cmd \<Rightarrow> bool" where
  "in_range sv (Expire k t) \<longleftrightarrow> time_fits t 1000 (sv_mstime sv)"
| "in_range sv (Expireat k t) \<longleftrightarrow> time_fits t 1000 0"
| "in_range sv (Pexpire k t) \<longleftrightarrow> time_fits t 1 (sv_mstime sv)"
| "in_range sv (Pexpireat k t) \<longleftrightarrow> time_fits t 1 0"
| "in_range sv (Persist k) \<longleftrightarrow> \<not> expired sv k"
| "in_range sv Dbsize \<longleftrightarrow> fmpred (\<lambda>k w. sv_mstime sv \<le> w) (sv_expires sv)"
| "in_range sv (Lindex k i) \<longleftrightarrow> string2ll i \<noteq> Some (- (2 ^ 63))"
| "in_range sv (Lset k i v) \<longleftrightarrow> string2ll i \<noteq> Some (- (2 ^ 63))"
| "in_range sv (Lrem k n v) \<longleftrightarrow> string2ll n \<noteq> Some (- (2 ^ 63))"
| "in_range sv (Sadd k vs) \<longleftrightarrow> vs \<noteq> []"
| "in_range sv _ \<longleftrightarrow> True"

lemma time_fitsD: "time_fits t unit base \<Longrightarrow> string2ll t = Some n \<Longrightarrow> int64 (n * unit) \<and> int64 (n * unit + base)"
  by (simp add: time_fits_def)

lemmas command_implements = key_counts_implement flushdb_implements type_implements rename_implements persist_implements
  pushGeneric_implements [where head = True, simplified] pushGeneric_implements [where head = False, simplified]
  pushx_implements [where head = True, simplified] pushx_implements [where head = False, simplified] linsert_implements
  pop_implements [where head = True, simplified] pop_implements [where head = False, simplified] llen_implements
  lindex_implements lset_implements lrange_implements ltrim_implements lrem_implements rpoplpush_implements
  sadd_implements srem_implements smove_implements sismember_implements scard_implements
  ttl_implements [where ms = True, simplified] ttl_implements [where ms = False, simplified]

lemma run_cmd_implements:
  assumes sv: "serving sv" and c: "in_range sv c"
  shows "implements sv (run_cmd sv c) (spec (sv_mstime sv) (view sv) c)"
proof (cases c)
  case (Expire k t)
  then show ?thesis using c by (auto intro!: expire_implements [OF sv] dest: time_fitsD)
next
  case (Expireat k t)
  then show ?thesis using c by (auto intro!: expire_implements [OF sv] dest: time_fitsD)
next
  case (Pexpire k t)
  then show ?thesis using c by (auto intro!: expire_implements [OF sv] dest: time_fitsD)
next
  case (Pexpireat k t)
  then show ?thesis using c by (auto intro!: expire_implements [OF sv] dest: time_fitsD)
next
  case Dbsize
  have "\<not> expired sv k" for k using c Dbsize by (fastforce simp: expired_iff fmpred_iff)
  then show ?thesis using dbsize_implements [OF sv] Dbsize by simp
qed (use c sv in \<open>simp_all add: command_implements [unfolded spec.simps] del: not_None_eq\<close>)

text \<open>C4. Every modelled command, run by a master on any keyspace, ends without a failed assertion, keeps the
  invariant of the keyspace (no empty list or set is stored, a time belongs to a key), and acts on what clients see
  as specified: pushes, pops, slices, insertions and removals of the list, the union and difference of the set,
  times, renames and the counts replied, errors for keys of another type and for bad numbers included. Keys whose
  time has passed count as absent, although they are deleted only when a command looks at them.\<close>

theorem commands_refine:
  assumes "serving sv" "in_range sv c"
  shows "\<exists>sv'. run_cmd sv c = Some (sv', snd (spec (sv_mstime sv) (view sv) c)) \<and> serving sv' \<and>
     view sv' = fst (spec (sv_mstime sv) (view sv) c)"
  using run_cmd_implements [OF assms] by (auto simp: implements_def)

definition ex_server :: server where
  "ex_server = \<lparr>sv_dict = fmupd ''l'' (VList [''a'', ''b'', ''c'']) (fmupd ''old'' (VList [''x'']) fmempty),
     sv_expires = fmupd ''old'' 900 fmempty, sv_mstime = 1000, sv_loading = False, sv_masterhost = False, sv_lua = None,
     sv_readonly = False, sv_env = \<lparr>set_max_intset_entries = 512, realloc_junk = (\<lambda>_. 0)\<rparr>, sv_dirty = 0, sv_hits = 0,
     sv_misses = 0, sv_expiredkeys = 0, sv_modified = [], sv_flushed = 0, sv_events = [], sv_feed = [], sv_ready = []\<rparr>"

lemma ex_server_serving: "serving ex_server"
  by (auto simp: ex_server_def serving_def ok_but_def env_ok_def int64_def fmpred_iff split: if_splits)

theorem commands_refine_witness:
  "\<exists>sv'. run_cmd ex_server (Rpoplpush ''l'' ''old'') = Some (sv', RBulk ''c'') \<and> serving sv' \<and>
     view sv' ''l'' = Some (AList [''a'', ''b''], None) \<and> view sv' ''old'' = Some (AList [''c''], None)"
proof -
  have v: "view ex_server ''l'' = Some (AList [''a'', ''b'', ''c''], None)" "view ex_server ''old'' = None"
    by (simp_all add: ex_server_def view_def expired_iff)
  show ?thesis
    using commands_refine [OF ex_server_serving, of "Rpoplpush ''l'' ''old''"] v by (auto simp: spec_rpoplpush_def store_def)
qed

text \<open>\<open>PERSIST\<close> does not look whether the time of its key has passed: a key that every other command reports as
  absent comes back without a time.\<close>

theorem persist_revives:
  "view ex_server ''old'' = None \<and>
   (\<exists>sv'. run_cmd ex_server (Persist ''old'') = Some (sv', RInt 1) \<and> view sv' ''old'' = Some (AList [''x''], None))"
  by (simp add: ex_server_def view_def expired_iff persistCommand_def removeExpire_def add_dirty_def)

text \<open>\<open>EXPIRE\<close> multiplies the seconds by 1000 without a check: the multiplication overflows.\<close>

theorem expire_overflows: "run_cmd sv (Expire k ''9223372036854775807'') = None"
proof -
  have "''9223372036854775807'' = dec_int (2 ^ 63 - 1)" by (simp add: dec_int_def dec_nat.simps digit_char_def char_of_def bit_0)
  then have "string2ll ''9223372036854775807'' = Some (2 ^ 63 - 1)" by (simp only: string2ll_iff) (simp add: int64_def)
  then show ?thesis by (simp add: expireGenericCommand_def arg_ok int64_def)
qed

end
